(* ===== verification/Prelude.thy ===== *)
theory Prelude
  imports Complex_Main "HOL-Library.Word"
begin

text \<open>
  Shared vocabulary of the development: the machine integer types the sources use, the
  collections of rewrite rules the component theories extend, and the generic facts on words
  and lists that more than one component needs.

  \<^item> \<open>u64\<close>, \<open>u32\<close> and \<open>u8\<close> are \<^verbatim>\<open>uint64_t\<close> (and \<^verbatim>\<open>size_t\<close>), \<^verbatim>\<open>uint32_t\<close> and
    \<^verbatim>\<open>uint8_t\<close>: arithmetic on them wraps around, as unsigned arithmetic does in C++.
  \<^item> A C++ \<^verbatim>\<open>int\<close> is an \<open>int\<close>, with the conversion of a wider unsigned value to it
    written out (\<open>int_cast\<close>); the values the sources keep in an \<^verbatim>\<open>int\<close> never come near
    its bounds, and the component theories prove so where it matters.
\<close>

unbundle bit_operations_syntax

type_synonym u64 = "64 word"
type_synonym u32 = "32 word"
type_synonym u8 = "8 word"
type_synonym idx_key_t = u64
type_synonym idx_val_t = u64

named_theorems word_nat \<open>facts that move unsigned 64-bit arithmetic to natural numbers\<close>
named_theorems const_defs \<open>the sources' compile-time constants\<close>

subsection \<open>Unsigned 64-bit words\<close>

text \<open>The proofs read words as natural numbers; the library's default goes to \<open>int\<close>.\<close>

declare of_nat_unat [simp del]

lemma unat_u64_lt: "unat (w :: u64) < 18446744073709551616"
  by (rule order.strict_trans2 [OF unsigned_less]) simp

lemma of_nat_unat_u64 [simp]: "(of_nat (unat w) :: u64) = w"
  by (simp add: of_nat_unat)

lemma unat_of_nat_u64 [word_nat]: "n < 18446744073709551616 \<Longrightarrow> unat (of_nat n :: u64) = n"
  by (simp add: unat_of_nat)

lemma unat_add_u64 [word_nat]:
  "unat a + unat b < 18446744073709551616 \<Longrightarrow> unat (a + b :: u64) = unat a + unat b"
  by (simp add: unat_word_ariths)

lemma unat_mult_u64 [word_nat]:
  "unat a * unat b < 18446744073709551616 \<Longrightarrow> unat (a * b :: u64) = unat a * unat b"
  by (simp add: unat_word_ariths)

lemma unat_diff_u64 [word_nat]: "b \<le> (a :: u64) \<Longrightarrow> unat (a - b) = unat a - unat b"
  by (rule unat_sub) assumption

lemma unat_inc_u64 [word_nat]:
  "unat a + 1 < 18446744073709551616 \<Longrightarrow> unat (a + 1 :: u64) = unat a + 1"
  using unat_add_u64 [of a 1] by simp

lemma unat_push_bit_1 [word_nat]:
  assumes "k < 64"
  shows "unat (push_bit k 1 :: u64) = 2 ^ k"
proof -
  have "(2::nat) ^ k < 2 ^ 64"
    using assms by (intro power_strict_increasing) auto
  moreover have "push_bit k 1 = (of_nat (2 ^ k) :: u64)"
    by (simp add: push_bit_eq_mult)
  ultimately show ?thesis
    by (simp only: unat_of_nat) simp
qed

lemma unat_2p [word_nat]: "k < 64 \<Longrightarrow> unat (2 ^ k :: u64) = 2 ^ k"
  using unat_push_bit_1 [of k] by (simp add: push_bit_eq_mult)

lemma unat_eq_0_iff: "unat (w :: u64) = 0 \<longleftrightarrow> w = 0"
  by (simp add: unat_eq_zero)

lemma word_eq_iff_unat: "(a :: u64) = b \<longleftrightarrow> unat a = unat b"
  by (rule word_unat_eq_iff)

text \<open>Masking with a power of two minus one is a remainder.\<close>

lemma unat_and_pow2:
  assumes "k < 64" and "unat (c :: u64) = 2 ^ k"
  shows "unat (w AND (c - 1)) = unat w mod 2 ^ k"
proof -
  have "c - 1 = (mask k :: u64)"
  proof -
    have "c = 2 ^ k"
      using assms unat_push_bit_1 [of k] by (simp add: word_eq_iff_unat push_bit_eq_mult)
    then show ?thesis by (simp add: mask_eq_exp_minus_1)
  qed
  then have "unat (w AND (c - 1)) = unat (take_bit k w)"
    by (simp only: take_bit_eq_mask)
  also have "\<dots> = unat w mod 2 ^ k"
    by (simp only: unsigned_take_bit_eq) (simp only: take_bit_eq_mod)
  finally show ?thesis .
qed

subsection \<open>Conversion to a C++ int\<close>

text \<open>\<^verbatim>\<open>(int)x\<close> of an unsigned 64-bit value keeps the low 32 bits, read as two's complement.\<close>

definition int_cast :: "u64 \<Rightarrow> int" where
  "int_cast x = sint (ucast x :: 32 word)"

lemma int_cast_small [word_nat]:
  assumes "unat x < 2147483648"
  shows "int_cast x = int (unat x)"
proof -
  have less: "uint x < 2 ^ 31"
    using assms of_nat_less_iff [of "unat x" 2147483648, where ?'a = int] by (simp add: of_nat_unat)
  then have "uint (ucast x :: 32 word) = uint x"
    by (simp add: unsigned_ucast_eq take_bit_int_eq_self)
  then have "sint (ucast x :: 32 word) = signed_take_bit 31 (uint x)"
    by (simp only: sint_uint) simp
  also have "\<dots> = uint x"
    using less order_trans [OF _ uint_ge_0, of "- (2 ^ 31)" x]
    by (intro signed_take_bit_int_eq_self) simp_all
  finally show ?thesis by (simp only: int_cast_def uint_nat)
qed

subsection \<open>Signed readings of 64-bit words\<close>

lemma sint_small:
  assumes "unat (x :: u64) < 2 ^ 63"
  shows "sint x = int (unat x)"
proof -
  have less: "uint x < 2 ^ 63"
    using assms of_nat_less_iff [of "unat x" "2 ^ 63", where ?'a = int] by (simp add: of_nat_unat)
  have "sint x = signed_take_bit 63 (uint x)" by (simp only: sint_uint) simp
  also have "\<dots> = uint x"
    using less order_trans [OF _ uint_ge_0, of "- (2 ^ 63)" x]
    by (intro signed_take_bit_int_eq_self) simp_all
  finally show ?thesis by (simp only: uint_nat)
qed

lemma sint_diff_small:
  assumes "unat (a :: u64) < 2 ^ 63" "unat b < 2 ^ 63"
  shows "sint (a - b) = int (unat a) - int (unat b)"
proof -
  have "sint (a - b) = signed_take_bit 63 (int (unat a) - int (unat b))"
    using sint_word_diff [of a b] assms by (simp add: sint_small)
  also have "\<dots> = int (unat a) - int (unat b)"
  proof (rule signed_take_bit_int_eq_self)
    have "int (unat a) < 2 ^ 63" "int (unat b) < 2 ^ 63"
      using assms by (simp_all add: of_nat_less_iff [of _ "2 ^ 63", where ?'a = int, simplified])
    then show "- (2 ^ 63) \<le> int (unat a) - int (unat b)" "int (unat a) - int (unat b) < 2 ^ 63"
      by linarith+
  qed
  finally show ?thesis .
qed

subsection \<open>Lists\<close>

lemma nth_list_update_if: "xs[i := x] ! j = (if i = j \<and> j < length xs then x else xs ! j)"
  by (cases "i < length xs") (auto simp: nth_list_update list_update_beyond not_less)

lemma upt_join: "i \<le> j \<Longrightarrow> j \<le> k \<Longrightarrow> [i..<j] @ [j..<k] = [i..<k]"
  by (metis le_add_diff_inverse upt_add_eq_append)

end
