(* ===== verification/Ieee_Double.thy ===== *)
theory Ieee_Double
  imports Prelude
begin

text \<open>
  The C++ \<^verbatim>\<open>double\<close>. A finite double is the real number it denotes, and every operation of the
  sources on doubles is the exact real operation followed by \<open>fl\<close>, the rounding of IEEE 754
  binary64 in its default mode (to nearest, ties to even): 53 significant bits, the exponent of
  the last bit at least -1074, so gradual underflow is included. What is left out is overflow to
  infinity and NaN, which no run of the modelled code on in-range parameters produces.
  The conversion of a double to an unsigned integer truncates and is undefined behaviour out of
  range, which \<open>u64_of_double\<close> reports as \<open>None\<close>.
\<close>

definition rne :: "real \<Rightarrow> int" where
  "rne x = (let f = \<lfloor>x\<rfloor>; d = x - of_int f
            in if d < 1 / 2 then f else if 1 / 2 < d then f + 1
               else if even f then f else f + 1)"

definition expo :: "real \<Rightarrow> int" where
  "expo x = max (\<lfloor>log 2 \<bar>x\<bar>\<rfloor> - 52) (-1074)"

definition fl :: "real \<Rightarrow> real" where
  "fl x = (if x = 0 then 0 else of_int (rne (x / 2 powi expo x)) * 2 powi expo x)"

definition u64_of_double :: "real \<Rightarrow> u64 option" where
  "u64_of_double x =
     (let t = (if 0 \<le> x then \<lfloor>x\<rfloor> else \<lceil>x\<rceil>)
      in if 0 \<le> t \<and> t < 2 ^ 64 then Some (word_of_int t) else None)"

text \<open>\<^verbatim>\<open>(int)x\<close>, undefined out of the range of a 32-bit \<^verbatim>\<open>int\<close>.\<close>

definition int_of_double :: "real \<Rightarrow> int option" where
  "int_of_double x =
     (let t = (if 0 \<le> x then \<lfloor>x\<rfloor> else \<lceil>x\<rceil>)
      in if - (2 ^ 31) \<le> t \<and> t < 2 ^ 31 then Some t else None)"

definition double_of_u64 :: "u64 \<Rightarrow> real" where
  "double_of_u64 w = fl (real (unat w))"

subsection \<open>Rounding to an integer\<close>

lemma rne_of_int [simp]: "rne (of_int n) = n"
  by (simp add: rne_def Let_def)

lemma rne_of_nat [simp]: "rne (of_nat n) = int n"
  using rne_of_int [of "int n"] by simp

lemma rne_bounds: "\<lfloor>x\<rfloor> \<le> rne x" "rne x \<le> \<lfloor>x\<rfloor> + 1"
  by (auto simp: rne_def Let_def)

lemma rne_mono:
  assumes "x \<le> y"
  shows "rne x \<le> rne y"
proof (cases "\<lfloor>x\<rfloor> = \<lfloor>y\<rfloor>")
  case True
  with assms show ?thesis by (auto simp: rne_def Let_def)
next
  case False
  with floor_mono [OF assms] have "\<lfloor>x\<rfloor> + 1 \<le> \<lfloor>y\<rfloor>" by simp
  with rne_bounds [of x] rne_bounds [of y] show ?thesis by linarith
qed

lemma rne_minus: "rne (- x) = - rne x"
proof (cases "x = of_int \<lfloor>x\<rfloor>")
  case True
  then have "- x = of_int (- \<lfloor>x\<rfloor>)" by simp
  then have "rne (- x) = - \<lfloor>x\<rfloor>" by (metis rne_of_int)
  moreover from True have "rne x = \<lfloor>x\<rfloor>" by (metis rne_of_int)
  ultimately show ?thesis by simp
next
  case False
  then have "\<lceil>x\<rceil> = \<lfloor>x\<rfloor> + 1" by (simp only: ceiling_altdef if_False)
  then have "\<lfloor>- x\<rfloor> = - \<lfloor>x\<rfloor> - 1" by (simp only: floor_minus)
  then show ?thesis by (auto simp: rne_def Let_def)
qed

subsection \<open>Rounding to a double\<close>

lemma expo_minus [simp]: "expo (- x) = expo x"
  by (simp add: expo_def)

lemma fl_0 [simp]: "fl 0 = 0"
  by (simp add: fl_def)

lemma fl_minus: "fl (- x) = - fl x"
  by (simp add: fl_def rne_minus)

lemma expo_ge: "-1074 \<le> expo x"
  by (simp add: expo_def)

lemma two_powr_int: "(2::real) powr real_of_int n = 2 powi n"
  by (rule powr_real_of_int') simp_all

lemma expo_upper:
  assumes "x \<noteq> 0"
  shows "\<bar>x\<bar> < 2 powi (expo x + 53)"
proof -
  have "log 2 \<bar>x\<bar> < real_of_int (expo x + 53)"
    by (simp add: expo_def) linarith
  with assms have "\<bar>x\<bar> < 2 powr real_of_int (expo x + 53)"
    by (subst (asm) log_less_iff) auto
  then show ?thesis by (simp only: two_powr_int)
qed

lemma expo_lower:
  assumes "x \<noteq> 0" and "-1074 < expo x"
  shows "2 powi (expo x + 52) \<le> \<bar>x\<bar>"
proof -
  from assms(2) have "expo x = \<lfloor>log 2 \<bar>x\<bar>\<rfloor> - 52"
    by (auto simp: expo_def max_def split: if_splits)
  then have "real_of_int (expo x + 52) \<le> log 2 \<bar>x\<bar>" by simp
  with assms(1) have "2 powr real_of_int (expo x + 52) \<le> \<bar>x\<bar>"
    by (subst (asm) le_log_iff) auto
  then show ?thesis by (simp only: two_powr_int)
qed

lemma expo_mono:
  assumes "0 < x" and "x \<le> y"
  shows "expo x \<le> expo y"
proof -
  from assms have "log 2 x \<le> log 2 y" by simp
  then have "\<lfloor>log 2 x\<rfloor> \<le> \<lfloor>log 2 y\<rfloor>" by (rule floor_mono)
  with assms show ?thesis by (simp add: expo_def)
qed

text \<open>A value with at most 53 significant bits is a double: rounding keeps it.\<close>

lemma fl_repr:
  assumes x: "x = of_int m * 2 powi e" and m: "\<bar>m\<bar> \<le> 2 ^ 53" and e: "-1074 \<le> e"
  shows "fl x = x"
proof (cases "x = 0")
  case False
  have le: "expo x \<le> e" if "\<bar>m\<bar> < 2 ^ 53"
  proof (rule ccontr)
    assume "\<not> expo x \<le> e"
    then have gt: "e + 1 \<le> expo x" by simp
    with e have "2 powi (expo x + 52) \<le> \<bar>x\<bar>" by (intro expo_lower False) simp
    moreover have "(2::real) powi (e + 53) \<le> 2 powi (expo x + 52)"
      using gt by (intro power_int_increasing) auto
    moreover have "\<bar>x\<bar> < 2 powi (e + 53)"
      using that by (simp add: x abs_mult power_int_add mult.commute)
    ultimately show False by simp
  qed
  have "\<exists>n. x / 2 powi expo x = of_int n"
  proof (cases "\<bar>m\<bar> < 2 ^ 53")
    case True
    have "x / 2 powi expo x = of_int m * 2 powi (e - expo x)"
      by (simp add: x power_int_diff)
    also have "\<dots> = of_int (m * 2 ^ nat (e - expo x))"
      using le [OF True] by (simp add: power_int_def)
    finally show ?thesis by blast
  next
    case False
    with m have "\<bar>m\<bar> = 2 ^ 53" by simp
    then have "\<bar>real_of_int m\<bar> = 2 ^ 53" by (simp flip: of_int_abs)
    then have "\<bar>x\<bar> = 2 powi (e + 53)"
      by (simp add: x abs_mult power_int_add)
    then have "\<bar>x\<bar> = 2 powr real_of_int (e + 53)" by (simp only: two_powr_int)
    then have "log 2 \<bar>x\<bar> = real_of_int (e + 53)" by (simp only: log_powr_cancel)
    then have "expo x = max (e + 1) (-1074)" by (simp add: expo_def)
    with e have ex: "expo x = e + 1" by simp
    from m False have "m = 2 ^ 53 \<or> m = - (2 ^ 53)" by linarith
    then have "of_int m = (of_int (m div 2) * 2 :: real)" by auto
    then have "x / 2 powi (e + 1) = of_int (m div 2)"
      by (simp add: x power_int_add)
    then have "x / 2 powi expo x = of_int (m div 2)" by (simp only: ex)
    then show ?thesis by blast
  qed
  then obtain n where n: "x / 2 powi expo x = of_int n" by blast
  then have "x = of_int n * 2 powi expo x" by (simp add: field_simps)
  with n False show ?thesis by (simp add: fl_def)
qed simp

lemma fl_of_int [simp]: "\<bar>n\<bar> \<le> 2 ^ 53 \<Longrightarrow> fl (of_int n) = of_int n"
  using fl_repr [of "of_int n" n 0] by simp

lemma fl_of_nat [simp]: "n \<le> 2 ^ 53 \<Longrightarrow> fl (of_nat n) = of_nat n"
  using fl_of_int [of "int n"] by (simp flip: of_nat_power)

lemma fl_numeral [simp]: "(numeral n :: int) \<le> 2 ^ 53 \<Longrightarrow> fl (numeral n) = numeral n"
  using fl_of_int [of "numeral n"] by simp

lemma fl_1 [simp]: "fl 1 = 1"
  using fl_of_int [of 1] by simp

lemma fl_half: "fl (1 / 2) = 1 / 2"
  using fl_repr [of "1 / 2" 1 "- 1"] by simp

lemma fl_pow: "-1074 \<le> e \<Longrightarrow> fl (2 powi e) = 2 powi e"
  using fl_repr [of "2 powi e" 1 e] by simp

text \<open>Rounding is monotone.\<close>

lemma fl_mono_pos:
  assumes "0 < x" and "x \<le> y"
  shows "fl x \<le> fl y"
proof (cases "expo x = expo y")
  case True
  have "rne (x / 2 powi expo x) \<le> rne (y / 2 powi expo x)"
    using assms by (intro rne_mono divide_right_mono) auto
  then show ?thesis using assms True by (simp add: fl_def)
next
  case False
  with expo_mono [OF assms] have lt: "expo x + 1 \<le> expo y" by simp
  have up: "fl x \<le> 2 powi (expo x + 53)"
  proof -
    have "x / 2 powi expo x \<le> 2 ^ 53"
      using expo_upper [of x] assms by (simp add: field_simps power_int_add)
    then have "rne (x / 2 powi expo x) \<le> rne (of_int (2 ^ 53))"
      by (intro rne_mono) simp
    then have "real_of_int (rne (x / 2 powi expo x)) \<le> 2 ^ 53"
      by (simp only: rne_of_int) (metis of_int_le_iff of_int_numeral of_int_power)
    then show ?thesis using assms by (simp add: fl_def power_int_add mult.commute)
  qed
  have lo: "2 powi (expo y + 52) \<le> fl y"
  proof -
    have "2 powi (expo y + 52) \<le> y"
      using expo_lower [of y] assms lt expo_ge [of x] by simp
    then have "(2::real) ^ 52 \<le> y / 2 powi expo y" by (simp add: field_simps power_int_add)
    then have "rne (of_int (2 ^ 52)) \<le> rne (y / 2 powi expo y)" by (intro rne_mono) simp
    then have "2 ^ 52 \<le> real_of_int (rne (y / 2 powi expo y))"
      by (simp only: rne_of_int) (metis of_int_le_iff of_int_numeral of_int_power)
    then show ?thesis using assms by (simp add: fl_def power_int_add mult.commute)
  qed
  have "(2::real) powi (expo x + 53) \<le> 2 powi (expo y + 52)"
    using lt by (intro power_int_increasing) auto
  with up lo show ?thesis by linarith
qed

lemma fl_nonneg: "0 \<le> x \<Longrightarrow> 0 \<le> fl x"
proof -
  assume "0 \<le> x"
  then have "rne (of_int 0) \<le> rne (x / 2 powi expo x)" by (intro rne_mono) simp
  then show ?thesis by (simp only: rne_of_int) (simp add: fl_def)
qed

lemma fl_nonpos: "x \<le> 0 \<Longrightarrow> fl x \<le> 0"
  using fl_nonneg [of "- x"] by (simp add: fl_minus)

lemma fl_mono:
  assumes "x \<le> y"
  shows "fl x \<le> fl y"
proof -
  consider "0 < x" | "x \<le> 0" "0 \<le> y" | "y < 0" using assms by linarith
  then show ?thesis
  proof cases
    case 1
    then show ?thesis using assms by (rule fl_mono_pos)
  next
    case 2
    then show ?thesis using fl_nonpos [of x] fl_nonneg [of y] by linarith
  next
    case 3
    then have "fl (- y) \<le> fl (- x)" using assms by (intro fl_mono_pos) auto
    then show ?thesis by (simp add: fl_minus)
  qed
qed

lemma fl_ge_of_int: "\<bar>n\<bar> \<le> 2 ^ 53 \<Longrightarrow> of_int n \<le> x \<Longrightarrow> of_int n \<le> fl x"
  using fl_mono [of "of_int n" x] by simp

lemma fl_le_of_int: "\<bar>n\<bar> \<le> 2 ^ 53 \<Longrightarrow> x \<le> of_int n \<Longrightarrow> fl x \<le> of_int n"
  using fl_mono [of x "of_int n"] by simp

subsection \<open>Conversions\<close>

lemma double_of_u64_exact: "unat w \<le> 2 ^ 53 \<Longrightarrow> double_of_u64 w = real (unat w)"
  by (simp only: double_of_u64_def fl_of_nat)

lemma u64_of_double_Some:
  assumes "0 \<le> x" and "x < 2 ^ 64"
  shows "\<exists>w. u64_of_double x = Some w \<and> unat w = nat \<lfloor>x\<rfloor>"
proof -
  have "\<lfloor>x\<rfloor> < 2 ^ 64" using assms by (simp add: floor_less_iff)
  with assms show ?thesis
    by (simp add: u64_of_double_def Let_def unsigned_of_int take_bit_int_eq_self)
qed

lemma int_of_double_nonneg:
  assumes "0 \<le> x" and "x < 2 ^ 31"
  shows "int_of_double x = Some \<lfloor>x\<rfloor>"
proof -
  have "\<lfloor>x\<rfloor> < 2 ^ 31" using assms by (simp add: floor_less_iff)
  moreover have "0 \<le> \<lfloor>x\<rfloor>" using assms by simp
  ultimately show ?thesis using assms unfolding int_of_double_def Let_def by (simp del: zero_le_floor)
qed

subsection \<open>Rounding concrete values\<close>

lemma rne_eqI:
  assumes "of_int n - 1 / 2 < x" and "x < of_int n + 1 / 2"
  shows "rne x = n"
proof (cases "of_int n \<le> x")
  case True
  then have "\<lfloor>x\<rfloor> = n" using assms by (intro floor_unique) linarith+
  with assms show ?thesis by (simp add: rne_def Let_def)
next
  case False
  then have "\<lfloor>x\<rfloor> = n - 1" using assms by (intro floor_unique) auto
  with assms show ?thesis by (simp add: rne_def Let_def)
qed

lemma expo_eqI:
  assumes "2 powi (e + 52) \<le> x" and "x < 2 powi (e + 53)" and "-1074 \<le> e"
  shows "expo x = e"
proof -
  have x: "0 < x" using assms(1) by (rule order.strict_trans2 [rotated]) simp
  have "\<lfloor>log 2 x\<rfloor> = e + 52"
  proof (rule floor_unique)
    show "real_of_int (e + 52) \<le> log 2 x"
      using assms(1) x by (simp add: le_log_iff two_powr_int del: of_int_add)
    show "log 2 x < real_of_int (e + 52) + 1"
      using assms(2) x two_powr_int [of "e + 53"] by (simp add: log_less_iff algebra_simps)
  qed
  with x assms(3) show ?thesis by (simp add: expo_def)
qed

lemma fl_eqI:
  assumes "2 powi (e + 52) \<le> x" "x < 2 powi (e + 53)" "-1074 \<le> e"
    "of_int n - 1 / 2 < x / 2 powi e" "x / 2 powi e < of_int n + 1 / 2"
  shows "fl x = of_int n * 2 powi e"
proof -
  have "x \<noteq> 0" using assms(1) by (metis not_less zero_less_power_int zero_less_numeral)
  with expo_eqI [OF assms(1-3)] rne_eqI [OF assms(4,5)] show ?thesis by (simp add: fl_def)
qed

lemma fl_abs_le: "\<bar>fl x\<bar> \<le> fl \<bar>x\<bar>"
  by (cases "0 \<le> x") (simp_all add: fl_nonneg fl_nonpos fl_minus)

lemma rne_abs_le: "\<bar>x\<bar> \<le> of_int n \<Longrightarrow> \<bar>rne x\<bar> \<le> n"
proof -
  assume "\<bar>x\<bar> \<le> of_int n"
  then have "rne (of_int (- n)) \<le> rne x" "rne x \<le> rne (of_int n)"
    by (intro rne_mono; simp add: abs_le_iff)+
  then show "\<bar>rne x\<bar> \<le> n" by (simp only: rne_of_int)
qed

lemma fl_idem [simp]: "fl (fl x) = fl x"
proof (cases "x = 0")
  case False
  have "\<bar>x / 2 powi expo x\<bar> = \<bar>x\<bar> / 2 powi expo x" by (simp add: abs_divide)
  also have "\<dots> \<le> 2 powi (expo x + 53) / 2 powi expo x"
    using expo_upper [OF False] by (intro divide_right_mono) simp_all
  also have "\<dots> = of_int (2 ^ 53)" by (simp add: power_int_add)
  finally have "\<bar>rne (x / 2 powi expo x)\<bar> \<le> 2 ^ 53" by (rule rne_abs_le)
  moreover have "fl x = of_int (rne (x / 2 powi expo x)) * 2 powi expo x" using False by (simp add: fl_def)
  ultimately show ?thesis using fl_repr expo_ge by blast
qed simp

subsection \<open>The rounding error\<close>

lemma rne_error: "\<bar>of_int (rne x) - x\<bar> \<le> 1 / 2"
proof -
  have "of_int \<lfloor>x\<rfloor> \<le> x" "x < of_int \<lfloor>x\<rfloor> + 1" by linarith+
  then show ?thesis by (auto simp: rne_def Let_def)
qed

lemma fl_error: "\<bar>fl x - x\<bar> \<le> 2 powi expo x / 2"
proof (cases "x = 0")
  case False
  define P where "P = (2 :: real) powi expo x"
  define y where "y = x / P"
  have P: "0 < P" by (simp add: P_def)
  then have "fl x - x = (of_int (rne y) - y) * P" using False by (simp add: fl_def y_def left_diff_distrib flip: P_def)
  then have "\<bar>fl x - x\<bar> = \<bar>of_int (rne y) - y\<bar> * P" using P by (simp add: abs_mult)
  also have "\<dots> \<le> 1 / 2 * P" using P by (intro mult_right_mono rne_error) simp
  finally show ?thesis by (simp add: P_def)
qed simp

lemma fl_rel_error:
  assumes "2 powi (-1021) \<le> \<bar>x\<bar>"
  shows "\<bar>fl x - x\<bar> \<le> \<bar>x\<bar> / 2 ^ 53"
proof -
  have x: "x \<noteq> 0" using assms by (metis abs_zero not_le zero_less_power_int zero_less_numeral)
  have "-1074 < expo x"
  proof (rule ccontr)
    assume "\<not> -1074 < expo x"
    then have "expo x = -1074" using expo_ge [of x] by simp
    with expo_upper [OF x] assms show False by simp
  qed
  from expo_lower [OF x this] have "2 powi expo x * 2 ^ 52 \<le> \<bar>x\<bar>" by (simp add: power_int_add)
  with fl_error [of x] show ?thesis by simp
qed

text \<open>A deadline moved by a step \<open>d\<close> makes progress of half a step as long as it stays below \<open>2^52\<close>
  steps.\<close>

lemma fl_step:
  assumes "2 powi (-1021) \<le> d" "0 \<le> x" "x + d \<le> 2 ^ 52 * d"
  shows "x + d / 2 \<le> fl (x + d)"
proof -
  have d: "0 < d" using assms(1) by (rule order.strict_trans2 [rotated]) simp
  have "\<bar>fl (x + d) - (x + d)\<bar> \<le> \<bar>x + d\<bar> / 2 ^ 53" using assms d by (intro fl_rel_error) simp
  also have "\<dots> \<le> d / 2" using assms d by simp
  finally show ?thesis by linarith
qed

end
