(* ===== verification/Histogram.thy ===== *)
theory Histogram
  imports Ieee_Double
begin

text \<open>
  The latency histogram (\<^verbatim>\<open>histogram.hpp\<close>): 320 counters, eight per power of two, with the
  number, the sum and the maximum of the samples. The model keeps every counter at 64 bits.
  The theory relates a histogram to the list of samples added to it (\<open>hist_of\<close>) and shows
  that merging histograms is concatenating the lists, and that \<open>percentile\<close> returns the lower
  edge of the bucket that holds the sample of the requested rank.
\<close>

definition NUM_OCTAVES :: int where [const_defs]: "NUM_OCTAVES = 40"
definition SUBBUCKETS :: int where [const_defs]: "SUBBUCKETS = 8"
definition NUM_BUCKETS :: int where [const_defs]: "NUM_BUCKETS = NUM_OCTAVES * SUBBUCKETS"

record Histogram =
  h_counts :: "u64 list"
  h_total :: u64
  h_sum :: u64
  h_max :: u64

definition Histogram_init :: Histogram where
  "Histogram_init =
     \<lparr>h_counts = replicate (nat NUM_BUCKETS) 0, h_total = 0, h_sum = 0, h_max = 0\<rparr>"

text \<open>\<^verbatim>\<open>__builtin_clzll\<close>: the number of leading zero bits of a nonzero 64-bit value.\<close>

definition clzll :: "u64 \<Rightarrow> nat" where
  "clzll w = length (takeWhile (\<lambda>i. \<not> bit w i) (rev [0..<64]))"

definition bucket :: "u64 \<Rightarrow> int" where
  "bucket ns =
     (if ns < 8 then int_cast ns
      else let oct0 = 63 - int (clzll ns);
               oct = (if oct0 \<ge> NUM_OCTAVES then NUM_OCTAVES - 1 else oct0);
               base = push_bit (nat oct) (1 :: u64);
               step0 = base div 8;
               step = (if step0 = 0 then 1 else step0);
               sub0 = int_cast ((ns - base) div step);
               sub = (if sub0 \<ge> SUBBUCKETS then SUBBUCKETS - 1 else sub0)
           in oct * SUBBUCKETS + sub)"

definition bucket_lower_edge :: "int \<Rightarrow> u64" where
  "bucket_lower_edge b =
     (let oct = b div SUBBUCKETS; sub = b mod SUBBUCKETS
      in if oct = 0 then word_of_int sub
         else let base = push_bit (nat oct) (1 :: u64); step = base div 8
              in base + word_of_int sub * step)"

definition add :: "u64 \<Rightarrow> Histogram \<Rightarrow> Histogram" where
  "add ns h =
     (let b = nat (bucket ns)
      in h\<lparr>h_counts := (h_counts h)[b := h_counts h ! b + 1], h_total := h_total h + 1,
           h_sum := h_sum h + ns, h_max := (if ns > h_max h then ns else h_max h)\<rparr>)"

definition merge :: "Histogram \<Rightarrow> Histogram \<Rightarrow> Histogram" where
  "merge h other =
     h\<lparr>h_counts := map (\<lambda>i. h_counts h ! i + h_counts other ! i) [0..<nat NUM_BUCKETS],
       h_total := h_total h + h_total other, h_sum := h_sum h + h_sum other,
       h_max := max (h_max h) (h_max other)\<rparr>"

definition mean_ns :: "Histogram \<Rightarrow> real" where
  "mean_ns h = (if h_total h \<noteq> 0 then fl (double_of_u64 (h_sum h) / double_of_u64 (h_total h)) else 0)"

text \<open>The loop of \<^verbatim>\<open>percentile\<close>, over the counters from index \<open>i\<close> on.\<close>

fun percentile_loop :: "u64 list \<Rightarrow> u64 \<Rightarrow> u64 \<Rightarrow> int \<Rightarrow> u64" where
  "percentile_loop [] target accum i = bucket_lower_edge (NUM_BUCKETS - 1)"
| "percentile_loop (c # cs) target accum i =
     (if accum + c > target then bucket_lower_edge i
      else percentile_loop cs target (accum + c) (i + 1))"

definition percentile :: "Histogram \<Rightarrow> real \<Rightarrow> u64 option" where
  "percentile h p =
     (if h_total h = 0 then Some 0
      else case u64_of_double (fl (double_of_u64 (h_total h) * p)) of
             None \<Rightarrow> None
           | Some t \<Rightarrow>
               let target = (if t \<ge> h_total h then h_total h - 1 else t)
               in Some (percentile_loop (h_counts h) target 0 0))"

text \<open>The histogram of a sequence of samples.\<close>

definition hist_of :: "u64 list \<Rightarrow> Histogram" where
  "hist_of xs = fold add xs Histogram_init"

subsection \<open>The octave of a sample\<close>

lemma bit_unat: "bit (unat (w :: u64)) n \<longleftrightarrow> bit w n"
  by (simp add: bit_unsigned_iff bit_imp_le_length)

lemma leading_zeros_prefix:
  assumes "w \<noteq> 0" and "unat (w :: u64) < 2 ^ n"
  shows "length (takeWhile (\<lambda>i. \<not> bit w i) (rev [0..<n])) < n \<and>
     2 ^ (n - 1 - length (takeWhile (\<lambda>i. \<not> bit w i) (rev [0..<n]))) \<le> unat w \<and>
     unat w < 2 ^ (n - length (takeWhile (\<lambda>i. \<not> bit w i) (rev [0..<n])))"
  using assms(2)
proof (induction n)
  case 0
  with assms(1) show ?case by (simp add: unat_eq_0_iff)
next
  case (Suc n)
  have b: "bit w n \<longleftrightarrow> odd (unat w div 2 ^ n)"
    using bit_iff_odd [of "unat w" n] by (simp only: bit_unat)
  have lt: "unat w div 2 ^ n < 2"
    using Suc.prems by (simp add: less_mult_imp_div_less mult.commute)
  show ?case
  proof (cases "bit w n")
    case True
    with b lt have "unat w div 2 ^ n = 1" by (auto elim: oddE)
    then have "2 ^ n \<le> unat w"
      by (metis div_less less_numeral_extra(1) less_numeral_extra(3) not_less)
    with True Suc.prems show ?thesis by simp
  next
    case False
    with b lt have "unat w div 2 ^ n = 0" by (auto elim: evenE)
    then have "unat w < 2 ^ n" by (simp add: div_eq_0_iff)
    from Suc.IH [OF this] False show ?thesis by simp
  qed
qed

definition octave :: "u64 \<Rightarrow> nat" where
  "octave w = 63 - clzll w"

lemma octave_bounds:
  assumes "w \<noteq> 0"
  shows "2 ^ octave w \<le> unat w" "unat w < 2 ^ Suc (octave w)" "octave w < 64"
    "int (octave w) = 63 - int (clzll w)"
proof -
  have "unat w < 2 ^ 64" using unat_u64_lt [of w] by simp
  note lz = leading_zeros_prefix [OF assms this, folded clzll_def]
  from lz show "2 ^ octave w \<le> unat w" by (simp add: octave_def)
  from lz have "clzll w < 64" by blast
  then have "Suc (octave w) = 64 - clzll w" unfolding octave_def by linarith
  with lz show "unat w < 2 ^ Suc (octave w)" by simp
  show "octave w < 64" by (simp add: octave_def)
  from lz show "int (octave w) = 63 - int (clzll w)" by (simp add: octave_def)
qed

lemma pow2_interval_mono:
  fixes x y :: nat
  assumes "2 ^ a \<le> x" "y < 2 ^ Suc b" "x \<le> y"
  shows "a \<le> b"
proof -
  have "(2::nat) ^ a < 2 ^ Suc b" using assms by linarith
  then have "a < Suc b" by (simp only: power_strict_increasing_iff)
  then show ?thesis by simp
qed

lemma octave_mono:
  assumes "a \<noteq> 0" and "a \<le> b"
  shows "octave a \<le> octave b"
proof -
  have "b \<noteq> 0" using assms by auto
  from pow2_interval_mono [OF octave_bounds(1) [OF assms(1)] octave_bounds(2) [OF this]] assms(2)
  show ?thesis by (simp add: word_le_nat_alt)
qed

lemma octave_ge3:
  assumes "8 \<le> w"
  shows "3 \<le> octave w"
proof -
  from assms have "w \<noteq> 0" by auto
  with pow2_interval_mono [OF _ octave_bounds(2) [of w], of 3 8] assms show ?thesis
    by (simp add: word_le_nat_alt)
qed

subsection \<open>The bucket function over natural numbers\<close>

definition bucket_oct :: "u64 \<Rightarrow> nat" where
  "bucket_oct ns = min (octave ns) 39"

definition bucket_sub :: "u64 \<Rightarrow> nat" where
  "bucket_sub ns = min 7 ((unat ns - 2 ^ bucket_oct ns) div 2 ^ (bucket_oct ns - 3))"

lemma bucket_oct_bounds:
  assumes "8 \<le> ns"
  shows "3 \<le> bucket_oct ns" "bucket_oct ns \<le> 39" "2 ^ bucket_oct ns \<le> unat ns"
proof -
  show "3 \<le> bucket_oct ns" "bucket_oct ns \<le> 39"
    using octave_ge3 [OF assms] by (auto simp: bucket_oct_def)
  have "ns \<noteq> 0" using assms by auto
  moreover have "(2::nat) ^ bucket_oct ns \<le> 2 ^ octave ns"
    by (intro power_increasing) (auto simp: bucket_oct_def)
  ultimately show "2 ^ bucket_oct ns \<le> unat ns"
    using octave_bounds(1) [of ns] by linarith
qed

lemma bucket_small: "ns < 8 \<Longrightarrow> bucket ns = int (unat ns)"
  by (simp add: bucket_def int_cast_small word_less_nat_alt)

lemma bucket_large:
  assumes "8 \<le> ns"
  shows "bucket ns = int (8 * bucket_oct ns + bucket_sub ns)"
proof -
  note ob = bucket_oct_bounds [OF assms]
  let ?o = "bucket_oct ns"
  let ?base = "push_bit ?o 1 :: u64"
  let ?q = "(ns - ?base) div (?base div 8)"
  have nz: "ns \<noteq> 0" using assms by auto
  have oct: "(if 63 - int (clzll ns) \<ge> NUM_OCTAVES then NUM_OCTAVES - 1 else 63 - int (clzll ns))
      = int ?o"
    using octave_bounds(4) [OF nz] by (auto simp: bucket_oct_def const_defs)
  have base: "unat ?base = 2 ^ ?o" using ob by (intro unat_push_bit_1) simp
  have "(2::nat) ^ ?o div 8 = 2 ^ (?o - 3)" using ob(1) by (simp add: power_diff)
  then have step: "unat (?base div 8) = 2 ^ (?o - 3)"
    by (simp only: unat_div base) simp
  then have step_nz: "?base div 8 \<noteq> 0"
    by (metis power_not_zero unat_0 zero_neq_numeral)
  have "?base \<le> ns" using ob by (simp only: word_le_nat_alt base)
  then have "unat (ns - ?base) = unat ns - 2 ^ ?o" by (simp only: unat_diff_u64 base)
  then have q: "unat ?q = (unat ns - 2 ^ ?o) div 2 ^ (?o - 3)"
    by (subst unat_div) (simp only: step)
  have "unat ?q < 2147483648"
  proof (cases "octave ns \<le> 39")
    case True
    then have "?o = octave ns" by (simp add: bucket_oct_def)
    then have "unat ns - 2 ^ ?o < 8 * 2 ^ (?o - 3)"
      using octave_bounds(2) [OF nz] ob(1) power_add [of "2::nat" 3 "?o - 3"] by simp
    then have "unat ?q < 8" by (simp only: q less_mult_imp_div_less)
    then show ?thesis by simp
  next
    case False
    then have "?o = 39" by (simp add: bucket_oct_def)
    then have "(unat ns - 2 ^ ?o) div 2 ^ (?o - 3) < 2147483648"
      using unat_u64_lt [of ns] by (simp add: less_mult_imp_div_less)
    then show ?thesis by (simp only: q)
  qed
  then have "int_cast ?q = int ((unat ns - 2 ^ ?o) div 2 ^ (?o - 3))"
    by (simp only: int_cast_small q)
  moreover have "\<not> ns < 8" using assms by (simp add: not_less)
  moreover have "(2::u64) ^ ?o div 8 \<noteq> 0" using step_nz by simp
  ultimately show ?thesis
    by (simp add: bucket_def Let_def oct bucket_sub_def min_def) (simp add: const_defs)
qed

lemma bucket_sub_le: "bucket_sub ns \<le> 7"
  by (simp add: bucket_sub_def)

lemma bucket_nonneg: "0 \<le> bucket ns"
  by (cases "ns < 8") (simp_all add: bucket_small bucket_large not_less)

lemma bucket_lt: "bucket ns < 320"
proof (cases "ns < 8")
  case True
  then show ?thesis by (simp add: bucket_small word_less_nat_alt)
next
  case False
  then have "8 \<le> ns" by simp
  with bucket_oct_bounds [of ns] bucket_sub_le [of ns] show ?thesis by (simp add: bucket_large)
qed

lemma bucket_mono:
  assumes "a \<le> b"
  shows "bucket a \<le> bucket b"
proof (cases "a < 8")
  case True
  show ?thesis
  proof (cases "b < 8")
    case True
    with assms \<open>a < 8\<close> show ?thesis by (simp add: bucket_small word_le_nat_alt)
  next
    case False
    then have "8 \<le> b" by simp
    with True bucket_oct_bounds(1) [of b] show ?thesis
      by (simp add: bucket_small bucket_large word_less_nat_alt)
  qed
next
  case False
  then have a8: "8 \<le> a" and b8: "8 \<le> b" using assms by auto
  from a8 have "a \<noteq> 0" by auto
  then have le: "bucket_oct a \<le> bucket_oct b"
    using octave_mono [OF _ assms] by (auto simp: bucket_oct_def)
  have "8 * bucket_oct a + bucket_sub a \<le> 8 * bucket_oct b + bucket_sub b"
  proof (cases "bucket_oct a = bucket_oct b")
    case True
    have "bucket_sub a \<le> bucket_sub b"
      unfolding bucket_sub_def True
      using assms by (intro min.mono div_le_mono diff_le_mono) (auto simp: word_le_nat_alt)
    with True show ?thesis by simp
  next
    case False
    with le bucket_sub_le [of a] show ?thesis by simp
  qed
  then show ?thesis using a8 b8 by (simp add: bucket_large)
qed

subsection \<open>Lower edges\<close>

lemma edge_small: "b < 8 \<Longrightarrow> bucket_lower_edge (int b) = of_nat b"
  by (simp add: bucket_lower_edge_def Let_def SUBBUCKETS_def)

lemma unat_edge_large:
  assumes "3 \<le> k" "k \<le> 39" "s \<le> 7"
  shows "unat (bucket_lower_edge (int (8 * k + s))) = 2 ^ k + s * 2 ^ (k - 3)"
proof -
  let ?base = "push_bit k 1 :: u64"
  have dm: "int (8 * k + s) div SUBBUCKETS = int k" "int (8 * k + s) mod SUBBUCKETS = int s"
    using assms by (simp_all add: SUBBUCKETS_def)
  have base: "unat ?base = 2 ^ k" using assms by (intro unat_push_bit_1) simp
  have "(2::nat) ^ k div 8 = 2 ^ (k - 3)" using assms by (simp add: power_diff)
  then have step: "unat (?base div 8) = 2 ^ (k - 3)" by (simp only: unat_div base) simp
  have "(2::nat) ^ k \<le> 2 ^ 39" "(2::nat) ^ (k - 3) \<le> 2 ^ 36"
    using assms by (intro power_increasing; simp)+
  moreover from this(2) assms(3) have "s * 2 ^ (k - 3) \<le> 7 * 2 ^ 36" by (intro mult_le_mono)
  ultimately have m: "unat (of_nat s * (?base div 8)) = s * 2 ^ (k - 3)"
    and small: "unat ?base + s * 2 ^ (k - 3) < 18446744073709551616"
    using assms(3) unat_of_nat_u64 [of s] unat_mult_u64 [of "of_nat s" "?base div 8"]
    by (simp_all add: step base del: push_bit_of_1)
  have "bucket_lower_edge (int (8 * k + s)) = ?base + of_nat s * (?base div 8)"
    using assms by (simp only: bucket_lower_edge_def dm Let_def) simp
  then show ?thesis using small by (simp only: unat_add_u64 m base)
qed

lemma bucket_edge_le: "bucket_lower_edge (bucket ns) \<le> ns"
proof (cases "ns < 8")
  case True
  then show ?thesis by (simp add: bucket_small edge_small word_less_nat_alt)
next
  case False
  then have "8 \<le> ns" by simp
  note ob = bucket_oct_bounds [OF this]
  have "bucket_sub ns * 2 ^ (bucket_oct ns - 3) \<le> unat ns - 2 ^ bucket_oct ns"
    unfolding bucket_sub_def by (rule order_trans [OF mult_le_mono1 [OF min.cobounded2]]) simp
  then show ?thesis
    using ob unat_edge_large [OF ob(1,2) bucket_sub_le [of ns]] \<open>8 \<le> ns\<close>
    by (simp add: word_le_nat_alt bucket_large)
qed

lemma bucket_edge_close:
  assumes "unat ns < 2 ^ 40"
  shows "8 * (unat ns - unat (bucket_lower_edge (bucket ns))) \<le> unat ns"
proof (cases "ns < 8")
  case True
  then show ?thesis by (simp add: bucket_small edge_small word_less_nat_alt)
next
  case False
  then have ge8: "8 \<le> ns" by simp
  then have nz: "ns \<noteq> 0" by auto
  note ob = bucket_oct_bounds [OF ge8]
  let ?o = "bucket_oct ns"
  have "octave ns \<le> 39"
    using pow2_interval_mono [OF octave_bounds(1) [OF nz], of "unat ns" 39] assms by simp
  then have o: "?o = octave ns" by (simp add: bucket_oct_def)
  have p: "2 ^ ?o = 8 * (2::nat) ^ (?o - 3)"
    using ob(1) power_add [of "2::nat" 3 "?o - 3"] by simp
  have "unat ns - 2 ^ ?o < 8 * 2 ^ (?o - 3)"
    using octave_bounds(2) [OF nz] p by (simp add: o)
  then have "(unat ns - 2 ^ ?o) div 2 ^ (?o - 3) < 8" by (simp only: less_mult_imp_div_less)
  then have sub: "bucket_sub ns = (unat ns - 2 ^ ?o) div 2 ^ (?o - 3)"
    by (simp add: bucket_sub_def)
  have "unat ns - 2 ^ ?o < bucket_sub ns * 2 ^ (?o - 3) + 2 ^ (?o - 3)"
    unfolding sub using dividend_less_div_times [of "2 ^ (?o - 3)"] by (simp add: add.commute)
  then have "unat ns - (2 ^ ?o + bucket_sub ns * 2 ^ (?o - 3)) < 2 ^ (?o - 3)"
    using zero_less_power [of "2::nat" "?o - 3"] by linarith
  then show ?thesis
    using ob p unat_edge_large [OF ob(1,2) bucket_sub_le [of ns]]
    by (simp add: bucket_large [OF ge8])
qed

subsection \<open>The histogram of a list of samples\<close>

lemma length_counts_init [simp]: "length (h_counts Histogram_init) = 320"
  by (simp add: Histogram_init_def const_defs)

lemma add_sel [simp]:
  "h_counts (add x h) = (h_counts h)[nat (bucket x) := h_counts h ! nat (bucket x) + 1]"
  "h_total (add x h) = h_total h + 1" "h_sum (add x h) = h_sum h + x"
  "h_max (add x h) = max (h_max h) x"
  by (auto simp: add_def Let_def max_def)

lemma hist_of_snoc [simp]: "hist_of (xs @ [x]) = add x (hist_of xs)"
  by (simp add: hist_of_def)

lemma hist_of_Nil [simp]: "hist_of [] = Histogram_init"
  by (simp add: hist_of_def)

definition in_bucket :: "nat \<Rightarrow> u64 list \<Rightarrow> nat" where
  "in_bucket i xs = length (filter (\<lambda>x. nat (bucket x) = i) xs)"

lemma in_bucket_snoc [simp]:
  "in_bucket i (xs @ [x]) = in_bucket i xs + (if nat (bucket x) = i then 1 else 0)"
  by (simp add: in_bucket_def)

lemma in_bucket_append: "in_bucket i (xs @ ys) = in_bucket i xs + in_bucket i ys"
  by (simp add: in_bucket_def)

lemma hist_of_counts: "h_counts (hist_of xs) = map (\<lambda>i. of_nat (in_bucket i xs)) [0..<320]"
proof (induction xs rule: rev_induct)
  case Nil
  show ?case
    by (intro nth_equalityI) (simp_all add: Histogram_init_def const_defs in_bucket_def)
next
  case (snoc x xs)
  have "nat (bucket x) < 320" using bucket_lt [of x] by simp
  with snoc.IH show ?case
    by (intro nth_equalityI) (auto simp: nth_list_update)
qed

lemma hist_of_total: "h_total (hist_of xs) = of_nat (length xs)"
  by (induction xs rule: rev_induct) (simp_all add: Histogram_init_def)

lemma hist_of_sum: "h_sum (hist_of xs) = sum_list xs"
  by (induction xs rule: rev_induct) (simp_all add: Histogram_init_def)

lemma hist_of_max: "h_max (hist_of xs) = Max (insert 0 (set xs))"
  by (induction xs rule: rev_induct) (simp_all add: Histogram_init_def max.commute insert_commute)

lemma hist_eqI:
  fixes h k :: Histogram
  assumes "h_counts h = h_counts k" "h_total h = h_total k" "h_sum h = h_sum k"
    "h_max h = h_max k"
  shows "h = k"
  using assms by simp

subsection \<open>Percentiles\<close>

definition at_most :: "nat \<Rightarrow> u64 list \<Rightarrow> nat" where
  "at_most i xs = length (filter (\<lambda>x. nat (bucket x) \<le> i) xs)"

lemma at_most_Suc: "at_most (Suc i) xs = at_most i xs + in_bucket (Suc i) xs"
  by (induction xs) (auto simp: at_most_def in_bucket_def)

lemma at_most_0: "at_most 0 xs = in_bucket 0 xs"
  by (simp add: at_most_def in_bucket_def)

lemma at_most_le: "at_most i xs \<le> length xs"
  by (simp add: at_most_def)

lemma filter_mono_prefix:
  assumes "sorted ys" and mono: "\<And>a b. a \<le> b \<Longrightarrow> P b \<Longrightarrow> P a" and "t < length ys"
  shows "t < length (filter P ys) \<longleftrightarrow> P (ys ! t)"
  using assms(1,3)
proof (induction ys arbitrary: t)
  case (Cons y ys)
  show ?case
  proof (cases "P y")
    case True
    with Cons show ?thesis by (cases t) auto
  next
    case False
    with Cons.prems mono have "\<forall>z\<in>set (y # ys). \<not> P z" by auto
    then have "filter P (y # ys) = []" by simp
    moreover have "\<not> P ((y # ys) ! t)"
      using \<open>\<forall>z\<in>set (y # ys). \<not> P z\<close> Cons.prems(2) nth_mem by blast
    ultimately show ?thesis by simp
  qed
qed simp

lemma less_at_most_iff:
  assumes "t < length xs"
  shows "t < at_most i xs \<longleftrightarrow> nat (bucket (sort xs ! t)) \<le> i"
proof -
  have "at_most i xs = length (filter (\<lambda>x. nat (bucket x) \<le> i) (sort xs))"
    by (simp add: at_most_def filter_sort)
  then show ?thesis
    using assms filter_mono_prefix [of "sort xs" "\<lambda>x. nat (bucket x) \<le> i" t]
    by (simp add: order_trans [OF nat_mono [OF bucket_mono]])
qed

text \<open>The loop, entered at index \<open>i\<close> with the number of samples below bucket \<open>i\<close>.\<close>

lemma percentile_loop_eq:
  assumes "t < length xs" "length xs < 2 ^ 64" "i \<le> nat (bucket (sort xs ! t))"
  shows "percentile_loop (map (\<lambda>j. of_nat (in_bucket j xs)) [i..<320]) (of_nat t)
           (of_nat (case i of 0 \<Rightarrow> 0 | Suc k \<Rightarrow> at_most k xs)) (int i)
         = bucket_lower_edge (bucket (sort xs ! t))"
  using assms(3)
proof (induction "320 - i" arbitrary: i)
  case 0
  then show ?case using bucket_lt [of "sort xs ! t"] by simp
next
  case (Suc d)
  have i: "i < 320" using Suc.hyps(2) by simp
  have acc: "of_nat (case i of 0 \<Rightarrow> 0 | Suc k \<Rightarrow> at_most k xs) + of_nat (in_bucket i xs)
      = (of_nat (at_most i xs) :: u64)"
    by (cases i) (simp_all add: at_most_0 at_most_Suc)
  have gt: "of_nat (at_most i xs) > (of_nat t :: u64) \<longleftrightarrow> t < at_most i xs"
    using assms at_most_le [of i xs] by (simp add: word_less_nat_alt unat_of_nat_u64)
  show ?case
  proof (cases "nat (bucket (sort xs ! t)) \<le> i")
    case True
    with Suc.prems have "int i = bucket (sort xs ! t)" using bucket_nonneg by simp
    with True show ?thesis
      using less_at_most_iff [OF assms(1)] gt
      by (simp add: upt_conv_Cons [OF i] acc)
  next
    case False
    then have "\<not> t < at_most i xs" using less_at_most_iff [OF assms(1)] by blast
    moreover have "percentile_loop (map (\<lambda>j. of_nat (in_bucket j xs)) [Suc i..<320]) (of_nat t)
        (of_nat (at_most i xs)) (int i + 1) = bucket_lower_edge (bucket (sort xs ! t))"
      using Suc.hyps(1) [of "Suc i"] Suc.hyps(2) False by (simp add: add.commute)
    ultimately show ?thesis
      using gt by (simp add: upt_conv_Cons [OF i] acc)
  qed
qed

text \<open>The rank the code asks for among \<open>n\<close> samples at level \<open>p\<close>.\<close>

definition rank :: "nat \<Rightarrow> real \<Rightarrow> nat" where
  "rank n p = min (nat \<lfloor>fl (real n * p)\<rfloor>) (n - 1)"

lemma rank_less: "0 < n \<Longrightarrow> rank n p < n"
  by (simp add: rank_def min_less_iff_disj)

lemma percentile_rank:
  assumes "xs \<noteq> []" "length xs \<le> 2 ^ 53" "0 \<le> p" "p \<le> 1"
  shows "percentile (hist_of xs) p =
    Some (bucket_lower_edge (bucket (sort xs ! rank (length xs) p)))"
proof -
  let ?n = "length xs"
  have tot: "unat (h_total (hist_of xs)) = ?n"
    using assms by (simp add: hist_of_total unat_of_nat_u64)
  then have nz: "h_total (hist_of xs) \<noteq> 0" using assms(1) by (auto simp flip: unat_eq_0_iff)
  have d: "double_of_u64 (h_total (hist_of xs)) = real ?n"
    using assms(2) tot double_of_u64_exact by simp
  have "fl (real ?n * p) \<le> of_int (int ?n)"
    using assms by (intro fl_le_of_int) (auto simp: mult_left_le simp flip: of_nat_power)
  then have "fl (real ?n * p) \<le> real ?n" by simp
  moreover have "real ?n \<le> 2 ^ 53" using assms(2) by (simp flip: of_nat_power)
  moreover have "0 \<le> fl (real ?n * p)" using assms by (intro fl_nonneg) simp
  ultimately obtain t where t: "u64_of_double (fl (real ?n * p)) = Some t"
      "unat t = nat \<lfloor>fl (real ?n * p)\<rfloor>"
    using u64_of_double_Some [of "fl (real ?n * p)"] by auto
  define target where
    "target = (if t \<ge> h_total (hist_of xs) then h_total (hist_of xs) - 1 else t)"
  have "unat target = min (unat t) (?n - 1)"
    using nz assms(1) by (cases "?n \<le> unat t")
      (auto simp: target_def word_le_nat_alt tot unat_minus_one min_def Suc_le_eq)
  then have "unat target = rank ?n p" by (simp only: t(2) rank_def)
  then have target: "target = of_nat (rank ?n p)" by (metis of_nat_unat_u64)
  have "percentile (hist_of xs) p = Some (percentile_loop (h_counts (hist_of xs)) target 0 0)"
    using nz by (simp add: percentile_def d t(1) target_def Let_def)
  also have "percentile_loop (h_counts (hist_of xs)) target 0 0
      = bucket_lower_edge (bucket (sort xs ! rank ?n p))"
    using percentile_loop_eq [of "rank ?n p" xs 0] assms rank_less [of ?n p]
    by (simp add: hist_of_counts target)
  finally show ?thesis .
qed

subsection \<open>Buckets and their edges\<close>

lemma bucket_edge_large:
  assumes "3 \<le> k" "k \<le> 39" "s \<le> 7"
  shows "bucket (bucket_lower_edge (int (8 * k + s))) = int (8 * k + s)"
proof -
  let ?e = "bucket_lower_edge (int (8 * k + s))"
  have ue: "unat ?e = 2 ^ k + s * 2 ^ (k - 3)" by (rule unat_edge_large [OF assms])
  have k8: "(2::nat) ^ k = 8 * 2 ^ (k - 3)"
    using assms(1) power_add [of "2::nat" 3 "k - 3"] by simp
  have "(2::nat) ^ 3 \<le> 2 ^ k" using assms(1) by (intro power_increasing) simp_all
  then have ge8: "8 \<le> ?e" using ue by (simp add: word_le_nat_alt)
  have "s * 2 ^ (k - 3) \<le> 7 * 2 ^ (k - 3)" using assms(3) by simp
  then have hi: "unat ?e < 2 ^ Suc k" unfolding ue by (simp add: k8)
  have oct: "octave ?e = k"
  proof (rule antisym)
    have "?e \<noteq> 0" using ge8 by auto
    show "octave ?e \<le> k"
      by (rule pow2_interval_mono [OF octave_bounds(1) [OF \<open>?e \<noteq> 0\<close>] hi]) simp
    show "k \<le> octave ?e"
      by (rule pow2_interval_mono [OF _ octave_bounds(2) [OF \<open>?e \<noteq> 0\<close>], of k "unat ?e"]) (simp_all only: ue le_add1 order_refl)
  qed
  have bo: "bucket_oct ?e = k" using oct assms by (simp add: bucket_oct_def)
  have "bucket_sub ?e = s" using assms(3) unfolding bucket_sub_def bo ue by simp
  with bo show ?thesis by (simp only: bucket_large [OF ge8])
qed

definition used_bucket :: "int \<Rightarrow> bool" where
  "used_bucket b \<longleftrightarrow> 0 \<le> b \<and> b < NUM_BUCKETS \<and> (b < SUBBUCKETS \<or> 3 * SUBBUCKETS \<le> b)"

definition next_bucket :: "int \<Rightarrow> int" where
  "next_bucket b = (if b = SUBBUCKETS - 1 then 3 * SUBBUCKETS else b + 1)"

lemma bucket_of_edge:
  assumes "used_bucket b"
  shows "bucket (bucket_lower_edge b) = b"
proof (cases "b < 8")
  case True
  then obtain n where "b = int n" "n < 8"
    using assms by (auto simp: used_bucket_def intro: that [of "nat b"])
  then show ?thesis
    by (simp add: edge_small bucket_small word_less_nat_alt unat_of_nat_u64)
next
  case False
  define n where "n = nat b"
  have "b = int (8 * (n div 8) + n mod 8)" "3 \<le> n div 8" "n div 8 \<le> 39" "n mod 8 \<le> 7"
    using assms False by (auto simp: used_bucket_def n_def const_defs)
  then show ?thesis using bucket_edge_large [of "n div 8" "n mod 8"] by simp
qed

lemma used_bucket_bucket: "used_bucket (bucket ns)"
proof (cases "ns < 8")
  case True
  then show ?thesis by (simp add: used_bucket_def bucket_small const_defs word_less_nat_alt)
next
  case False
  then have "8 \<le> ns" by simp
  with bucket_oct_bounds [OF this] bucket_sub_le [of ns] show ?thesis
    by (simp add: used_bucket_def bucket_large const_defs)
qed

lemma used_next_bucket: "used_bucket b \<Longrightarrow> b \<noteq> NUM_BUCKETS - 1 \<Longrightarrow> used_bucket (next_bucket b)"
  by (auto simp: used_bucket_def next_bucket_def const_defs)

lemma used_bucket_gap: "used_bucket b \<Longrightarrow> used_bucket c \<Longrightarrow> b < c \<longleftrightarrow> next_bucket b \<le> c"
  by (auto simp: used_bucket_def next_bucket_def const_defs)

lemma edge_le_iff:
  assumes "used_bucket c"
  shows "bucket_lower_edge c \<le> ns \<longleftrightarrow> c \<le> bucket ns"
proof
  assume "bucket_lower_edge c \<le> ns"
  from bucket_mono [OF this] show "c \<le> bucket ns" by (simp add: bucket_of_edge assms)
next
  assume le: "c \<le> bucket ns"
  show "bucket_lower_edge c \<le> ns"
  proof (cases "c = bucket ns")
    case True
    then show ?thesis by (simp add: bucket_edge_le)
  next
    case False
    with le have "\<not> bucket (bucket_lower_edge c) \<ge> bucket ns" by (simp add: bucket_of_edge assms)
    with bucket_mono [of ns "bucket_lower_edge c"] show ?thesis by fastforce
  qed
qed

text \<open>Every 64-bit sample falls into exactly one bucket, an index inside the array of counters:
  bucket \<open>b\<close> holds the samples from its own lower edge up to the lower edge of the next bucket in
  use (the buckets 8 to 23 hold none), and the last bucket holds everything above its edge.\<close>

theorem bucket_interval:
  "0 \<le> bucket ns \<and> bucket ns < NUM_BUCKETS \<and>
   (used_bucket b \<longrightarrow>
     (bucket ns = b \<longleftrightarrow>
        bucket_lower_edge b \<le> ns \<and> (b = NUM_BUCKETS - 1 \<or> ns < bucket_lower_edge (next_bucket b))))"
proof (intro conjI impI)
  show "0 \<le> bucket ns" by (rule bucket_nonneg)
  show lt: "bucket ns < NUM_BUCKETS" using bucket_lt [of ns] by (simp add: const_defs)
  assume b: "used_bucket b"
  show "bucket ns = b \<longleftrightarrow>
      bucket_lower_edge b \<le> ns \<and> (b = NUM_BUCKETS - 1 \<or> ns < bucket_lower_edge (next_bucket b))"
  proof (cases "b = NUM_BUCKETS - 1")
    case True
    with lt edge_le_iff [OF b, of ns] show ?thesis by auto
  next
    case False
    then have "ns < bucket_lower_edge (next_bucket b) \<longleftrightarrow> \<not> b < bucket ns"
      using edge_le_iff [OF used_next_bucket [OF b False], of ns]
        used_bucket_gap [OF b used_bucket_bucket [of ns]] by (simp add: not_le [symmetric])
    with False show ?thesis by (auto simp: edge_le_iff [OF b])
  qed
qed

theorem bucket_interval_witness:
  "bucket (bucket_lower_edge 319) = 319 \<and> bucket 7 = 7"
  using bucket_interval [of "bucket_lower_edge 319" 319] bucket_interval [of 7 7]
  by (simp add: used_bucket_def next_bucket_def const_defs bucket_lower_edge_def)

lemma merge_append: "merge (hist_of xs) (hist_of ys) = hist_of (xs @ ys)"
proof (rule hist_eqI)
  show "h_counts (merge (hist_of xs) (hist_of ys)) = h_counts (hist_of (xs @ ys))"
    by (intro nth_equalityI)
      (simp_all add: merge_def hist_of_counts in_bucket_append const_defs)
  have "Max (insert 0 (set xs \<union> set ys)) = max (Max (insert 0 (set xs))) (Max (insert 0 (set ys)))"
    using Max_Un [of "insert 0 (set xs)" "insert 0 (set ys)"] by simp
  then show "h_max (merge (hist_of xs) (hist_of ys)) = h_max (hist_of (xs @ ys))"
    by (simp add: merge_def hist_of_max)
qed (simp_all add: merge_def hist_of_total hist_of_sum)

lemma merge_all: "foldl merge (hist_of ys) (map hist_of xss) = hist_of (ys @ concat xss)"
  by (induction xss arbitrary: ys) (simp_all add: merge_append)

text \<open>C19. Merging the histograms that several threads have filled, starting from an empty one, gives
  the histogram of all their samples, with the 64-bit wrap-around of every counter included: the
  merge loses nothing and counts nothing twice.\<close>

theorem merge_hist_of: "foldl merge Histogram_init (map hist_of xss) = hist_of (concat xss)"
  using merge_all [of "[]" xss] by simp

text \<open>C18. For a non-empty list of at most \<open>2^53\<close> samples and a level between 0 and 1, \<open>percentile\<close>
  returns a lower bound of the sample whose rank is the level times the number of samples (rounded
  as the code rounds it), and the bound is within 12.5 per cent of that sample as long as the
  sample is below \<open>2^40\<close> ns.\<close>

theorem percentile_accurate:
  assumes "xs \<noteq> []" "length xs \<le> 2 ^ 53" "0 \<le> p" "p \<le> 1"
  shows "\<exists>e. percentile (hist_of xs) p = Some e \<and> e \<le> sort xs ! rank (length xs) p \<and>
    (unat (sort xs ! rank (length xs) p) < 2 ^ 40 \<longrightarrow>
      8 * (unat (sort xs ! rank (length xs) p) - unat e) \<le> unat (sort xs ! rank (length xs) p))"
  using percentile_rank [OF assms] bucket_edge_le bucket_edge_close by blast

lemma rank_one: "n \<le> 2 ^ 53 \<Longrightarrow> rank n 1 = n - 1"
  by (simp add: rank_def fl_of_nat)

theorem percentile_accurate_witness:
  "\<exists>e. percentile (hist_of [5, 1000, 100]) 1 = Some e \<and> e \<le> 1000 \<and> 8 * (1000 - unat e) \<le> 1000"
  using percentile_accurate [of "[5, 1000, 100]" 1] rank_one [of "Suc (Suc (Suc 0))"] by simp

end
