(* ===== verification/MPMC_Queue.thy ===== *)
theory MPMC_Queue
  imports Prelude
begin

text \<open>
  The bounded lock-free queue (\<^verbatim>\<open>mpmc_queue.hpp\<close>). Any number of threads run
  \<^verbatim>\<open>try_enqueue\<close> and \<^verbatim>\<open>try_dequeue\<close>; each access to shared memory (an atomic load, a
  compare-exchange, the plain access to \<^verbatim>\<open>cell->value\<close>, the releasing store of \<^verbatim>\<open>seq\<close>)
  is one step of \<open>thread_step\<close>, and the steps of different threads interleave in any order
  (\<open>mpmc_step\<close>). A thread's program counter carries its local variables. The weak
  compare-exchange may fail spuriously. Memory is sequentially consistent: the acquire/release
  pairs on \<^verbatim>\<open>seq\<close> order the only plain accesses, and the theory proves that those never race.

  The ghost fields \<open>enq_log\<close> and \<open>deq_log\<close> record, in ticket order, the values whose
  enqueue won its compare-exchange, and the (ticket, value) pairs read out.
\<close>

record 'a Cell =
  seq :: u64
  val :: 'a

record 'a MPMCQueue =
  buffer :: "'a Cell list"
  capacity :: u64
  qmask :: u64
  enq_pos :: u64
  deq_pos :: u64

text \<open>The constructor; \<open>None\<close> is the failed assertion, \<open>dflt\<close> the value of \<^verbatim>\<open>T()\<close>.\<close>

definition MPMCQueue_new :: "'a \<Rightarrow> u64 \<Rightarrow> 'a MPMCQueue option" where
  "MPMCQueue_new dflt cap =
     (if cap AND (cap - 1) \<noteq> 0 then None
      else Some \<lparr>buffer = map (\<lambda>i. \<lparr>seq = of_nat i, val = dflt\<rparr>) [0..<unat cap],
                 capacity = cap, qmask = cap - 1, enq_pos = 0, deq_pos = 0\<rparr>)"

datatype 'a pc =
    Ready
  | EnqLoad 'a        \<comment> \<open>about to load \<open>enq_pos_\<close>\<close>
  | EnqSeq 'a u64     \<comment> \<open>about to load the cell's \<open>seq\<close> and compare\<close>
  | EnqCas 'a u64     \<comment> \<open>about to advance \<open>enq_pos_\<close>\<close>
  | EnqWrite 'a u64   \<comment> \<open>about to write the value\<close>
  | EnqStore 'a u64   \<comment> \<open>about to publish the cell\<close>
  | EnqRet bool
  | DeqLoad
  | DeqSeq u64
  | DeqCas u64
  | DeqRead u64
  | DeqStore u64 'a
  | DeqRet "'a option"

definition cell_ix :: "'a MPMCQueue \<Rightarrow> u64 \<Rightarrow> nat" where
  "cell_ix q pos = unat (pos AND qmask q)"

definition cell_at :: "'a MPMCQueue \<Rightarrow> u64 \<Rightarrow> 'a Cell" where
  "cell_at q pos = buffer q ! cell_ix q pos"

definition set_cell :: "'a MPMCQueue \<Rightarrow> u64 \<Rightarrow> ('a Cell \<Rightarrow> 'a Cell) \<Rightarrow> 'a MPMCQueue" where
  "set_cell q pos f = q\<lparr>buffer := (buffer q)[cell_ix q pos := f (cell_at q pos)]\<rparr>"

text \<open>
  One step of one thread. \<open>spurious\<close> says whether \<^verbatim>\<open>compare_exchange_weak\<close> fails although
  the values agree; a failed exchange reloads the position.
\<close>

fun thread_step :: "bool \<Rightarrow> 'a MPMCQueue \<Rightarrow> 'a pc \<Rightarrow> ('a MPMCQueue \<times> 'a pc) option" where
  "thread_step spurious q (EnqLoad v) = Some (q, EnqSeq v (enq_pos q))"
| "thread_step spurious q (EnqSeq v pos) =
     (let diff = sint (seq (cell_at q pos) - pos)
      in if diff = 0 then Some (q, EnqCas v pos)
         else if diff < 0 then Some (q, EnqRet False)
         else Some (q, EnqLoad v))"
| "thread_step spurious q (EnqCas v pos) =
     (if enq_pos q = pos \<and> \<not> spurious then Some (q\<lparr>enq_pos := pos + 1\<rparr>, EnqWrite v pos)
      else Some (q, EnqSeq v (enq_pos q)))"
| "thread_step spurious q (EnqWrite v pos) =
     Some (set_cell q pos (\<lambda>c. c\<lparr>val := v\<rparr>), EnqStore v pos)"
| "thread_step spurious q (EnqStore v pos) =
     Some (set_cell q pos (\<lambda>c. c\<lparr>seq := pos + 1\<rparr>), EnqRet True)"
| "thread_step spurious q DeqLoad = Some (q, DeqSeq (deq_pos q))"
| "thread_step spurious q (DeqSeq pos) =
     (let diff = sint (seq (cell_at q pos) - (pos + 1))
      in if diff = 0 then Some (q, DeqCas pos)
         else if diff < 0 then Some (q, DeqRet None)
         else Some (q, DeqLoad))"
| "thread_step spurious q (DeqCas pos) =
     (if deq_pos q = pos \<and> \<not> spurious then Some (q\<lparr>deq_pos := pos + 1\<rparr>, DeqRead pos)
      else Some (q, DeqSeq (deq_pos q)))"
| "thread_step spurious q (DeqRead pos) = Some (q, DeqStore pos (val (cell_at q pos)))"
| "thread_step spurious q (DeqStore pos x) =
     Some (set_cell q pos (\<lambda>c. c\<lparr>seq := pos + capacity q\<rparr>), DeqRet (Some x))"
| "thread_step spurious q Ready = None"
| "thread_step spurious q (EnqRet b) = None"
| "thread_step spurious q (DeqRet r) = None"

definition approx_size :: "'a MPMCQueue \<Rightarrow> u64" where
  "approx_size q = (let e = enq_pos q; d = deq_pos q in if e \<ge> d then e - d else 0)"

text \<open>A call that runs without interference: its thread's steps, one after the other.\<close>

fun run_op :: "nat \<Rightarrow> 'a MPMCQueue \<times> 'a pc \<Rightarrow> ('a MPMCQueue \<times> 'a pc) option" where
  "run_op 0 (q, c) = (case thread_step False q c of None \<Rightarrow> Some (q, c) | Some _ \<Rightarrow> None)"
| "run_op (Suc n) (q, c) =
     (case thread_step False q c of None \<Rightarrow> Some (q, c) | Some qc \<Rightarrow> run_op n qc)"

definition try_enqueue :: "'a \<Rightarrow> 'a MPMCQueue \<Rightarrow> ('a MPMCQueue \<times> bool) option" where
  "try_enqueue v q =
     (case run_op 5 (q, EnqLoad v) of Some (q', EnqRet b) \<Rightarrow> Some (q', b) | _ \<Rightarrow> None)"

definition try_dequeue :: "'a MPMCQueue \<Rightarrow> ('a MPMCQueue \<times> 'a option) option" where
  "try_dequeue q =
     (case run_op 5 (q, DeqLoad) of Some (q', DeqRet r) \<Rightarrow> Some (q', r) | _ \<Rightarrow> None)"

subsection \<open>The threads together\<close>

record 'a sys =
  queue :: "'a MPMCQueue"
  pcs :: "nat \<Rightarrow> 'a pc"
  enq_log :: "'a list"
  deq_log :: "(nat \<times> 'a) list"

fun logged_enq :: "'a pc \<Rightarrow> 'a pc \<Rightarrow> 'a list" where
  "logged_enq (EnqCas v p) (EnqWrite w p') = [v]"
| "logged_enq _ _ = []"

fun logged_deq :: "'a pc \<Rightarrow> 'a pc \<Rightarrow> (nat \<times> 'a) list" where
  "logged_deq (DeqRead p) (DeqStore p' x) = [(unat p, x)]"
| "logged_deq _ _ = []"

inductive mpmc_step :: "'a sys \<Rightarrow> 'a sys \<Rightarrow> bool" where
  call_enqueue: "pcs s t = Ready \<Longrightarrow> mpmc_step s (s\<lparr>pcs := (pcs s)(t := EnqLoad v)\<rparr>)"
| call_dequeue: "pcs s t = Ready \<Longrightarrow> mpmc_step s (s\<lparr>pcs := (pcs s)(t := DeqLoad)\<rparr>)"
| return_enqueue: "pcs s t = EnqRet b \<Longrightarrow> mpmc_step s (s\<lparr>pcs := (pcs s)(t := Ready)\<rparr>)"
| return_dequeue: "pcs s t = DeqRet r \<Longrightarrow> mpmc_step s (s\<lparr>pcs := (pcs s)(t := Ready)\<rparr>)"
| run: "thread_step b (queue s) (pcs s t) = Some (q', c') \<Longrightarrow>
     mpmc_step s \<lparr>queue = q', pcs = (pcs s)(t := c'),
                  enq_log = enq_log s @ logged_enq (pcs s t) c',
                  deq_log = deq_log s @ logged_deq (pcs s t) c'\<rparr>"

definition mpmc_init :: "'a MPMCQueue \<Rightarrow> 'a sys" where
  "mpmc_init q = \<lparr>queue = q, pcs = (\<lambda>_. Ready), enq_log = [], deq_log = []\<rparr>"

inductive mpmc_reachable :: "'a MPMCQueue \<Rightarrow> 'a sys \<Rightarrow> bool" for q0 where
  init: "mpmc_reachable q0 (mpmc_init q0)"
| step: "mpmc_reachable q0 s \<Longrightarrow> mpmc_step s s' \<Longrightarrow> mpmc_reachable q0 s'"

subsection \<open>The invariant\<close>

text \<open>
  Tickets are the natural numbers the two positions count. A thread between its
  compare-exchange and its releasing store owns the ticket it won.
\<close>

fun enq_owned :: "'a pc \<Rightarrow> nat option" where
  "enq_owned (EnqWrite v p) = Some (unat p)"
| "enq_owned (EnqStore v p) = Some (unat p)"
| "enq_owned _ = None"

fun deq_owned :: "'a pc \<Rightarrow> nat option" where
  "deq_owned (DeqRead p) = Some (unat p)"
| "deq_owned (DeqStore p x) = Some (unat p)"
| "deq_owned _ = None"

text \<open>
  Cell \<open>j\<close> is serving ticket \<open>tk j\<close>, and \<open>full j\<close> says that the value of that ticket
  is published and not yet released.
\<close>

definition cell_ok :: "'a sys \<Rightarrow> nat \<Rightarrow> (nat \<Rightarrow> nat) \<Rightarrow> (nat \<Rightarrow> bool) \<Rightarrow> nat \<Rightarrow> bool" where
  "cell_ok s n tk full j \<longleftrightarrow>
     (let e = length (enq_log s); d = unat (deq_pos (queue s)); c = buffer (queue s) ! j
      in tk j mod n = j \<and> tk j < d + n \<and> e \<le> tk j + n \<and>
         (if full j then seq c = of_nat (tk j + 1) \<and> tk j < e \<and> d \<le> tk j + n \<and>
                         val c = enq_log s ! tk j \<and>
                         (tk j < d \<longrightarrow> (\<exists>t. deq_owned (pcs s t) = Some (tk j)))
          else seq c = of_nat (tk j) \<and> d \<le> tk j \<and>
               (tk j < e \<longrightarrow> (\<exists>t. enq_owned (pcs s t) = Some (tk j)))))"

fun pc_ok :: "'a sys \<Rightarrow> nat \<Rightarrow> (nat \<Rightarrow> nat) \<Rightarrow> (nat \<Rightarrow> bool) \<Rightarrow> 'a pc \<Rightarrow> bool" where
  "pc_ok s n tk full (EnqSeq v p) \<longleftrightarrow> unat p \<le> length (enq_log s)"
| "pc_ok s n tk full (EnqCas v p) \<longleftrightarrow> unat p \<le> length (enq_log s) \<and>
     (unat p = length (enq_log s) \<longrightarrow> tk (unat p mod n) = unat p \<and> \<not> full (unat p mod n))"
| "pc_ok s n tk full (EnqWrite v p) \<longleftrightarrow> unat p < length (enq_log s) \<and> enq_log s ! unat p = v \<and>
     tk (unat p mod n) = unat p \<and> \<not> full (unat p mod n)"
| "pc_ok s n tk full (EnqStore v p) \<longleftrightarrow> unat p < length (enq_log s) \<and> enq_log s ! unat p = v \<and>
     tk (unat p mod n) = unat p \<and> \<not> full (unat p mod n) \<and>
     val (buffer (queue s) ! (unat p mod n)) = v"
| "pc_ok s n tk full (DeqSeq p) \<longleftrightarrow> unat p \<le> unat (deq_pos (queue s))"
| "pc_ok s n tk full (DeqCas p) \<longleftrightarrow> unat p \<le> unat (deq_pos (queue s)) \<and>
     (unat p = unat (deq_pos (queue s)) \<longrightarrow> tk (unat p mod n) = unat p \<and> full (unat p mod n))"
| "pc_ok s n tk full (DeqRead p) \<longleftrightarrow> unat p < unat (deq_pos (queue s)) \<and>
     tk (unat p mod n) = unat p \<and> full (unat p mod n)"
| "pc_ok s n tk full (DeqStore p x) \<longleftrightarrow> unat p < unat (deq_pos (queue s)) \<and>
     tk (unat p mod n) = unat p \<and> full (unat p mod n) \<and> x = enq_log s ! unat p"
| "pc_ok s n tk full _ \<longleftrightarrow> True"

definition shape_ok :: "'a MPMCQueue \<Rightarrow> nat \<Rightarrow> bool" where
  "shape_ok q k \<longleftrightarrow> 1 \<le> k \<and> k < 63 \<and> unat (capacity q) = 2 ^ k \<and> qmask q = capacity q - 1 \<and>
     length (buffer q) = 2 ^ k"

definition mpmc_inv :: "'a sys \<Rightarrow> nat \<Rightarrow> (nat \<Rightarrow> nat) \<Rightarrow> (nat \<Rightarrow> bool) \<Rightarrow> bool" where
  "mpmc_inv s k tk full \<longleftrightarrow>
     shape_ok (queue s) k \<and>
     enq_pos (queue s) = of_nat (length (enq_log s)) \<and>
     unat (deq_pos (queue s)) \<le> length (enq_log s) \<and>
     (\<forall>j < 2 ^ k. cell_ok s (2 ^ k) tk full j) \<and>
     (\<forall>t. pc_ok s (2 ^ k) tk full (pcs s t)) \<and>
     (\<forall>t t' p. enq_owned (pcs s t) = Some p \<longrightarrow> enq_owned (pcs s t') = Some p \<longrightarrow> t = t') \<and>
     (\<forall>t t' p. deq_owned (pcs s t) = Some p \<longrightarrow> deq_owned (pcs s t') = Some p \<longrightarrow> t = t')"

subsection \<open>Every step keeps the invariant\<close>

lemma cell_ix_mod: "shape_ok q k \<Longrightarrow> cell_ix q p = unat p mod 2 ^ k"
  by (simp add: cell_ix_def shape_ok_def unat_and_pow2)

lemma shape_ok_upd [simp]:
  "shape_ok (q\<lparr>enq_pos := x\<rparr>) k = shape_ok q k" "shape_ok (q\<lparr>deq_pos := x\<rparr>) k = shape_ok q k"
  "shape_ok (set_cell q p f) k = shape_ok q k"
  by (simp_all add: shape_ok_def set_cell_def)

lemma set_cell_sel [simp]:
  "enq_pos (set_cell q p f) = enq_pos q" "deq_pos (set_cell q p f) = deq_pos q"
  "capacity (set_cell q p f) = capacity q"
  by (simp_all add: set_cell_def)

lemma set_cell_buffer:
  assumes "shape_ok q k" and "j < 2 ^ k"
  shows "buffer (set_cell q p f) ! j =
    (if j = unat p mod 2 ^ k then f (buffer q ! j) else buffer q ! j)"
  using assms cell_ix_mod [OF assms(1), of p]
  by (auto simp: set_cell_def cell_at_def shape_ok_def nth_list_update)

lemmas mpmc_invD = mpmc_inv_def [THEN iffD1]

lemma inv_cell: "mpmc_inv s k tk full \<Longrightarrow> j < 2 ^ k \<Longrightarrow> cell_ok s (2 ^ k) tk full j"
  by (simp add: mpmc_inv_def)

lemma inv_pc: "mpmc_inv s k tk full \<Longrightarrow> pc_ok s (2 ^ k) tk full (pcs s t)"
  by (simp add: mpmc_inv_def)

text \<open>Two tickets of one cell that are less than a round apart are equal.\<close>

lemma mod_eq_window:
  fixes a b n :: nat
  assumes "a mod n = b mod n" "a < b + n" "b < a + n"
  shows "a = b"
proof -
  have eq: "x = y" if "x \<le> y" "y < x + n" "y mod n = x mod n" for x y :: nat
  proof (rule ccontr)
    assume "x \<noteq> y"
    with that have "n dvd y - x" and "0 < y - x" by (simp_all add: mod_eq_dvd_iff_nat)
    then have "n \<le> y - x" by (rule dvd_imp_le)
    with that show False by linarith
  qed
  show ?thesis using eq [of a b] eq [of b a] assms by (cases "a \<le> b") auto
qed

lemma cell_ok_frame:
  assumes "cell_ok s n tk full j"
    and "\<And>p. (\<exists>t. enq_owned (pcs s t) = Some p) \<Longrightarrow> \<exists>t. enq_owned (pcs s' t) = Some p"
    and "\<And>p. (\<exists>t. deq_owned (pcs s t) = Some p) \<Longrightarrow> \<exists>t. deq_owned (pcs s' t) = Some p"
    and "queue s' = queue s" "enq_log s' = enq_log s"
  shows "cell_ok s' n tk full j"
  using assms by (simp add: cell_ok_def Let_def)

lemma pc_ok_cong:
  "queue s' = queue s \<Longrightarrow> enq_log s' = enq_log s \<Longrightarrow> pc_ok s' n tk full c = pc_ok s n tk full c"
  by (cases c) auto

text \<open>A step that changes only one thread's program counter.\<close>

lemma inv_pcs:
  assumes inv: "mpmc_inv s k tk full"
    and own: "enq_owned c' = enq_owned (pcs s t)" "deq_owned c' = deq_owned (pcs s t)"
    and ok: "pc_ok s (2 ^ k) tk full c'"
    and s': "queue s' = queue s" "enq_log s' = enq_log s" "pcs s' = (pcs s)(t := c')"
  shows "mpmc_inv s' k tk full"
proof -
  have eo: "enq_owned (pcs s' u) = enq_owned (pcs s u)"
    and do: "deq_owned (pcs s' u) = deq_owned (pcs s u)" for u
    using own s' by auto
  have "cell_ok s' (2 ^ k) tk full j" if "j < 2 ^ k" for j
    by (rule cell_ok_frame [OF inv_cell [OF inv that]]) (simp_all only: eo do s'(1,2))
  moreover have "pc_ok s' (2 ^ k) tk full (pcs s' u)" for u
    using ok inv_pc [OF inv] by (simp add: pc_ok_cong [OF s'(1,2)] s'(3))
  ultimately show ?thesis
    using inv by (auto simp: mpmc_inv_def s'(1,2) eo do)
qed

text \<open>Winning the compare-exchange on \<open>enq_pos_\<close> claims the next enqueue ticket.\<close>

lemma inv_enq_cas:
  assumes inv: "mpmc_inv s k tk full" and c: "pcs s t = EnqCas v p" and p: "enq_pos (queue s) = p"
    and bound: "length (enq_log s) + 1 < 2 ^ 63"
    and s': "queue s' = (queue s)\<lparr>enq_pos := p + 1\<rparr>" "enq_log s' = enq_log s @ [v]"
      "pcs s' = (pcs s)(t := EnqWrite v p)"
  shows "mpmc_inv s' k tk full"
proof -
  let ?e = "length (enq_log s)" and ?n = "2 ^ k :: nat"
  have pe: "unat p = ?e"
    using inv p bound by (auto simp: mpmc_inv_def unat_of_nat_u64)
  have tk: "tk (?e mod ?n) = ?e" "\<not> full (?e mod ?n)"
    using inv_pc [OF inv, of t] by (auto simp: c pe)
  have eo: "enq_owned (pcs s' u) = Some i \<longleftrightarrow> enq_owned (pcs s u) = Some i \<or> u = t \<and> i = ?e"
    and do: "deq_owned (pcs s' u) = deq_owned (pcs s u)" for u i
    using c by (auto simp: s' pe)
  have lt: "i < ?e" if "enq_owned (pcs s u) = Some i" for u i
    using that inv_pc [OF inv, of u] by (cases "pcs s u") auto
  have cell: "cell_ok s' ?n tk full j" if j: "j < ?n" for j
  proof -
    note ok = inv_cell [OF inv j, unfolded cell_ok_def Let_def]
    have "tk j \<noteq> ?e" if "?e \<noteq> tk j + ?n" "j \<noteq> ?e mod ?n"
      using ok that by auto
    moreover have "?e \<noteq> tk j + ?n"
      using ok tk by (metis mod_add_self2 less_add_same_cancel1 not_less_iff_gr_or_eq zero_less_numeral
          zero_less_power)
    ultimately show ?thesis
      using ok tk by (cases "j = ?e mod ?n") (auto simp: cell_ok_def Let_def s'(1,2) eo do nth_append)
  qed
  have "unat (deq_pos (queue s)) \<le> ?e" using inv by (simp add: mpmc_inv_def)
  then have "pc_ok s' ?n tk full (pcs s' u)" for u
    using inv_pc [OF inv, of u] tk by (cases "u = t"; cases "pcs s u") (auto simp: s' pe nth_append)
  moreover have "enq_pos (queue s') = of_nat (length (enq_log s'))"
    using inv p by (simp add: s' mpmc_inv_def)
  ultimately show ?thesis
    using inv cell by (auto simp: mpmc_inv_def s'(1,2) eo do dest: lt)
qed

text \<open>The plain write of the value changes a cell only its owner can see.\<close>

lemma inv_enq_write:
  assumes inv: "mpmc_inv s k tk full" and c: "pcs s t = EnqWrite v p"
    and s': "queue s' = set_cell (queue s) p (\<lambda>c. c\<lparr>val := v\<rparr>)" "enq_log s' = enq_log s"
      "pcs s' = (pcs s)(t := EnqStore v p)"
  shows "mpmc_inv s' k tk full"
proof -
  let ?n = "2 ^ k :: nat" and ?j = "unat p mod 2 ^ k"
  have sh: "shape_ok (queue s) k" using inv by (simp add: mpmc_inv_def)
  have ow: "tk ?j = unat p" "\<not> full ?j" "unat p < length (enq_log s)" "enq_log s ! unat p = v"
    using inv_pc [OF inv, of t] by (auto simp: c)
  have eo: "enq_owned (pcs s' u) = enq_owned (pcs s u)"
    and do: "deq_owned (pcs s' u) = deq_owned (pcs s u)" for u
    using c by (auto simp: s')
  note buf = set_cell_buffer [OF sh]
  have cell: "cell_ok s' ?n tk full j" if j: "j < ?n" for j
    using inv_cell [OF inv j] ow buf [OF j]
    by (cases "j = ?j") (simp_all add: cell_ok_def Let_def s'(1,2) eo do)
  have uniq: "u = t" if "enq_owned (pcs s u) = Some (unat p)" for u
    using that inv c by (auto simp: mpmc_inv_def)
  have "pc_ok s' ?n tk full (pcs s' u)" for u
  proof (cases "u = t")
    case True
    then show ?thesis using ow buf [of ?j] by (simp add: s')
  next
    case False
    have "buffer (queue s') ! (unat w mod ?n) = buffer (queue s) ! (unat w mod ?n)"
      if "tk (unat w mod ?n) = unat w" "unat w \<noteq> unat p" for w :: u64
      using that ow(1) buf [of "unat w mod ?n"] by (auto simp: s'(1))
    moreover have "enq_owned (pcs s u) \<noteq> Some (unat p)" using False uniq by blast
    moreover have "deq_pos (queue s') = deq_pos (queue s)" by (simp add: s'(1))
    ultimately show ?thesis
      using False inv_pc [OF inv, of u] by (cases "pcs s u") (auto simp: s'(2,3))
  qed
  then show ?thesis
    using inv cell by (auto simp: mpmc_inv_def s'(1,2) eo do)
qed

text \<open>Storing \<open>pos + 1\<close> publishes the value.\<close>

lemma inv_enq_store:
  assumes inv: "mpmc_inv s k tk full" and c: "pcs s t = EnqStore v p"
    and s': "queue s' = set_cell (queue s) p (\<lambda>c. c\<lparr>seq := p + 1\<rparr>)" "enq_log s' = enq_log s"
      "pcs s' = (pcs s)(t := EnqRet True)"
  shows "mpmc_inv s' k tk (full(unat p mod 2 ^ k := True))"
proof -
  let ?n = "2 ^ k :: nat" and ?j = "unat p mod 2 ^ k"
  let ?f = "full(?j := True)"
  have sh: "shape_ok (queue s) k" using inv by (simp add: mpmc_inv_def)
  have ow: "tk ?j = unat p" "\<not> full ?j" "unat p < length (enq_log s)" "enq_log s ! unat p = v"
    "val (buffer (queue s) ! ?j) = v"
    using inv_pc [OF inv, of t] by (auto simp: c)
  have eo: "enq_owned (pcs s' u) = Some i \<longleftrightarrow> enq_owned (pcs s u) = Some i \<and> u \<noteq> t"
    and do: "deq_owned (pcs s' u) = deq_owned (pcs s u)" for u i
    using c by (auto simp: s')
  note buf = set_cell_buffer [OF sh]
  have cell: "cell_ok s' ?n tk ?f j" if j: "j < ?n" for j
  proof (cases "j = ?j")
    case True
    then show ?thesis
      using inv_cell [OF inv j] ow buf [OF j] by (auto simp: cell_ok_def Let_def s'(1,2) eo do)
  next
    case False
    have "u \<noteq> t" if "enq_owned (pcs s u) = Some (tk j)" for u
      using that False inv_cell [OF inv j] ow(1) c by (auto simp: cell_ok_def Let_def)
    then have "(\<exists>u. enq_owned (pcs s u) = Some (tk j)) \<Longrightarrow> \<exists>u. enq_owned (pcs s' u) = Some (tk j)"
      unfolding eo by blast
    with False show ?thesis
      using inv_cell [OF inv j] buf [OF j] by (simp add: cell_ok_def Let_def s'(1,2) do)
  qed
  have uniq: "u = t" if "enq_owned (pcs s u) = Some (unat p)" for u
    using that inv c by (auto simp: mpmc_inv_def)
  have "pc_ok s' ?n tk ?f (pcs s' u)" for u
  proof (cases "u = t")
    case True
    then show ?thesis by (simp add: s')
  next
    case False
    have "buffer (queue s') ! (unat w mod ?n) = buffer (queue s) ! (unat w mod ?n)"
        "?f (unat w mod ?n) = full (unat w mod ?n)"
      if "tk (unat w mod ?n) = unat w" "unat w \<noteq> unat p" for w :: u64
      using that ow(1) buf [of "unat w mod ?n"] by (auto simp: s'(1))
    moreover have "enq_owned (pcs s u) \<noteq> Some (unat p)" using False uniq by blast
    moreover have "deq_pos (queue s') = deq_pos (queue s)" by (simp add: s'(1))
    ultimately show ?thesis
      using False inv_pc [OF inv, of u] ow(1,3) by (cases "pcs s u") (auto simp: s'(2,3))
  qed
  then show ?thesis
    using inv cell by (auto simp: mpmc_inv_def s'(1,2) eo do)
qed

text \<open>Winning the compare-exchange on \<open>deq_pos_\<close> claims the next dequeue ticket.\<close>

lemma inv_deq_cas:
  assumes inv: "mpmc_inv s k tk full" and c: "pcs s t = DeqCas p" and p: "deq_pos (queue s) = p"
    and bound: "length (enq_log s) < 2 ^ 63"
    and s': "queue s' = (queue s)\<lparr>deq_pos := p + 1\<rparr>" "enq_log s' = enq_log s"
      "pcs s' = (pcs s)(t := DeqRead p)"
  shows "mpmc_inv s' k tk full"
proof -
  let ?d = "unat p" and ?n = "2 ^ k :: nat"
  have npos: "0 < ?n" by simp
  have tk: "tk (?d mod ?n) = ?d" "full (?d mod ?n)"
    using inv_pc [OF inv, of t] by (auto simp: c p)
  have "?d < length (enq_log s)"
    using inv_cell [OF inv, of "?d mod ?n"] tk by (simp add: cell_ok_def Let_def)
  with bound have d': "unat (p + 1) = ?d + 1" and lt: "?d + 1 \<le> length (enq_log s)"
    by (simp_all add: unat_inc_u64)
  have eo: "enq_owned (pcs s' u) = enq_owned (pcs s u)"
    and do: "deq_owned (pcs s' u) = Some i \<longleftrightarrow> deq_owned (pcs s u) = Some i \<or> u = t \<and> i = ?d" for u i
    using c by (auto simp: s')
  have own: "i < ?d" if "deq_owned (pcs s u) = Some i" for u i
    using that inv_pc [OF inv, of u] p by (cases "pcs s u") auto
  have cell: "cell_ok s' ?n tk full j" if j: "j < ?n" for j
  proof -
    note ok = inv_cell [OF inv j, unfolded cell_ok_def Let_def p]
    show ?thesis
    proof (cases "j = ?d mod ?n")
      case True
      with ok tk show ?thesis by (auto simp: cell_ok_def Let_def s'(1,2) eo do d')
    next
      case False
      have "tk j \<noteq> ?d" using ok False by auto
      moreover have "tk j + ?n \<noteq> ?d" using ok False by (metis mod_add_self2)
      ultimately show ?thesis using ok by (auto simp: cell_ok_def Let_def s'(1,2) eo do d')
    qed
  qed
  have "pc_ok s' ?n tk full (pcs s' u)" for u
    using inv_pc [OF inv, of u] tk p by (cases "u = t"; cases "pcs s u") (auto simp: s' d')
  then show ?thesis
    using inv cell lt p by (auto simp: mpmc_inv_def s'(1,2) eo do d' dest: own)
qed

text \<open>Storing \<open>pos + capacity\<close> hands the cell to the enqueue of the next round.\<close>

lemma inv_deq_store:
  assumes inv: "mpmc_inv s k tk full" and c: "pcs s t = DeqStore p x"
    and s': "queue s' = set_cell (queue s) p (\<lambda>c. c\<lparr>seq := p + capacity (queue s)\<rparr>)"
      "enq_log s' = enq_log s" "pcs s' = (pcs s)(t := DeqRet (Some x))"
  shows "mpmc_inv s' k (tk(unat p mod 2 ^ k := unat p + 2 ^ k)) (full(unat p mod 2 ^ k := False))"
proof -
  let ?n = "2 ^ k :: nat" and ?j = "unat p mod 2 ^ k"
  let ?f = "full(?j := False)" and ?tk = "tk(?j := unat p + 2 ^ k)"
  have sh: "shape_ok (queue s) k" using inv by (simp add: mpmc_inv_def)
  have ow: "tk ?j = unat p" "full ?j" "unat p < unat (deq_pos (queue s))"
    using inv_pc [OF inv, of t] by (auto simp: c)
  have de: "unat (deq_pos (queue s)) \<le> length (enq_log s)" using inv by (simp add: mpmc_inv_def)
  have eo: "enq_owned (pcs s' u) = enq_owned (pcs s u)"
    and do: "deq_owned (pcs s' u) = Some i \<longleftrightarrow> deq_owned (pcs s u) = Some i \<and> u \<noteq> t" for u i
    using c by (auto simp: s')
  have cap: "p + capacity (queue s) = of_nat (unat p + ?n)"
    using sh by (simp add: shape_ok_def) (metis of_nat_numeral of_nat_power of_nat_unat_u64)
  note buf = set_cell_buffer [OF sh]
  have cell: "cell_ok s' ?n ?tk ?f j" if j: "j < ?n" for j
  proof (cases "j = ?j")
    case True
    then show ?thesis
      using inv_cell [OF inv j] ow buf [OF j] cap
      by (simp add: cell_ok_def Let_def s'(1,2) eo do)
  next
    case False
    have "u \<noteq> t" if "deq_owned (pcs s u) = Some (tk j)" for u
      using that False inv_cell [OF inv j] ow(1) c by (auto simp: cell_ok_def Let_def)
    then have "(\<exists>u. deq_owned (pcs s u) = Some (tk j)) \<Longrightarrow> \<exists>u. deq_owned (pcs s' u) = Some (tk j)"
      unfolding do by blast
    with False show ?thesis
      using inv_cell [OF inv j] buf [OF j] by (simp add: cell_ok_def Let_def s'(1,2) eo)
  qed
  have uniq: "u = t" if "deq_owned (pcs s u) = Some (unat p)" for u
    using that inv c by (auto simp: mpmc_inv_def)
  have "pc_ok s' ?n ?tk ?f (pcs s' u)" for u
  proof (cases "u = t")
    case True
    then show ?thesis by (simp add: s')
  next
    case False
    have ne: "unat w mod ?n \<noteq> ?j" if "tk (unat w mod ?n) = unat w" "unat w \<noteq> unat p" for w :: u64
      using that ow(1) by auto
    have b: "buffer (queue s') ! (unat w mod ?n) = buffer (queue s) ! (unat w mod ?n)"
      if "unat w mod ?n \<noteq> ?j" for w :: u64
      using that buf [of "unat w mod ?n"] by (simp add: s'(1))
    have dp: "deq_pos (queue s') = deq_pos (queue s)" by (simp add: s'(1))
    have "deq_owned (pcs s u) \<noteq> Some (unat p)" using False uniq by blast
    with False inv_pc [OF inv, of u] show ?thesis
      using ow de by (cases "pcs s u") (auto simp: s'(2,3) dp b dest!: ne)
  qed
  then show ?thesis
    using inv cell by (auto simp: mpmc_inv_def s'(1,2) eo do)
qed

subsection \<open>What a thread learns from the sequence number\<close>

definition seq_nat :: "(nat \<Rightarrow> nat) \<Rightarrow> (nat \<Rightarrow> bool) \<Rightarrow> nat \<Rightarrow> nat" where
  "seq_nat tk full j = (if full j then tk j + 1 else tk j)"

lemma seq_diff:
  assumes inv: "mpmc_inv s k tk full" and bound: "length (enq_log s) + 2 ^ k < 2 ^ 63"
    and p: "unat r < 2 ^ 63"
  shows "sint (seq (cell_at (queue s) p) - r) = int (seq_nat tk full (unat p mod 2 ^ k)) - int (unat r)"
proof -
  let ?j = "unat p mod 2 ^ k"
  have sh: "shape_ok (queue s) k" using inv by (simp add: mpmc_inv_def)
  have ok: "cell_ok s (2 ^ k) tk full ?j" by (rule inv_cell [OF inv]) simp
  have "unat (deq_pos (queue s)) \<le> length (enq_log s)" using inv by (simp add: mpmc_inv_def)
  with ok bound have small: "seq_nat tk full ?j < 2 ^ 63"
    by (auto simp: cell_ok_def Let_def seq_nat_def)
  have "seq (cell_at (queue s) p) = of_nat (seq_nat tk full ?j)"
    using ok by (simp add: cell_at_def cell_ix_mod [OF sh] cell_ok_def Let_def seq_nat_def)
  with small have "unat (seq (cell_at (queue s) p)) = seq_nat tk full ?j"
    by (simp add: unat_of_nat_u64)
  with small p show ?thesis by (simp add: sint_diff_small)
qed

lemma round_ne:
  fixes a b n :: nat
  assumes "a mod n = b mod n" "2 \<le> n"
  shows "a + 1 \<noteq> b" "b + 1 \<noteq> a"
proof -
  have "a + 1 \<noteq> b" if "a mod n = b mod n" for a b
  proof
    assume b: "a + 1 = b"
    with that have "n dvd b - a" using mod_eq_dvd_iff_nat [of a b n] by simp
    with b have "n dvd 1" by (metis add_diff_cancel_left')
    with assms(2) show False by simp
  qed
  with assms(1) show "a + 1 \<noteq> b" "b + 1 \<noteq> a" by metis+
qed

lemma shape_round: "shape_ok q k \<Longrightarrow> 2 \<le> (2::nat) ^ k"
  using power_increasing [of 1 k "2::nat"] by (simp add: shape_ok_def)

lemma pos_inc_small:
  assumes "unat (p :: u64) \<le> e" "e + 2 ^ k < (2 ^ 63 :: nat)"
  shows "unat (p + 1) = unat p + 1" "unat (p + 1) < 2 ^ 63"
proof -
  have "unat p + 1 < 2 ^ 63"
    using assms zero_less_power [of "2::nat" k] by linarith
  then show "unat (p + 1) = unat p + 1" "unat (p + 1) < 2 ^ 63" by (simp_all add: unat_inc_u64)
qed

lemma enq_seq_hit:
  assumes inv: "mpmc_inv s k tk full" and bound: "length (enq_log s) + 2 ^ k < 2 ^ 63"
    and c: "pcs s t = EnqSeq v p" and z: "sint (seq (cell_at (queue s) p) - p) = 0"
  shows "pc_ok s (2 ^ k) tk full (EnqCas v p)"
proof -
  let ?j = "unat p mod 2 ^ k"
  have pe: "unat p \<le> length (enq_log s)" using inv_pc [OF inv, of t] by (simp add: c)
  with bound have "unat p < 2 ^ 63" by simp
  from seq_diff [OF inv bound this, of p] z have eq: "seq_nat tk full ?j = unat p" by simp
  have ok: "cell_ok s (2 ^ k) tk full ?j" by (rule inv_cell [OF inv]) simp
  have "2 \<le> (2::nat) ^ k" using inv by (auto simp: mpmc_inv_def intro: shape_round)
  then have "\<not> full ?j"
    using eq ok round_ne [of "tk ?j" "2 ^ k" "unat p"]
    by (auto simp: seq_nat_def cell_ok_def Let_def)
  moreover from this eq have "tk ?j = unat p" by (simp add: seq_nat_def)
  ultimately show ?thesis using pe unfolding pc_ok.simps by blast
qed

lemma deq_seq_hit:
  assumes inv: "mpmc_inv s k tk full" and bound: "length (enq_log s) + 2 ^ k < 2 ^ 63"
    and c: "pcs s t = DeqSeq p" and z: "sint (seq (cell_at (queue s) p) - (p + 1)) = 0"
  shows "pc_ok s (2 ^ k) tk full (DeqCas p)"
proof -
  let ?j = "unat p mod 2 ^ k"
  have pd: "unat p \<le> unat (deq_pos (queue s))" using inv_pc [OF inv, of t] by (simp add: c)
  moreover have "unat (deq_pos (queue s)) \<le> length (enq_log s)"
    using inv by (simp add: mpmc_inv_def)
  ultimately have "unat p \<le> length (enq_log s)" by simp
  note p1 = pos_inc_small [OF this bound]
  from seq_diff [OF inv bound p1(2), of p] z p1(1) have eq: "seq_nat tk full ?j = unat p + 1"
    by simp
  have ok: "cell_ok s (2 ^ k) tk full ?j" by (rule inv_cell [OF inv]) simp
  have "2 \<le> (2::nat) ^ k" using inv by (auto simp: mpmc_inv_def intro: shape_round)
  then have "full ?j"
    using eq ok round_ne [of "tk ?j" "2 ^ k" "unat p"]
    by (auto simp: seq_nat_def cell_ok_def Let_def split: if_splits)
  moreover from this eq have "tk ?j = unat p" by (simp add: seq_nat_def)
  ultimately show ?thesis using pd unfolding pc_ok.simps by blast
qed

lemma inv_size:
  assumes inv: "mpmc_inv s k tk full"
  shows "length (enq_log s) \<le> unat (deq_pos (queue s)) + 2 ^ k"
proof -
  let ?d = "unat (deq_pos (queue s))" and ?i = "unat (deq_pos (queue s)) mod 2 ^ k"
  have "cell_ok s (2 ^ k) tk full ?i" by (rule inv_cell [OF inv]) simp
  then have "tk ?i mod 2 ^ k = ?d mod 2 ^ k" "tk ?i < ?d + 2 ^ k" "length (enq_log s) \<le> tk ?i + 2 ^ k"
    by (simp_all add: cell_ok_def Let_def)
  then show ?thesis
    using mod_eq_window [of "tk ?i" "2 ^ k" ?d] by (cases "?d < tk ?i + 2 ^ k") auto
qed

text \<open>
  A failed call: the enqueuer saw the cell still in the hands of the previous round, the
  dequeuer saw the value of its ticket not yet published.
\<close>

lemma enq_seq_full:
  assumes inv: "mpmc_inv s k tk full" and bound: "length (enq_log s) + 2 ^ k < 2 ^ 63"
    and c: "pcs s t = EnqSeq v p" and z: "sint (seq (cell_at (queue s) p) - p) < 0"
  shows "unat (deq_pos (queue s)) + 2 ^ k = length (enq_log s) \<or>
    (\<exists>u i. deq_owned (pcs s u) = Some i \<and> i + 2 ^ k = length (enq_log s))"
proof -
  let ?j = "unat p mod 2 ^ k" and ?e = "length (enq_log s)" and ?d = "unat (deq_pos (queue s))"
  have pe: "unat p \<le> ?e" using inv_pc [OF inv, of t] by (simp add: c)
  with bound have "unat p < 2 ^ 63" by simp
  from seq_diff [OF inv bound this, of p] z have lt: "seq_nat tk full ?j < unat p" by simp
  have ok: "cell_ok s (2 ^ k) tk full ?j" by (rule inv_cell [OF inv]) simp
  then have m: "tk ?j mod 2 ^ k = unat p mod 2 ^ k" "?e \<le> tk ?j + 2 ^ k" "tk ?j < ?d + 2 ^ k"
    by (simp_all add: cell_ok_def Let_def)
  have "tk ?j + 2 ^ k \<le> unat p"
    using mod_eq_window [OF m(1)] lt by (cases "unat p < tk ?j + 2 ^ k")
      (auto simp: seq_nat_def split: if_splits)
  with m pe have e: "tk ?j + 2 ^ k = ?e" by simp
  show ?thesis
  proof (cases "tk ?j < ?d")
    case True
    with ok e show ?thesis by (auto simp: cell_ok_def Let_def split: if_splits)
  next
    case False
    with inv_size [OF inv] e show ?thesis by simp
  qed
qed

lemma deq_seq_empty:
  assumes inv: "mpmc_inv s k tk full" and bound: "length (enq_log s) + 2 ^ k < 2 ^ 63"
    and c: "pcs s t = DeqSeq p" and z: "sint (seq (cell_at (queue s) p) - (p + 1)) < 0"
  shows "unat (deq_pos (queue s)) = length (enq_log s) \<or>
    (\<exists>u. enq_owned (pcs s u) = Some (unat (deq_pos (queue s))))"
proof -
  let ?j = "unat p mod 2 ^ k" and ?e = "length (enq_log s)" and ?d = "unat (deq_pos (queue s))"
  have pd: "unat p \<le> ?d" using inv_pc [OF inv, of t] by (simp add: c)
  have de: "?d \<le> ?e" using inv by (simp add: mpmc_inv_def)
  with pd have "unat p \<le> ?e" by simp
  note p1 = pos_inc_small [OF this bound]
  from seq_diff [OF inv bound p1(2), of p] z p1(1) have lt: "seq_nat tk full ?j < unat p + 1"
    by simp
  have ok: "cell_ok s (2 ^ k) tk full ?j" by (rule inv_cell [OF inv]) simp
  then have m: "tk ?j mod 2 ^ k = unat p mod 2 ^ k" by (simp add: cell_ok_def Let_def)
  show ?thesis
  proof (cases "full ?j")
    case True
    with lt have "tk ?j < unat p" by (simp add: seq_nat_def)
    then have "tk ?j + 2 ^ k \<le> unat p"
      using mod_eq_window [OF m] by (cases "unat p < tk ?j + 2 ^ k") auto
    with ok True pd de show ?thesis by (auto simp: cell_ok_def Let_def)
  next
    case False
    with lt have "tk ?j \<le> unat p" by (simp add: seq_nat_def)
    with ok False pd have "tk ?j = ?d" by (auto simp: cell_ok_def Let_def)
    with ok False de show ?thesis by (auto simp: cell_ok_def Let_def)
  qed
qed

subsection \<open>Preservation and reachability\<close>

lemma inv_exI: "mpmc_inv s k tk full \<Longrightarrow> \<exists>tk' full'. mpmc_inv s k tk' full'"
  by blast

lemma inv_run:
  assumes inv: "mpmc_inv s k tk full"
    and st: "thread_step b (queue s) (pcs s t) = Some (q', c')"
    and s': "s' = \<lparr>queue = q', pcs = (pcs s)(t := c'), enq_log = enq_log s @ logged_enq (pcs s t) c',
        deq_log = deq_log s @ logged_deq (pcs s t) c'\<rparr>"
    and bound: "length (enq_log s') + 2 ^ k < 2 ^ 63"
  shows "\<exists>tk' full'. mpmc_inv s' k tk' full'"
proof -
  have "length (enq_log s) \<le> length (enq_log s')" by (simp add: s')
  with bound have b0: "length (enq_log s) + 2 ^ k < 2 ^ 63" by linarith
  have e: "unat (enq_pos (queue s)) = length (enq_log s)"
    using inv b0 by (simp add: mpmc_inv_def unat_of_nat_u64)
  note move = inv_exI [OF inv_pcs [OF inv, of c' t s']]
  show ?thesis
  proof (cases "pcs s t")
    case (EnqSeq v p)
    with enq_seq_hit [OF inv b0 EnqSeq] show ?thesis
      by (intro move) (use st s' in \<open>auto simp: Let_def split: if_splits\<close>)
  next
    case (EnqCas v p)
    show ?thesis
    proof (cases "enq_pos (queue s) = p \<and> \<not> b")
      case True
      then show ?thesis
        by (intro inv_exI [OF inv_enq_cas [OF inv EnqCas, of s']])
          (use st s' EnqCas bound in auto)
    next
      case False
      then show ?thesis by (intro move) (use st s' EnqCas e in auto)
    qed
  next
    case (EnqWrite v p)
    show ?thesis
      by (intro inv_exI [OF inv_enq_write [OF inv EnqWrite, of s']]) (use st s' EnqWrite in auto)
  next
    case (EnqStore v p)
    show ?thesis
      by (intro inv_exI [OF inv_enq_store [OF inv EnqStore, of s']]) (use st s' EnqStore in auto)
  next
    case (DeqSeq p)
    with deq_seq_hit [OF inv b0 DeqSeq] show ?thesis
      by (intro move) (use st s' in \<open>auto simp: Let_def split: if_splits\<close>)
  next
    case (DeqCas p)
    show ?thesis
    proof (cases "deq_pos (queue s) = p \<and> \<not> b")
      case True
      then show ?thesis
        by (intro inv_exI [OF inv_deq_cas [OF inv DeqCas, of s']])
          (use st s' DeqCas b0 in auto)
    next
      case False
      then show ?thesis by (intro move) (use st s' DeqCas in auto)
    qed
  next
    case (DeqRead p)
    have sh: "shape_ok (queue s) k" using inv by (simp add: mpmc_inv_def)
    have "cell_ok s (2 ^ k) tk full (unat p mod 2 ^ k)" by (rule inv_cell [OF inv]) simp
    with inv_pc [OF inv, of t] DeqRead have "val (cell_at (queue s) p) = enq_log s ! unat p"
      by (auto simp: cell_at_def cell_ix_mod [OF sh] cell_ok_def Let_def)
    then show ?thesis by (intro move) (use st s' DeqRead inv_pc [OF inv, of t] in auto)
  next
    case (DeqStore p x)
    show ?thesis
      by (intro inv_exI [OF inv_deq_store [OF inv DeqStore, of s']]) (use st s' DeqStore in auto)
  qed (use st in auto; intro move; use st s' e in auto)+
qed

lemma inv_pcs_idle:
  assumes "mpmc_inv s k tk full" "enq_owned (pcs s t) = None" "deq_owned (pcs s t) = None"
    and "c' \<in> {Ready, DeqLoad} \<union> range EnqLoad"
  shows "mpmc_inv (s\<lparr>pcs := (pcs s)(t := c')\<rparr>) k tk full"
  by (rule inv_pcs [OF assms(1), of c' t]) (use assms in auto)

lemma inv_step:
  assumes "mpmc_step s s'" and "mpmc_inv s k tk full" and "length (enq_log s') + 2 ^ k < 2 ^ 63"
  shows "\<exists>tk' full'. mpmc_inv s' k tk' full'"
  using assms
proof (induction rule: mpmc_step.induct)
  case (run b s t q' c')
  show ?case by (rule inv_run [OF run(2,1) refl run(3)])
qed (metis (mono_tags) inv_pcs_idle enq_owned.simps deq_owned.simps UnI1 UnI2 insertI1 insertI2 rangeI)+

lemma step_log_mono: "mpmc_step s s' \<Longrightarrow> length (enq_log s) \<le> length (enq_log s')"
  by (induction rule: mpmc_step.induct) auto

lemma inv_init:
  assumes "shape_ok q k" "enq_pos q = 0" "deq_pos q = 0"
    and "\<forall>j < 2 ^ k. seq (buffer q ! j) = of_nat j"
  shows "mpmc_inv (mpmc_init q) k id (\<lambda>_. False)"
  using assms by (auto simp: mpmc_inv_def mpmc_init_def cell_ok_def Let_def)

text \<open>The constructor's assertion admits exactly the powers of two (and zero).\<close>

lemma and_pred_zero_pow2:
  assumes "(c :: u64) AND (c - 1) = 0" and "c \<noteq> 0"
  shows "\<exists>k < 64. unat c = 2 ^ k"
proof -
  have "1 \<le> unat c" using assms(2) by (simp add: Suc_le_eq unat_gt_0)
  then obtain k where k: "2 ^ k \<le> unat c" "unat c < 2 ^ (k + 1)"
    using ex_power_ivl1 [of 2 "unat c"] by auto
  have "unat c = 2 ^ k"
  proof (rule ccontr)
    assume "unat c \<noteq> 2 ^ k"
    with k have gt: "2 ^ k \<le> unat c - 1" by simp
    have bit: "bit x k" if "2 ^ k \<le> x" "x < 2 ^ (k + 1)" for x :: nat
    proof -
      have "x div 2 ^ k = 1" using that by (intro div_nat_eqI) auto
      then show ?thesis by (simp add: bit_iff_odd)
    qed
    have "bit (unat c) k" by (rule bit) fact+
    moreover have "unat (c - 1) = unat c - 1" using assms(2) by (rule unat_minus_one)
    then have "bit (unat (c - 1)) k" using gt k by (simp only:) (rule bit; simp)
    ultimately have "bit (c AND (c - 1)) k"
      by (simp add: bit_unsigned_iff bit_and_iff)
    with assms(1) show False by simp
  qed
  moreover have "k < 64"
  proof (rule ccontr)
    assume "\<not> k < 64"
    then have "(2::nat) ^ 64 \<le> 2 ^ k" by (intro power_increasing) auto
    with k unat_u64_lt [of c] show False by simp
  qed
  ultimately show ?thesis by blast
qed

lemma new_inv:
  assumes new: "MPMCQueue_new dflt cap = Some q" and cap: "2 \<le> unat cap" "unat cap < 2 ^ 63"
  obtains k where "unat cap = 2 ^ k" "shape_ok q k" "mpmc_inv (mpmc_init q) k id (\<lambda>_. False)"
proof -
  have "cap AND (cap - 1) = 0" "cap \<noteq> 0"
    using new cap by (auto simp: MPMCQueue_new_def split: if_splits)
  then obtain k where k: "k < 64" "unat cap = 2 ^ k" using and_pred_zero_pow2 by blast
  have "1 \<le> k" using cap(1) k(2) by (cases k) auto
  moreover have "k < 63" using cap(2) k(2) by (metis nat_power_less_imp_less pos2)
  ultimately have sh: "shape_ok q k"
    using new k by (auto simp: MPMCQueue_new_def shape_ok_def split: if_splits)
  moreover have "mpmc_inv (mpmc_init q) k id (\<lambda>_. False)"
    by (rule inv_init [OF sh]) (use new k in \<open>auto simp: MPMCQueue_new_def split: if_splits\<close>)
  ultimately show ?thesis using that k by blast
qed

lemma reachable_inv:
  assumes "mpmc_reachable q s" "mpmc_inv (mpmc_init q) k tk0 full0"
    and "length (enq_log s) + 2 ^ k < 2 ^ 63"
  shows "\<exists>tk full. mpmc_inv s k tk full"
  using assms
proof (induction rule: mpmc_reachable.induct)
  case init
  then show ?case by blast
next
  case (step s s')
  then have "length (enq_log s) + 2 ^ k < 2 ^ 63" using step_log_mono [of s s'] by linarith
  with step obtain tk full where "mpmc_inv s k tk full" by blast
  with step show ?case by (intro inv_step)
qed

subsection \<open>What has been read out\<close>

definition log_ok :: "'a sys \<Rightarrow> bool" where
  "log_ok s \<longleftrightarrow>
     distinct (map fst (deq_log s)) \<and>
     (\<forall>i x. (i, x) \<in> set (deq_log s) \<longrightarrow> i < unat (deq_pos (queue s)) \<and> x = enq_log s ! i) \<and>
     (\<forall>t p. pcs s t = DeqRead p \<longrightarrow> unat p \<notin> fst ` set (deq_log s)) \<and>
     (\<forall>i < unat (deq_pos (queue s)). i \<in> fst ` set (deq_log s) \<or>
        (\<exists>t p. pcs s t = DeqRead p \<and> unat p = i))"

lemma log_ok_frame:
  assumes "log_ok s" "queue s' = q'" "deq_pos q' = deq_pos (queue s)" "deq_log s' = deq_log s"
    "\<And>i. i < unat (deq_pos (queue s)) \<Longrightarrow> enq_log s' ! i = enq_log s ! i"
    "\<And>u p. pcs s' u = DeqRead p \<longleftrightarrow> pcs s u = DeqRead p"
  shows "log_ok s'"
proof -
  have "deq_pos (queue s') = deq_pos (queue s)" using assms by simp
  then show ?thesis
    using assms(1) unfolding log_ok_def assms(4,6) by (auto simp: assms(5))
qed

lemma log_deq_cas:
  assumes inv: "mpmc_inv s k tk full" and ok: "log_ok s" and c: "pcs s t = DeqCas p"
    and p: "deq_pos (queue s) = p" and d': "unat (p + 1) = unat p + 1"
    and s': "deq_pos (queue s') = p + 1" "enq_log s' = enq_log s" "deq_log s' = deq_log s"
      "pcs s' = (pcs s)(t := DeqRead p)"
  shows "log_ok s'"
proof -
  have rd: "pcs s' u = DeqRead r \<longleftrightarrow> pcs s u = DeqRead r \<or> u = t \<and> r = p" for u r
    using c by (auto simp: s')
  have "unat p \<notin> fst ` set (deq_log s)" using ok p unfolding log_ok_def by (metis imageE less_irrefl prod.collapse)
  then show ?thesis
    using ok unfolding log_ok_def s'(1,2,3) rd p d' by (auto simp: less_Suc_eq) metis
qed

lemma log_deq_read:
  assumes inv: "mpmc_inv s k tk full" and ok: "log_ok s" and c: "pcs s t = DeqRead p"
    and x: "x = enq_log s ! unat p"
    and s': "queue s' = queue s" "enq_log s' = enq_log s" "deq_log s' = deq_log s @ [(unat p, x)]"
      "pcs s' = (pcs s)(t := DeqStore p x)"
  shows "log_ok s'"
proof -
  have uniq: "u = t" if "pcs s u = DeqRead r" "unat r = unat p" for u r
    using inv that c unfolding mpmc_inv_def by (metis deq_owned.simps(1))
  have rd: "pcs s' u = DeqRead r \<longleftrightarrow> pcs s u = DeqRead r \<and> unat r \<noteq> unat p" for u r
    using c uniq [of u r] by (cases "u = t") (auto simp: s'(4))
  have lt: "unat p < unat (deq_pos (queue s))" using inv_pc [OF inv, of t] by (simp add: c)
  have new: "unat p \<notin> fst ` set (deq_log s)" using ok c by (force simp: log_ok_def)
  have "distinct (map fst (deq_log s'))" using ok new by (simp add: log_ok_def s'(3))
  moreover have "\<forall>i < unat (deq_pos (queue s)). i \<in> fst ` set (deq_log s') \<or>
      (\<exists>t r. pcs s' t = DeqRead r \<and> unat r = i)"
    using ok unfolding log_ok_def rd s'(3) by (metis UnI1 UnI2 image_Un set_append fst_conv
        image_eqI list.set_intros(1))
  ultimately show ?thesis
    using ok lt x unfolding log_ok_def s'(1,2) rd by (auto simp: s'(3)) (metis fst_conv image_eqI)
qed

lemma log_run:
  assumes inv: "mpmc_inv s k tk full" and ok: "log_ok s"
    and st: "thread_step b (queue s) (pcs s t) = Some (q', c')"
    and s': "s' = \<lparr>queue = q', pcs = (pcs s)(t := c'), enq_log = enq_log s @ logged_enq (pcs s t) c',
        deq_log = deq_log s @ logged_deq (pcs s t) c'\<rparr>"
    and bound: "length (enq_log s) + 2 ^ k < 2 ^ 63"
  shows "log_ok s'"
proof -
  have de: "unat (deq_pos (queue s)) \<le> length (enq_log s)" using inv by (simp add: mpmc_inv_def)
  note quiet = log_ok_frame [OF ok, of s' q']
  show ?thesis
  proof (cases "pcs s t")
    case (DeqCas p)
    show ?thesis
    proof (cases "deq_pos (queue s) = p \<and> \<not> b")
      case True
      then have "unat p \<le> length (enq_log s)" using de by simp
      note p1 = pos_inc_small(1) [OF this bound]
      show ?thesis
        by (rule log_deq_cas [OF inv ok DeqCas _ p1]) (use True st s' DeqCas in auto)
    next
      case False
      then show ?thesis by (intro quiet) (use st s' DeqCas in auto)
    qed
  next
    case (DeqRead p)
    have sh: "shape_ok (queue s) k" using inv by (simp add: mpmc_inv_def)
    have "cell_ok s (2 ^ k) tk full (unat p mod 2 ^ k)" by (rule inv_cell [OF inv]) simp
    with inv_pc [OF inv, of t] DeqRead have "val (cell_at (queue s) p) = enq_log s ! unat p"
      by (auto simp: cell_at_def cell_ix_mod [OF sh] cell_ok_def Let_def)
    then show ?thesis
      by (intro log_deq_read [OF inv ok DeqRead]) (use st s' DeqRead in auto)
  next
    case (EnqSeq v p)
    show ?thesis by (intro quiet) (use EnqSeq st s' in \<open>auto simp: Let_def split: if_splits\<close>)
  next
    case (DeqSeq p)
    show ?thesis by (intro quiet) (use DeqSeq st s' in \<open>auto simp: Let_def split: if_splits\<close>)
  next
    case (EnqCas v p)
    show ?thesis
      by (intro quiet) (use EnqCas st s' de in \<open>auto simp: nth_append split: if_splits\<close>)
  qed (use st in auto; intro quiet; use st s' in auto)+
qed

lemma log_pcs:
  assumes "log_ok s" "\<And>p. pcs s t \<noteq> DeqRead p" "\<And>p. c' \<noteq> DeqRead p"
  shows "log_ok (s\<lparr>pcs := (pcs s)(t := c')\<rparr>)"
  by (rule log_ok_frame [OF assms(1)]) (use assms in auto)

lemma log_step:
  assumes "mpmc_step s s'" "mpmc_inv s k tk full" "log_ok s" "length (enq_log s) + 2 ^ k < 2 ^ 63"
  shows "log_ok s'"
  using assms
proof (induction rule: mpmc_step.induct)
  case (run b s t q' c')
  show ?case by (rule log_run [OF run(2,3,1) refl run(4)])
qed (rule log_pcs; simp)+

lemma reachable_log:
  assumes "mpmc_reachable q s" "mpmc_inv (mpmc_init q) k tk0 full0" "deq_pos q = 0"
    and "length (enq_log s) + 2 ^ k < 2 ^ 63"
  shows "log_ok s"
  using assms
proof (induction rule: mpmc_reachable.induct)
  case init
  then show ?case by (simp add: log_ok_def mpmc_init_def)
next
  case (step s s')
  then have b: "length (enq_log s) + 2 ^ k < 2 ^ 63" using step_log_mono [of s s'] by linarith
  with step reachable_inv [of q s] obtain tk full where "mpmc_inv s k tk full" by blast
  with step b show ?case by (intro log_step [of s s' k]) auto
qed

subsection \<open>Calls that do not overlap\<close>

text \<open>
  Between calls every thread is ready. Such a queue is described by the values enqueued so far;
  \<open>seq_inv m q\<close> also leaves room for \<open>m\<close> more enqueues below position \<open>2 ^ 63\<close>.
\<close>

definition idle_sys :: "'a MPMCQueue \<Rightarrow> 'a list \<Rightarrow> 'a sys" where
  "idle_sys q es = \<lparr>queue = q, pcs = (\<lambda>_. Ready), enq_log = es, deq_log = []\<rparr>"

definition seq_inv :: "nat \<Rightarrow> 'a MPMCQueue \<Rightarrow> bool" where
  "seq_inv m q \<longleftrightarrow> (\<exists>es k tk full. mpmc_inv (idle_sys q es) k tk full \<and>
     length es + m + 2 ^ k < 2 ^ 63)"

definition contents :: "'a MPMCQueue \<Rightarrow> 'a list" where
  "contents q = map (\<lambda>i. val (buffer q ! (i mod unat (capacity q))))
     [unat (deq_pos q)..<unat (enq_pos q)]"

lemma idle_sys_sel [simp]:
  "queue (idle_sys q es) = q" "pcs (idle_sys q es) t = Ready" "enq_log (idle_sys q es) = es"
  by (simp_all add: idle_sys_def)

lemma idle_cell:
  assumes inv: "mpmc_inv (idle_sys q es) k tk full" and i: "unat (deq_pos q) \<le> i" "i < length es"
  shows "val (buffer q ! (i mod 2 ^ k)) = es ! i" "tk (i mod 2 ^ k) = i" "full (i mod 2 ^ k)"
proof -
  let ?j = "i mod 2 ^ k"
  have ok: "cell_ok (idle_sys q es) (2 ^ k) tk full ?j" by (rule inv_cell [OF inv]) simp
  then have m: "tk ?j mod 2 ^ k = i mod 2 ^ k" "tk ?j < unat (deq_pos q) + 2 ^ k"
    "length es \<le> tk ?j + 2 ^ k"
    by (simp_all add: cell_ok_def Let_def)
  then show t: "tk ?j = i" using i by (intro mod_eq_window [OF m(1)]) auto
  show f: "full ?j"
  proof (rule ccontr)
    assume "\<not> full ?j"
    with ok have "length es \<le> tk ?j" by (auto simp: cell_ok_def Let_def not_less)
    with t i show False by simp
  qed
  from ok t f show "val (buffer q ! ?j) = es ! i" by (simp add: cell_ok_def Let_def)
qed

lemma idle_contents:
  assumes inv: "mpmc_inv (idle_sys q es) k tk full" and small: "length es < 2 ^ 63"
  shows "contents q = drop (unat (deq_pos q)) es"
proof -
  have cap: "unat (capacity q) = 2 ^ k" and e: "unat (enq_pos q) = length es"
    using inv small by (auto simp: mpmc_inv_def shape_ok_def unat_of_nat_u64)
  have "unat (deq_pos q) \<le> length es" using inv by (simp add: mpmc_inv_def)
  then show ?thesis
    by (intro nth_equalityI) (simp_all add: contents_def cap e idle_cell [OF inv])
qed

lemma seq_inv_size: "seq_inv m q \<Longrightarrow> length (contents q) \<le> unat (capacity q)"
proof -
  assume "seq_inv m q"
  then obtain es k tk full where inv: "mpmc_inv (idle_sys q es) k tk full"
    and b: "length es + m + 2 ^ k < 2 ^ 63" by (auto simp: seq_inv_def)
  from b have "length es < 2 ^ 63" by linarith
  from idle_contents [OF inv this] inv_size [OF inv] inv show ?thesis
    by (simp add: mpmc_inv_def shape_ok_def)
qed

text \<open>The five steps of a call, from the loop's first load to the return.\<close>

lemmas run_op_simps = try_enqueue_def try_dequeue_def run_op.simps eval_nat_numeral Let_def

lemma idle_upd: "(idle_sys q es)\<lparr>pcs := (pcs (idle_sys q es))(t := Ready)\<rparr> = idle_sys q es"
  by (simp add: idle_sys_def fun_eq_iff)

lemma idle_enq_inv:
  fixes v :: 'a
  assumes inv: "mpmc_inv (idle_sys q es) k tk full" and b: "length es + 1 + 2 ^ k < 2 ^ 63"
    and p: "p = enq_pos q" and hit: "sint (seq (cell_at q p) - p) = 0"
  defines "q' \<equiv> set_cell (set_cell (q\<lparr>enq_pos := p + 1\<rparr>) p (\<lambda>c. c\<lparr>val := v\<rparr>)) p (\<lambda>c. c\<lparr>seq := p + 1\<rparr>)"
  shows "\<exists>tk' full'. mpmc_inv (idle_sys q' (es @ [v])) k tk' full'"
proof -
  define S where "S q c es = \<lparr>queue = q, pcs = (\<lambda>_. Ready)(0 := c), enq_log = es, deq_log = []\<rparr>"
    for q :: "'a MPMCQueue" and c es
  have b0: "length es + 2 ^ k < 2 ^ 63" and b1: "length es + 1 < 2 ^ 63" using b by linarith+
  have pe: "unat p = length es" using inv b0 p by (simp add: mpmc_inv_def unat_of_nat_u64)
  have 1: "mpmc_inv (S q (EnqSeq v p) es) k tk full"
    by (rule inv_pcs [OF inv, of "EnqSeq v p" 0]) (auto simp: S_def pe idle_sys_def)
  have "pc_ok (S q (EnqSeq v p) es) (2 ^ k) tk full (EnqCas v p)"
    by (rule enq_seq_hit [OF 1, of 0]) (use b0 hit in \<open>auto simp: S_def\<close>)
  then have 2: "mpmc_inv (S q (EnqCas v p) es) k tk full"
    by (intro inv_pcs [OF 1, of "EnqCas v p" 0]) (auto simp: S_def)
  have 3: "mpmc_inv (S (q\<lparr>enq_pos := p + 1\<rparr>) (EnqWrite v p) (es @ [v])) k tk full"
    by (rule inv_enq_cas [OF 2, of 0 v p]) (use p b1 in \<open>auto simp: S_def\<close>)
  let ?q4 = "set_cell (q\<lparr>enq_pos := p + 1\<rparr>) p (\<lambda>c. c\<lparr>val := v\<rparr>)"
  have 4: "mpmc_inv (S ?q4 (EnqStore v p) (es @ [v])) k tk full"
    by (rule inv_enq_write [OF 3, of 0 v p]) (auto simp: S_def)
  have 5: "mpmc_inv (S q' (EnqRet True) (es @ [v])) k tk (full(unat p mod 2 ^ k := True))"
    by (rule inv_enq_store [OF 4, of 0 v p]) (auto simp: S_def q'_def)
  show ?thesis
    by (rule inv_exI, rule inv_pcs [OF 5, of Ready 0]) (auto simp: S_def idle_sys_def)
qed

lemma idle_deq_inv:
  assumes inv: "mpmc_inv (idle_sys q es) k tk full" and b: "length es + 2 ^ k < 2 ^ 63"
    and p: "p = deq_pos q" and hit: "sint (seq (cell_at q p) - (p + 1)) = 0"
  defines "q' \<equiv> set_cell (q\<lparr>deq_pos := p + 1\<rparr>) p (\<lambda>c. c\<lparr>seq := p + capacity q\<rparr>)"
  shows "(\<exists>tk' full'. mpmc_inv (idle_sys q' es) k tk' full')"
proof -
  define S where "S q c = \<lparr>queue = q, pcs = (\<lambda>_. Ready)(0 := c), enq_log = es, deq_log = []\<rparr>"
    for q :: "'a MPMCQueue" and c
  have b0: "length es < 2 ^ 63" using b by linarith
  have 1: "mpmc_inv (S q (DeqSeq p)) k tk full"
    by (rule inv_pcs [OF inv, of "DeqSeq p" 0]) (auto simp: S_def p idle_sys_def)
  have "pc_ok (S q (DeqSeq p)) (2 ^ k) tk full (DeqCas p)"
    by (rule deq_seq_hit [OF 1, of 0]) (use b hit in \<open>auto simp: S_def\<close>)
  then have 2: "mpmc_inv (S q (DeqCas p)) k tk full"
    by (intro inv_pcs [OF 1, of "DeqCas p" 0]) (auto simp: S_def)
  have 3: "mpmc_inv (S (q\<lparr>deq_pos := p + 1\<rparr>) (DeqRead p)) k tk full"
    by (rule inv_deq_cas [OF 2, of 0 p]) (use p b0 in \<open>auto simp: S_def\<close>)
  have 4: "mpmc_inv (S (q\<lparr>deq_pos := p + 1\<rparr>) (DeqStore p (es ! unat p))) k tk full"
    using inv_pc [OF 3, of 0] by (intro inv_pcs [OF 3, of _ 0]) (auto simp: S_def)
  have 5: "mpmc_inv (S q' (DeqRet (Some (es ! unat p)))) k
      (tk(unat p mod 2 ^ k := unat p + 2 ^ k)) (full(unat p mod 2 ^ k := False))"
    by (rule inv_deq_store [OF 4, of 0]) (auto simp: S_def q'_def)
  show ?thesis
    by (rule inv_exI, rule inv_pcs [OF 5, of Ready 0]) (auto simp: S_def idle_sys_def)
qed

lemma try_enqueue_hit:
  assumes "sint (seq (cell_at q (enq_pos q)) - enq_pos q) = 0"
  shows "try_enqueue v q = Some (set_cell (set_cell (q\<lparr>enq_pos := enq_pos q + 1\<rparr>) (enq_pos q)
     (\<lambda>c. c\<lparr>val := v\<rparr>)) (enq_pos q) (\<lambda>c. c\<lparr>seq := enq_pos q + 1\<rparr>), True)"
  using assms by (simp add: run_op_simps)

lemma try_enqueue_miss:
  "sint (seq (cell_at q (enq_pos q)) - enq_pos q) < 0 \<Longrightarrow> try_enqueue v q = Some (q, False)"
  by (simp add: run_op_simps)

lemma try_dequeue_hit:
  assumes "sint (seq (cell_at q (deq_pos q)) - (deq_pos q + 1)) = 0"
  shows "try_dequeue q = Some (set_cell (q\<lparr>deq_pos := deq_pos q + 1\<rparr>) (deq_pos q)
     (\<lambda>c. c\<lparr>seq := deq_pos q + capacity q\<rparr>),
     Some (val (cell_at (q\<lparr>deq_pos := deq_pos q + 1\<rparr>) (deq_pos q))))"
  using assms by (simp add: run_op_simps)

lemma try_dequeue_miss:
  "sint (seq (cell_at q (deq_pos q)) - (deq_pos q + 1)) < 0 \<Longrightarrow> try_dequeue q = Some (q, None)"
  by (simp add: run_op_simps)

lemma seq_inv_enqueue:
  assumes si: "seq_inv (Suc m) q" and room: "length (contents q) < unat (capacity q)"
  shows "\<exists>q'. try_enqueue v q = Some (q', True) \<and> seq_inv m q' \<and>
    contents q' = contents q @ [v] \<and> capacity q' = capacity q"
proof -
  from si obtain es k tk full where inv: "mpmc_inv (idle_sys q es) k tk full"
    and b: "length es + Suc m + 2 ^ k < 2 ^ 63" by (auto simp: seq_inv_def)
  let ?e = "length es" and ?j = "length es mod 2 ^ k"
  have b0: "?e + 2 ^ k < 2 ^ 63" and b1: "?e + 1 + 2 ^ k < 2 ^ 63" and b2: "?e < 2 ^ 63"
    and b3: "length (es @ [v]) < 2 ^ 63" using b by simp_all
  have pe: "unat (enq_pos q) = ?e" and cap: "unat (capacity q) = 2 ^ k"
    and de: "unat (deq_pos q) \<le> ?e"
    using inv b2 by (auto simp: mpmc_inv_def shape_ok_def unat_of_nat_u64)
  have room': "?e < unat (deq_pos q) + 2 ^ k"
    using room idle_contents [OF inv b2] de by (simp add: cap)
  have ok: "cell_ok (idle_sys q es) (2 ^ k) tk full ?j" by (rule inv_cell [OF inv]) simp
  have "tk ?j = ?e \<and> \<not> full ?j"
  proof (cases "full ?j")
    case True
    with ok have f: "tk ?j mod 2 ^ k = ?e mod 2 ^ k" "tk ?j < ?e" "unat (deq_pos q) \<le> tk ?j"
      by (auto simp: cell_ok_def Let_def not_less)
    from f room' have "tk ?j = ?e" by (intro mod_eq_window [OF f(1)]) auto
    with f show ?thesis by simp
  next
    case False
    with ok have f: "tk ?j mod 2 ^ k = ?e mod 2 ^ k" "?e \<le> tk ?j" "tk ?j < unat (deq_pos q) + 2 ^ k"
      by (auto simp: cell_ok_def Let_def not_less)
    from f de have "tk ?j = ?e" by (intro mod_eq_window [OF f(1)]) auto
    with False show ?thesis by simp
  qed
  then have hit: "sint (seq (cell_at q (enq_pos q)) - enq_pos q) = 0"
    using seq_diff [OF inv, of "enq_pos q" "enq_pos q"] b0 b2 by (simp add: pe seq_nat_def)
  define q' where "q' = set_cell (set_cell (q\<lparr>enq_pos := enq_pos q + 1\<rparr>) (enq_pos q)
     (\<lambda>c. c\<lparr>val := v\<rparr>)) (enq_pos q) (\<lambda>c. c\<lparr>seq := enq_pos q + 1\<rparr>)"
  obtain tk' full' where inv': "mpmc_inv (idle_sys q' (es @ [v])) k tk' full'"
    using idle_enq_inv [OF inv b1 refl hit, of v] by (auto simp: q'_def)
  have "seq_inv m q'"
    unfolding seq_inv_def by (intro exI conjI, rule inv') (use b in simp)
  moreover have "contents q' = contents q @ [v]"
    using idle_contents [OF inv b2] idle_contents [OF inv' b3] de by (simp add: q'_def)
  ultimately show ?thesis
    using try_enqueue_hit [OF hit, of v] by (simp add: q'_def)
qed

lemma seq_inv_enqueue_full:
  assumes si: "seq_inv m q" and full: "length (contents q) = unat (capacity q)"
  shows "try_enqueue v q = Some (q, False)"
proof -
  from si obtain es k tk full where inv: "mpmc_inv (idle_sys q es) k tk full"
    and b: "length es + m + 2 ^ k < 2 ^ 63" by (auto simp: seq_inv_def)
  let ?e = "length es" and ?j = "length es mod 2 ^ k"
  have b0: "?e + 2 ^ k < 2 ^ 63" and b2: "?e < 2 ^ 63" using b by linarith+
  have pe: "unat (enq_pos q) = ?e" and cap: "unat (capacity q) = 2 ^ k" and k: "2 \<le> (2::nat) ^ k"
    using inv b2 by (auto simp: mpmc_inv_def shape_ok_def unat_of_nat_u64 intro: shape_round)
  have e: "?e = unat (deq_pos q) + 2 ^ k"
    using full idle_contents [OF inv b2] k by (simp add: cap)
  have "?j = unat (deq_pos q) mod 2 ^ k" by (simp add: e)
  with idle_cell [OF inv, of "unat (deq_pos q)"] e k
  have "tk ?j = unat (deq_pos q)" "full ?j" by auto
  moreover have "0 < k" using inv by (simp add: mpmc_inv_def shape_ok_def)
  ultimately have "sint (seq (cell_at q (enq_pos q)) - enq_pos q) < 0"
    using seq_diff [OF inv, of "enq_pos q" "enq_pos q"] b0 b2 e k by (simp add: pe seq_nat_def)
  then show ?thesis by (rule try_enqueue_miss)
qed

lemma seq_inv_dequeue:
  assumes si: "seq_inv m q" and cs: "contents q = x # xs"
  shows "\<exists>q'. try_dequeue q = Some (q', Some x) \<and> seq_inv m q' \<and> contents q' = xs \<and>
    capacity q' = capacity q"
proof -
  from si obtain es k tk full where inv: "mpmc_inv (idle_sys q es) k tk full"
    and b: "length es + m + 2 ^ k < 2 ^ 63" by (auto simp: seq_inv_def)
  let ?d = "unat (deq_pos q)"
  have b0: "length es + 2 ^ k < 2 ^ 63" and b2: "length es < 2 ^ 63" using b by linarith+
  have ds: "drop ?d es = x # xs" using idle_contents [OF inv b2] cs by simp
  then have lt: "?d < length es" by (metis drop_eq_Nil list.distinct(1) not_less)
  then have hd: "es ! ?d = x" and tl: "drop (Suc ?d) es = xs"
    using ds by (simp_all add: Cons_nth_drop_Suc [symmetric])
  note cell = idle_cell [OF inv order_refl lt]
  have sh: "shape_ok q k" using inv by (simp add: mpmc_inv_def)
  have le: "?d \<le> length es" using lt by simp
  note p1 = pos_inc_small [OF le b0]
  have hit: "sint (seq (cell_at q (deq_pos q)) - (deq_pos q + 1)) = 0"
    using seq_diff [OF inv, of "deq_pos q + 1" "deq_pos q"] b0 p1 cell by (simp add: seq_nat_def)
  define q' where "q' = set_cell (q\<lparr>deq_pos := deq_pos q + 1\<rparr>) (deq_pos q)
     (\<lambda>c. c\<lparr>seq := deq_pos q + capacity q\<rparr>)"
  obtain tk' full' where inv': "mpmc_inv (idle_sys q' es) k tk' full'"
    using idle_deq_inv [OF inv b0 refl hit] by (auto simp: q'_def)
  have "seq_inv m q'" unfolding seq_inv_def by (intro exI conjI, rule inv') (use b in simp)
  moreover have "contents q' = xs"
    using idle_contents [OF inv' b2] tl p1 by (simp add: q'_def)
  moreover have "val (cell_at (q\<lparr>deq_pos := deq_pos q + 1\<rparr>) (deq_pos q)) = x"
    using cell hd by (simp add: cell_at_def cell_ix_mod [of _ k] sh)
  ultimately show ?thesis
    using try_dequeue_hit [OF hit] by (simp add: q'_def)
qed

lemma seq_inv_dequeue_empty:
  assumes si: "seq_inv m q" and cs: "contents q = []"
  shows "try_dequeue q = Some (q, None)"
proof -
  from si obtain es k tk full where inv: "mpmc_inv (idle_sys q es) k tk full"
    and b: "length es + m + 2 ^ k < 2 ^ 63" by (auto simp: seq_inv_def)
  let ?d = "unat (deq_pos q)" and ?j = "unat (deq_pos q) mod 2 ^ k"
  have b0: "length es + 2 ^ k < 2 ^ 63" and b2: "length es < 2 ^ 63" using b by linarith+
  have "?d \<le> length es" using inv by (simp add: mpmc_inv_def)
  moreover have "length es \<le> ?d" using idle_contents [OF inv b2] cs by simp
  ultimately have d: "?d = length es" by simp
  then have le: "?d \<le> length es" by simp
  note p1 = pos_inc_small [OF le b0]
  have ok: "cell_ok (idle_sys q es) (2 ^ k) tk full ?j" by (rule inv_cell [OF inv]) simp
  have "seq_nat tk full ?j \<le> ?d"
  proof (cases "full ?j")
    case True
    with ok d show ?thesis by (simp add: cell_ok_def Let_def seq_nat_def)
  next
    case False
    with ok d have f: "tk ?j mod 2 ^ k = ?d mod 2 ^ k" "tk ?j < ?d + 2 ^ k" "?d \<le> tk ?j"
      by (auto simp: cell_ok_def Let_def not_less)
    then have "tk ?j = ?d" by (intro mod_eq_window [OF f(1)]) auto
    with False show ?thesis by (simp add: seq_nat_def)
  qed
  then have "sint (seq (cell_at q (deq_pos q)) - (deq_pos q + 1)) < 0"
    using seq_diff [OF inv, of "deq_pos q + 1" "deq_pos q"] b0 p1 by simp
  then show ?thesis by (rule try_dequeue_miss)
qed

lemma seq_inv_mono: "seq_inv (Suc m) q \<Longrightarrow> seq_inv m q"
  unfolding seq_inv_def by (metis add_Suc_right add_Suc Suc_lessD)

lemma new_seq_inv:
  assumes "MPMCQueue_new dflt cap = Some q" "2 \<le> unat cap" "unat cap + m < 2 ^ 63"
  shows "seq_inv m q" "contents q = []" "capacity q = cap"
proof -
  have "unat cap < 2 ^ 63" using assms by linarith
  from new_inv [OF assms(1,2) this] obtain k where k: "unat cap = 2 ^ k"
    "mpmc_inv (mpmc_init q) k id (\<lambda>_. False)" by metis
  moreover have "mpmc_init q = idle_sys q []" by (simp add: mpmc_init_def idle_sys_def)
  ultimately show "seq_inv m q"
    unfolding seq_inv_def using assms(3)
    by (intro exI [of _ "[]"] exI [of _ k] exI [of _ id] exI [of _ "\<lambda>_. False"]) simp
  show "contents q = []" "capacity q = cap"
    using assms(1) by (auto simp: MPMCQueue_new_def contents_def split: if_splits)
qed

subsection \<open>The interface its clients use\<close>

text \<open>
  What a producer or a consumer that does not overlap with another call relies on: a bounded
  FIFO queue. \<open>inv m\<close> says that \<open>m\<close> more enqueues may follow.
\<close>

locale bounded_queue =
  fixes enq :: "'a \<Rightarrow> 'q \<Rightarrow> ('q \<times> bool) option"
    and deq :: "'q \<Rightarrow> ('q \<times> 'a option) option"
    and items :: "'q \<Rightarrow> 'a list"
    and cap :: "'q \<Rightarrow> nat"
    and inv :: "nat \<Rightarrow> 'q \<Rightarrow> bool"
  assumes size_le: "inv m q \<Longrightarrow> length (items q) \<le> cap q"
    and enq_room: "inv (Suc m) q \<Longrightarrow> length (items q) < cap q \<Longrightarrow>
      \<exists>q'. enq v q = Some (q', True) \<and> inv m q' \<and> items q' = items q @ [v] \<and> cap q' = cap q"
    and enq_full: "inv m q \<Longrightarrow> length (items q) = cap q \<Longrightarrow> enq v q = Some (q, False)"
    and deq_item: "inv m q \<Longrightarrow> items q = x # xs \<Longrightarrow>
      \<exists>q'. deq q = Some (q', Some x) \<and> inv m q' \<and> items q' = xs \<and> cap q' = cap q"
    and deq_empty: "inv m q \<Longrightarrow> items q = [] \<Longrightarrow> deq q = Some (q, None)"

text \<open>A producer that enqueues a sequence without waiting, and a consumer that takes \<open>n\<close> items.\<close>

fun enqueue_all :: "('a \<Rightarrow> 'q \<Rightarrow> ('q \<times> bool) option) \<Rightarrow> 'a list \<Rightarrow> 'q \<Rightarrow> 'q option" where
  "enqueue_all enq [] q = Some q"
| "enqueue_all enq (v # vs) q =
     (case enq v q of Some (q', True) \<Rightarrow> enqueue_all enq vs q' | _ \<Rightarrow> None)"

fun dequeue_n :: "('q \<Rightarrow> ('q \<times> 'a option) option) \<Rightarrow> nat \<Rightarrow> 'q \<Rightarrow> ('q \<times> 'a list) option" where
  "dequeue_n deq 0 q = Some (q, [])"
| "dequeue_n deq (Suc n) q =
     (case deq q of
        Some (q', Some x) \<Rightarrow> map_option (\<lambda>(q'', xs). (q'', x # xs)) (dequeue_n deq n q')
      | _ \<Rightarrow> None)"

context bounded_queue
begin

lemma enqueue_all_fits:
  assumes "inv (length vs + m) q" "length (items q) + length vs \<le> cap q"
  shows "\<exists>q'. enqueue_all enq vs q = Some q' \<and> inv m q' \<and> items q' = items q @ vs \<and> cap q' = cap q"
  using assms
proof (induction vs arbitrary: q)
  case (Cons v vs)
  then obtain q' where q': "enq v q = Some (q', True)" "inv (length vs + m) q'"
      "items q' = items q @ [v]" "cap q' = cap q"
    using enq_room [of "length vs + m" q v] by auto
  with Cons.IH [of q'] Cons.prems show ?case by auto
qed simp

lemma dequeue_n_takes:
  assumes "inv m q" "items q = xs @ ys"
  shows "\<exists>q'. dequeue_n deq (length xs) q = Some (q', xs) \<and> inv m q' \<and> items q' = ys \<and> cap q' = cap q"
  using assms
proof (induction xs arbitrary: q)
  case (Cons x xs)
  then obtain q' where "deq q = Some (q', Some x)" "inv m q'" "items q' = xs @ ys" "cap q' = cap q"
    using deq_item [of m q x "xs @ ys"] by auto
  with Cons.IH [of q'] show ?case by auto
qed simp

lemma fifo:
  assumes "inv (length vs + m) q" "items q = []" "length vs \<le> cap q"
  shows "\<exists>q' q''. enqueue_all enq vs q = Some q' \<and> dequeue_n deq (length vs) q' = Some (q'', vs) \<and>
    items q'' = []"
proof -
  from assms enqueue_all_fits [of vs m q] obtain q' where
    "enqueue_all enq vs q = Some q'" "inv m q'" "items q' = vs" by auto
  moreover from this dequeue_n_takes [of m q' vs "[]"] show ?thesis by auto
qed

end

interpretation mpmc: bounded_queue try_enqueue try_dequeue contents "\<lambda>q. unat (capacity q)" seq_inv
proof (unfold_locales, goal_cases)
  case (1 m q)
  then show ?case by (rule seq_inv_size)
next
  case (2 m q v)
  then show ?case using seq_inv_enqueue [of m q v] by auto
next
  case (3 m q v)
  then show ?case by (rule seq_inv_enqueue_full)
next
  case (4 m q x xs)
  then show ?case using seq_inv_dequeue [of m q x xs] by auto
next
  case (5 m q)
  then show ?case by (rule seq_inv_dequeue_empty)
qed

subsection \<open>Capacity one\<close>

text \<open>
  The constructor accepts capacity 1, where the sequence number of a published cell equals the
  next enqueue position.
\<close>

definition cap1_queue :: "u64 \<Rightarrow> u64 \<Rightarrow> u64 MPMCQueue" where
  "cap1_queue a b = \<lparr>buffer = [\<lparr>seq = 2, val = b\<rparr>], capacity = 1, qmask = 0, enq_pos = 2, deq_pos = 0\<rparr>"

lemma cap1_loop: "run_op n (cap1_queue a b, DeqLoad) = None \<and> run_op n (cap1_queue a b, DeqSeq 0) = None"
proof (induction n)
  case (Suc n)
  then show ?case
    by (simp add: cap1_queue_def cell_at_def cell_ix_def Let_def)
qed (simp add: cap1_queue_def cell_at_def cell_ix_def Let_def)

subsection \<open>Schedules\<close>

text \<open>An executable form of the step relation: a schedule names the thread and its action.\<close>

datatype 'a action = CallEnq nat 'a | CallDeq nat | Return nat | Run nat bool

fun is_ret :: "'a pc \<Rightarrow> bool" where
  "is_ret (EnqRet b) = True"
| "is_ret (DeqRet r) = True"
| "is_ret _ = False"

fun sys_step :: "'a action \<Rightarrow> 'a sys \<Rightarrow> 'a sys option" where
  "sys_step (CallEnq t v) s =
     (case pcs s t of Ready \<Rightarrow> Some (s\<lparr>pcs := (pcs s)(t := EnqLoad v)\<rparr>) | _ \<Rightarrow> None)"
| "sys_step (CallDeq t) s =
     (case pcs s t of Ready \<Rightarrow> Some (s\<lparr>pcs := (pcs s)(t := DeqLoad)\<rparr>) | _ \<Rightarrow> None)"
| "sys_step (Return t) s =
     (if is_ret (pcs s t) then Some (s\<lparr>pcs := (pcs s)(t := Ready)\<rparr>) else None)"
| "sys_step (Run t b) s =
     (case thread_step b (queue s) (pcs s t) of
        None \<Rightarrow> None
      | Some (q', c') \<Rightarrow>
          Some \<lparr>queue = q', pcs = (pcs s)(t := c'),
                enq_log = enq_log s @ logged_enq (pcs s t) c',
                deq_log = deq_log s @ logged_deq (pcs s t) c'\<rparr>)"

fun run_schedule :: "'a action list \<Rightarrow> 'a sys \<Rightarrow> 'a sys option" where
  "run_schedule [] s = Some s"
| "run_schedule (a # as) s = (case sys_step a s of None \<Rightarrow> None | Some s' \<Rightarrow> run_schedule as s')"

lemma sys_step_sound: "sys_step a s = Some s' \<Longrightarrow> mpmc_step s s'"
proof (cases a)
  case (Return t)
  assume "sys_step a s = Some s'"
  with Return show ?thesis
    by (cases "pcs s t") (auto intro: return_enqueue return_dequeue)
qed (auto split: pc.splits option.splits intro: mpmc_step.intros)

lemma run_schedule_reachable:
  "mpmc_reachable q s \<Longrightarrow> run_schedule as s = Some s' \<Longrightarrow> mpmc_reachable q s'"
proof (induction as arbitrary: s)
  case (Cons a as)
  then obtain s1 where "sys_step a s = Some s1" "run_schedule as s1 = Some s'"
    by (auto split: option.splits)
  with Cons show ?case by (blast intro: mpmc_reachable.step sys_step_sound)
qed simp

subsection \<open>Properties\<close>

text \<open>The cell a thread may touch without synchronisation, or is about to publish.\<close>

fun owned_pos :: "'a pc \<Rightarrow> u64 option" where
  "owned_pos (EnqWrite v p) = Some p"
| "owned_pos (EnqStore v p) = Some p"
| "owned_pos (DeqRead p) = Some p"
| "owned_pos (DeqStore p x) = Some p"
| "owned_pos _ = None"

lemma owned_exclusive:
  assumes inv: "mpmc_inv s k tk full" and tu: "t \<noteq> u"
    and o: "owned_pos (pcs s t) = Some p" "owned_pos (pcs s u) = Some r"
  shows "unat p mod 2 ^ k \<noteq> unat r mod 2 ^ k"
proof
  assume same: "unat p mod 2 ^ k = unat r mod 2 ^ k"
  have kind: "(enq_owned (pcs s v) = Some (unat w) \<and> \<not> full (unat w mod 2 ^ k) \<or>
       deq_owned (pcs s v) = Some (unat w) \<and> full (unat w mod 2 ^ k)) \<and> tk (unat w mod 2 ^ k) = unat w"
    if "owned_pos (pcs s v) = Some w" for v w
    using that inv_pc [OF inv, of v] by (cases "pcs s v") auto
  from kind [OF o(1)] kind [OF o(2)] same inv tu show False
    unfolding mpmc_inv_def by metis
qed

lemma quiescent_log:
  assumes inv: "mpmc_inv s k tk full" and lg: "log_ok s" and idle: "\<forall>t. pcs s t = Ready"
    and b: "length (enq_log s) + 2 ^ k < 2 ^ 63"
  shows "contents (queue s) = drop (unat (deq_pos (queue s))) (enq_log s)"
    and "set (deq_log s) = set (enumerate 0 (take (unat (deq_pos (queue s))) (enq_log s)))"
proof -
  let ?d = "unat (deq_pos (queue s))"
  have "mpmc_inv (idle_sys (queue s) (enq_log s)) k tk full"
    by (rule inv_pcs [OF inv, of Ready 0]) (use idle in \<open>auto simp: idle_sys_def fun_eq_iff\<close>)
  then show "contents (queue s) = drop ?d (enq_log s)"
    by (rule idle_contents) (use b in linarith)
  have de: "?d \<le> length (enq_log s)" using inv by (simp add: mpmc_inv_def)
  have "fst ` set (deq_log s) = {..<?d}"
    using lg idle by (force simp: log_ok_def)
  moreover have "x = enq_log s ! i" "i < ?d" if "(i, x) \<in> set (deq_log s)" for i x
    using lg that by (auto simp: log_ok_def)
  ultimately have "(i, x) \<in> set (deq_log s) \<longleftrightarrow> i < ?d \<and> x = enq_log s ! i" for i x
    by (metis (no_types, lifting) imageE lessThan_iff prod.collapse)
  then show "set (deq_log s) = set (enumerate 0 (take ?d (enq_log s)))"
    using de by (auto simp: in_set_enumerate_eq split: if_splits)
qed

text \<open>What the invariant gives in any state reachable from a fresh queue.\<close>

lemma reachable_facts:
  assumes "MPMCQueue_new dflt cap = Some q" "2 \<le> unat cap" "mpmc_reachable q s"
    and b: "length (enq_log s) + unat cap < 2 ^ 63"
  obtains k tk full where "unat cap = 2 ^ k" "mpmc_inv s k tk full" "log_ok s"
    "length (enq_log s) + 2 ^ k < 2 ^ 63"
proof -
  have "unat cap < 2 ^ 63" using b by linarith
  from new_inv [OF assms(1,2) this] obtain k where k: "unat cap = 2 ^ k"
    and i0: "mpmc_inv (mpmc_init q) k id (\<lambda>_. False)" by metis
  have bk: "length (enq_log s) + 2 ^ k < 2 ^ 63" using b k by simp
  have "deq_pos q = 0" using assms(1) by (auto simp: MPMCQueue_new_def split: if_splits)
  from that k reachable_inv [OF assms(3) i0 bk] reachable_log [OF assms(3) i0 this bk] bk
  show ?thesis by blast
qed

text \<open>A queue of two cells for the examples, and two schedules on it.\<close>

definition two_cells :: "u64 MPMCQueue" where
  "two_cells = \<lparr>buffer = [\<lparr>seq = 0, val = 0\<rparr>, \<lparr>seq = 1, val = 0\<rparr>], capacity = 2, qmask = 1,
     enq_pos = 0, deq_pos = 0\<rparr>"

lemma two_cells_new: "MPMCQueue_new 0 2 = Some two_cells"
  by (simp add: MPMCQueue_new_def two_cells_def upt_rec)

text \<open>Thread 0 and thread 1 both win a position; neither has published yet.\<close>

definition two_writers :: "u64 action list" where
  "two_writers = [CallEnq 0 7, CallEnq 1 8, Run 0 False, Run 1 False, Run 0 False, Run 1 False,
     Run 0 False, Run 1 False, Run 1 False, Run 1 False]"

text \<open>Thread 0 enqueues 7 and 8; thread 1 dequeues once, with a spurious failure.\<close>

definition enq_enq_deq :: "u64 action list" where
  "enq_enq_deq = [CallEnq 0 7] @ replicate 5 (Run 0 False) @ [Return 0, CallEnq 0 8] @
     replicate 5 (Run 0 False) @ [Return 0, CallDeq 1, Run 1 False, Run 1 False, Run 1 True] @
     replicate 4 (Run 1 False) @ [Return 1]"

lemmas sched_simps = mpmc_init_def two_cells_def cell_at_def cell_ix_def set_cell_def Let_def
  numeral_2_eq_2 eval_nat_numeral(2,3)

definition race_state :: "u64 sys" where
  "race_state = the (run_schedule two_writers (mpmc_init two_cells))"

definition served_state :: "u64 sys" where
  "served_state = the (run_schedule enq_enq_deq (mpmc_init two_cells))"

lemma race_state_eq:
  "run_schedule two_writers (mpmc_init two_cells) = Some race_state"
  "pcs race_state 0 = EnqWrite 7 0" "pcs race_state (Suc 0) = EnqWrite 8 1" "enq_log race_state = [7, 8]"
  by (simp_all add: race_state_def two_writers_def sched_simps)

lemma served_state_eq:
  "run_schedule enq_enq_deq (mpmc_init two_cells) = Some served_state"
  "\<forall>t. pcs served_state t = Ready" "enq_log served_state = [7, 8]"
  "deq_log served_state = [(0, 7)]" "deq_pos (queue served_state) = 1"
  by (simp_all add: served_state_def enq_enq_deq_def sched_simps)

text \<open>Thread 0 has loaded the dequeue position of the empty queue.\<close>

definition probe_state :: "u64 sys" where
  "probe_state = the (run_schedule [CallDeq 0, Run 0 False] (mpmc_init two_cells))"

lemma probe_state_eq:
  "run_schedule [CallDeq 0, Run 0 False] (mpmc_init two_cells) = Some probe_state"
  "pcs probe_state = (\<lambda>_. Ready)(0 := DeqSeq 0)" "enq_log probe_state = []"
  "queue probe_state = two_cells"
  "thread_step False two_cells (DeqSeq 0) = Some (two_cells, DeqRet None)"
  by (simp_all add: probe_state_def sched_simps)

lemma probe_state_reachable: "mpmc_reachable two_cells probe_state"
  by (rule run_schedule_reachable [OF mpmc_reachable.init probe_state_eq(1)])

lemma race_state_reachable: "mpmc_reachable two_cells race_state"
  by (rule run_schedule_reachable [OF mpmc_reachable.init race_state_eq(1)])

lemma served_state_reachable: "mpmc_reachable two_cells served_state"
  by (rule run_schedule_reachable [OF mpmc_reachable.init served_state_eq(1)])

text \<open>
  In every interleaving of enqueues and dequeues, two threads that are between winning their
  position and publishing their cell work on different cells: the plain accesses to
  \<open>cell->value\<close> never race (capacity at least two, fewer than \<open>2 ^ 63\<close> positions used).
\<close>

theorem mpmc_no_race:
  assumes "MPMCQueue_new dflt cap = Some q" "2 \<le> unat cap" "mpmc_reachable q s"
    and "length (enq_log s) + unat cap < 2 ^ 63"
    and "t \<noteq> u" "owned_pos (pcs s t) = Some p" "owned_pos (pcs s u) = Some r"
  shows "cell_ix (queue s) p \<noteq> cell_ix (queue s) r"
proof -
  obtain k tk full where inv: "mpmc_inv s k tk full" by (rule reachable_facts [OF assms(1-4)])
  then have "shape_ok (queue s) k" by (simp add: mpmc_inv_def)
  with owned_exclusive [OF inv assms(5-7)] show ?thesis by (simp add: cell_ix_mod)
qed

theorem mpmc_no_race_witness:
  "cell_ix (queue race_state) 0 \<noteq> cell_ix (queue race_state) 1"
  by (rule mpmc_no_race [OF two_cells_new _ race_state_reachable, of 0 1])
     (simp_all add: race_state_eq)

text \<open>
  C3. the queue is FIFO and loses nothing. In every reachable state the tickets read out are
  distinct, the value read out for a ticket is the value whose enqueue won that ticket, and the
  queue never holds more tickets than its capacity. When no call is in progress, exactly the
  first \<open>deq_pos_\<close> enqueued values have been read out and the cells hold the rest, in order.
\<close>

theorem mpmc_fifo:
  assumes "MPMCQueue_new dflt cap = Some q" "2 \<le> unat cap" "mpmc_reachable q s"
    and "length (enq_log s) + unat cap < 2 ^ 63"
  shows "distinct (map fst (deq_log s)) \<and>
    (\<forall>i x. (i, x) \<in> set (deq_log s) \<longrightarrow> i < length (enq_log s) \<and> x = enq_log s ! i) \<and>
    length (enq_log s) \<le> unat (deq_pos (queue s)) + unat cap \<and>
    ((\<forall>t. pcs s t = Ready) \<longrightarrow>
       set (deq_log s) = set (enumerate 0 (take (unat (deq_pos (queue s))) (enq_log s))) \<and>
       contents (queue s) = drop (unat (deq_pos (queue s))) (enq_log s))"
proof -
  obtain k tk full where k: "unat cap = 2 ^ k" and inv: "mpmc_inv s k tk full" and lg: "log_ok s"
    and b: "length (enq_log s) + 2 ^ k < 2 ^ 63"
    by (rule reachable_facts [OF assms])
  have "unat (deq_pos (queue s)) \<le> length (enq_log s)" using inv by (simp add: mpmc_inv_def)
  then have "\<forall>i x. (i, x) \<in> set (deq_log s) \<longrightarrow> i < length (enq_log s) \<and> x = enq_log s ! i"
    using lg unfolding log_ok_def by (metis less_le_trans)
  then show ?thesis
    using lg inv_size [OF inv] quiescent_log [OF inv lg _ b] by (simp add: log_ok_def k)
qed

theorem mpmc_fifo_witness:
  "deq_log served_state = [(0, 7)] \<and> contents (queue served_state) = [8]"
  using mpmc_fifo [OF two_cells_new _ served_state_reachable] by (simp add: served_state_eq)



text \<open>used without overlap, a fresh queue of capacity at least two is a bounded FIFO queue:
  any sequence that fits is accepted and comes out in the same order.
\<close>

theorem mpmc_sequential_fifo:
  assumes "MPMCQueue_new dflt cap = Some q" "2 \<le> unat cap" "unat cap + length vs < 2 ^ 63"
    and "length vs \<le> unat cap"
  shows "\<exists>q' q''. enqueue_all try_enqueue vs q = Some q' \<and>
    dequeue_n try_dequeue (length vs) q' = Some (q'', vs) \<and> contents q'' = []"
  using mpmc.fifo [of vs 0 q] new_seq_inv [OF assms(1,2), of "length vs"] assms by simp

theorem mpmc_sequential_fifo_witness:
  "\<exists>q' q''. enqueue_all try_enqueue [5, 6] two_cells = Some q' \<and>
    dequeue_n try_dequeue (length [5 :: u64, 6]) q' = Some (q'', [5, 6]) \<and> contents q'' = []"
  by (rule mpmc_sequential_fifo [OF two_cells_new]) simp_all

text \<open>
  C38. with capacity one, which the constructor's assertion accepts, the queue breaks: a second
  enqueue succeeds and overwrites the unread value, and the next dequeue never returns.
\<close>

theorem mpmc_capacity_one_broken:
  "\<exists>q q1. MPMCQueue_new 0 1 = Some q \<and> try_enqueue a q = Some (q1, True) \<and>
    try_enqueue b q1 = Some (cap1_queue a b, True) \<and>
    (\<forall>n. run_op n (cap1_queue a b, DeqLoad) = None)"
proof -
  define q :: "u64 MPMCQueue" where
    "q = \<lparr>buffer = [\<lparr>seq = 0, val = 0\<rparr>], capacity = 1, qmask = 0, enq_pos = 0, deq_pos = 0\<rparr>"
  define q1 where "q1 = q\<lparr>buffer := [\<lparr>seq = 1, val = a\<rparr>], enq_pos := 1\<rparr>"
  have "MPMCQueue_new 0 1 = Some q" by (simp add: MPMCQueue_new_def q_def)
  moreover have "try_enqueue a q = Some (q1, True)"
    by (subst try_enqueue_hit) (simp_all add: q_def q1_def cell_at_def cell_ix_def set_cell_def)
  moreover have "try_enqueue b q1 = Some (cap1_queue a b, True)"
    by (subst try_enqueue_hit)
      (simp_all add: q_def q1_def cap1_queue_def cell_at_def cell_ix_def set_cell_def)
  ultimately show ?thesis using cap1_loop by blast
qed

text \<open>C5. The queue stays well-formed: in every reachable state, whatever the threads do, capacity, mask and the
  number of cells are those of the constructor, every position addresses a cell of the buffer, the dequeue
  position is not ahead of the enqueue position and not more than the capacity behind it, and the size
  \<open>approx_size\<close> reports is the number of positions in between, never more than the capacity.\<close>

theorem mpmc_well_formed:
  assumes "MPMCQueue_new dflt cap = Some q" "2 \<le> unat cap" "mpmc_reachable q s"
    and "length (enq_log s) + unat cap < 2 ^ 63"
  shows "capacity (queue s) = cap \<and> qmask (queue s) = cap - 1 \<and> length (buffer (queue s)) = unat cap \<and>
    (\<forall>p. cell_ix (queue s) p < length (buffer (queue s))) \<and>
    unat (deq_pos (queue s)) \<le> unat (enq_pos (queue s)) \<and>
    unat (enq_pos (queue s)) \<le> unat (deq_pos (queue s)) + unat cap \<and>
    unat (approx_size (queue s)) = unat (enq_pos (queue s)) - unat (deq_pos (queue s)) \<and>
    unat (approx_size (queue s)) \<le> unat cap"
proof -
  obtain k tk full where k: "unat cap = 2 ^ k" and inv: "mpmc_inv s k tk full" by (rule reachable_facts [OF assms])
  let ?q = "queue s"
  from inv have sh: "shape_ok ?q k" and e: "enq_pos ?q = of_nat (length (enq_log s))"
    and d: "unat (deq_pos ?q) \<le> length (enq_log s)" by (simp_all add: mpmc_inv_def)
  have "unat (capacity ?q) = unat cap" using sh k by (simp add: shape_ok_def)
  then have cap: "capacity ?q = cap" by (simp only: word_unat_eq_iff)
  have ue: "unat (enq_pos ?q) = length (enq_log s)" unfolding e using assms(4) by (simp add: unat_of_nat_u64)
  have le: "deq_pos ?q \<le> enq_pos ?q" using d ue by (simp add: word_le_nat_alt)
  then have "unat (approx_size ?q) = unat (enq_pos ?q) - unat (deq_pos ?q)" by (simp add: approx_size_def Let_def unat_sub)
  moreover have "cell_ix ?q p < length (buffer ?q)" for p using sh by (simp add: cell_ix_mod) (simp add: shape_ok_def)
  ultimately show ?thesis using cap sh k d ue inv_size [OF inv] by (simp add: shape_ok_def)
qed

theorem mpmc_well_formed_witness:
  "length (buffer (queue race_state)) = 2 \<and> unat (approx_size (queue race_state)) \<le> 2"
  using mpmc_well_formed [OF two_cells_new _ race_state_reachable] by (simp add: race_state_eq)

end
