(* ===== verification/BPlus_Tree.thy ===== *)
theory BPlus_Tree
  imports Prelude
begin

text \<open>
  The built-in B+tree (\<^verbatim>\<open>index.hpp\<close>). Nodes live in an explicit heap: a pointer is an index
  into the list of allocated nodes, \<^verbatim>\<open>nullptr\<close> is \<open>None\<close>, \<^verbatim>\<open>alloc_node\<close> appends. Leaves are
  therefore shared, as in the code, between their parent and the \<^verbatim>\<open>next_leaf\<close> chain that
  \<^verbatim>\<open>scan\<close> follows, and \<^verbatim>\<open>update\<close> changes them in place. The two arms of the node's union are
  two fields. A walk down or along the tree is a \<open>partial_function\<close>: its result \<open>None\<close> means
  that the call does not return, and the theory proves that on a bulk-loaded tree every call does.
\<close>

definition FANOUT :: nat where [const_defs]: "FANOUT = 15"

record Node =
  is_leaf :: bool
  num :: nat
  keys :: "idx_key_t list"
  children :: "nat option list"
  vals :: "idx_val_t list"
  next_leaf :: "nat option"

type_synonym heap = "Node list"

record BPlusTree =
  root :: "nat option"
  nodes :: heap
  node_count :: nat

definition BPlusTree_new :: BPlusTree where
  "BPlusTree_new = \<lparr>root = None, nodes = [], node_count = 0\<rparr>"

text \<open>A fresh node: \<^verbatim>\<open>new (p) Node()\<close> zeroes every field.\<close>

definition Node_init :: Node where
  "Node_init = \<lparr>is_leaf = False, num = 0, keys = replicate FANOUT 0,
     children = replicate (FANOUT + 1) None, vals = replicate FANOUT 0, next_leaf = None\<rparr>"

text \<open>Writing the first cells of an array in a loop.\<close>

definition blit :: "'a list \<Rightarrow> 'a list \<Rightarrow> 'a list" where
  "blit xs arr = xs @ drop (length xs) arr"

subsection \<open>Bulk load\<close>

text \<open>The loop over the sorted pairs, \<open>FANOUT\<close> at a time, from position \<open>i\<close>.\<close>

function build_leaves ::
  "idx_key_t list \<Rightarrow> idx_val_t list \<Rightarrow> nat \<Rightarrow> heap \<Rightarrow> nat option \<Rightarrow> nat list \<Rightarrow> heap \<times> nat list" where
  "build_leaves ks vs i h prev_leaf level =
     (if i < length ks then
        let leaf = length h;
            cnt = min FANOUT (length ks - i);
            nd = Node_init\<lparr>is_leaf := True, num := cnt,
                   keys := blit (take cnt (drop i ks)) (keys Node_init),
                   vals := blit (take cnt (drop i vs)) (vals Node_init),
                   next_leaf := None\<rparr>;
            h1 = h @ [nd];
            h2 = (case prev_leaf of None \<Rightarrow> h1
                  | Some p \<Rightarrow> h1[p := (h1 ! p)\<lparr>next_leaf := Some leaf\<rparr>])
        in build_leaves ks vs (i + FANOUT) h2 (Some leaf) (level @ [leaf])
      else (h, level))"
  by pat_completeness auto
termination
  by (relation "measure (\<lambda>(ks, vs, i, h, p, l). length ks - i)") (auto simp: FANOUT_def)

text \<open>\<^verbatim>\<open>first_key\<close>: down the leftmost path.\<close>

partial_function (option) first_key :: "heap \<Rightarrow> nat \<Rightarrow> idx_key_t option" where
  "first_key h a =
     (if is_leaf (h ! a) then Some (keys (h ! a) ! 0)
      else case children (h ! a) ! 0 of None \<Rightarrow> None | Some c \<Rightarrow> first_key h c)"

fun first_keys :: "heap \<Rightarrow> nat list \<Rightarrow> idx_key_t list option" where
  "first_keys h [] = Some []"
| "first_keys h (a # as) =
     (case first_key h a of None \<Rightarrow> None
      | Some k \<Rightarrow> map_option ((#) k) (first_keys h as))"

text \<open>One pass that groups a level into parents, \<open>FANOUT + 1\<close> children each.\<close>

function build_parents :: "heap \<Rightarrow> nat list \<Rightarrow> nat \<Rightarrow> nat list \<Rightarrow> (heap \<times> nat list) option" where
  "build_parents h level i parents =
     (if i < length level then
        let inner = length h;
            cnt = min (FANOUT + 1) (length level - i);
            cs = take cnt (drop i level)
        in case first_keys h (drop 1 cs) of None \<Rightarrow> None
           | Some fks \<Rightarrow>
               let nd = Node_init\<lparr>is_leaf := False, num := cnt - 1,
                      children := blit (map Some cs) (children Node_init),
                      keys := blit fks (keys Node_init), next_leaf := None\<rparr>
               in build_parents (h @ [nd]) level (i + (FANOUT + 1)) (parents @ [inner])
      else Some (h, parents))"
  by pat_completeness auto
termination
  by (relation "measure (\<lambda>(h, level, i, ps). length level - i)") (auto simp: FANOUT_def)

text \<open>Levels until one node is left.\<close>

partial_function (option) build_levels :: "heap \<Rightarrow> nat list \<Rightarrow> (heap \<times> nat list) option" where
  "build_levels h level =
     (if length level > 1 then
        (case build_parents h level 0 [] of None \<Rightarrow> None
         | Some (h', parents) \<Rightarrow> build_levels h' parents)
      else Some (h, level))"

text \<open>\<open>None\<close> is the failed assertion on the sizes (or a call that does not return).\<close>

definition bulk_load :: "idx_key_t list \<Rightarrow> idx_val_t list \<Rightarrow> BPlusTree \<Rightarrow> BPlusTree option" where
  "bulk_load ks vs t =
     (if length ks \<noteq> length vs then None
      else case build_leaves ks vs 0 (nodes t) None [] of (h, level) \<Rightarrow>
        (case build_levels h level of None \<Rightarrow> None
         | Some (h', level') \<Rightarrow>
             Some (t\<lparr>root := (if level' = [] then None else Some (level' ! 0)), nodes := h',
                     node_count := node_count t + (length h' - length (nodes t))\<rparr>)))"

subsection \<open>Point operations and scan\<close>

function child_index :: "idx_key_t \<Rightarrow> Node \<Rightarrow> nat \<Rightarrow> nat" where
  "child_index k nd i =
     (if i < num nd \<and> k \<ge> keys nd ! i then child_index k nd (i + 1) else i)"
  by pat_completeness auto
termination
  by (relation "measure (\<lambda>(k, nd, i). num nd - i)") auto

partial_function (option) descend :: "heap \<Rightarrow> idx_key_t \<Rightarrow> nat option \<Rightarrow> nat option option" where
  "descend h k node =
     (case node of None \<Rightarrow> Some None
      | Some a \<Rightarrow>
          if is_leaf (h ! a) then Some (Some a)
          else descend h k (children (h ! a) ! child_index k (h ! a) 0))"

function find_slot :: "idx_key_t \<Rightarrow> Node \<Rightarrow> nat \<Rightarrow> nat option" where
  "find_slot k nd i =
     (if i < num nd then if keys nd ! i = k then Some i else find_slot k nd (i + 1) else None)"
  by pat_completeness auto
termination
  by (relation "measure (\<lambda>(k, nd, i). num nd - i)") auto

definition lookup :: "BPlusTree \<Rightarrow> idx_key_t \<Rightarrow> idx_val_t option" where
  "lookup t k =
     (case descend (nodes t) k (root t) of None \<Rightarrow> None
      | Some None \<Rightarrow> Some 0
      | Some (Some a) \<Rightarrow>
          (case find_slot k (nodes t ! a) 0 of None \<Rightarrow> Some 0
           | Some i \<Rightarrow> Some (vals (nodes t ! a) ! i)))"

definition update :: "idx_key_t \<Rightarrow> idx_val_t \<Rightarrow> BPlusTree \<Rightarrow> (BPlusTree \<times> bool) option" where
  "update k newv t =
     (case descend (nodes t) k (root t) of None \<Rightarrow> None
      | Some None \<Rightarrow> Some (t, False)
      | Some (Some a) \<Rightarrow>
          (case find_slot k (nodes t ! a) 0 of None \<Rightarrow> Some (t, False)
           | Some i \<Rightarrow>
               let nd = nodes t ! a
               in Some (t\<lparr>nodes := (nodes t)[a := nd\<lparr>vals := (vals nd)[i := newv]\<rparr>]\<rparr>, True)))"

definition remove :: "idx_key_t \<Rightarrow> BPlusTree \<Rightarrow> (BPlusTree \<times> bool) option" where
  "remove k t = update k 0 t"

function skip_below :: "idx_key_t \<Rightarrow> Node \<Rightarrow> nat \<Rightarrow> nat" where
  "skip_below lo nd idx =
     (if idx < num nd \<and> keys nd ! idx < lo then skip_below lo nd (idx + 1) else idx)"
  by pat_completeness auto
termination
  by (relation "measure (\<lambda>(lo, nd, i). num nd - i)") auto

text \<open>The inner loop of \<^verbatim>\<open>scan\<close>: entries of one leaf.\<close>

function scan_leaf :: "Node \<Rightarrow> nat \<Rightarrow> int \<Rightarrow> int \<Rightarrow> idx_val_t \<Rightarrow> int \<times> idx_val_t" where
  "scan_leaf nd idx taken n acc =
     (if idx < num nd \<and> taken < n
      then scan_leaf nd (idx + 1) (taken + 1) n (acc XOR vals nd ! idx)
      else (taken, acc))"
  by pat_completeness auto
termination
  by (relation "measure (\<lambda>(nd, i, t, n, a). num nd - i)") auto

partial_function (option) scan_leaves ::
  "heap \<Rightarrow> nat option \<Rightarrow> nat \<Rightarrow> int \<Rightarrow> int \<Rightarrow> idx_val_t \<Rightarrow> (int \<times> idx_val_t) option" where
  "scan_leaves h node idx taken n acc =
     (case node of None \<Rightarrow> Some (taken, acc)
      | Some a \<Rightarrow>
          if taken < n then
            (case scan_leaf (h ! a) idx taken n acc of (taken', acc') \<Rightarrow>
               scan_leaves h (next_leaf (h ! a)) 0 taken' n acc')
          else Some (taken, acc))"

text \<open>The count returned and the value folded into \<^verbatim>\<open>*out_sink\<close>, which starts as \<open>sink\<close>.\<close>

definition scan :: "BPlusTree \<Rightarrow> idx_key_t \<Rightarrow> int \<Rightarrow> idx_val_t \<Rightarrow> (int \<times> idx_val_t) option" where
  "scan t lo n sink =
     (case descend (nodes t) lo (root t) of None \<Rightarrow> None
      | Some None \<Rightarrow> Some (0, sink)
      | Some (Some a) \<Rightarrow>
          map_option (\<lambda>(taken, acc). (taken, sink XOR acc))
            (scan_leaves (nodes t) (Some a) (skip_below lo (nodes t ! a) 0) 0 n 0))"

partial_function (option) height_loop :: "heap \<Rightarrow> nat option \<Rightarrow> nat \<Rightarrow> nat option" where
  "height_loop h node k =
     (case node of None \<Rightarrow> Some k
      | Some a \<Rightarrow> if is_leaf (h ! a) then Some k
                   else height_loop h (children (h ! a) ! 0) (k + 1))"

definition height :: "BPlusTree \<Rightarrow> nat option" where
  "height t = map_option (\<lambda>k. k + 1) (height_loop (nodes t) (root t) 0)"

subsection \<open>The shape of a tree in the heap\<close>

text \<open>A subtree of height \<open>d\<close> at an address: its leaves from left to right, the smallest key it
  holds, and its well-formedness. An inner node separates two children by the smallest key of
  the right one.\<close>

definition kids :: "Node \<Rightarrow> nat list" where
  "kids nd = map the (take (Suc (num nd)) (children nd))"

fun leaves :: "heap \<Rightarrow> nat \<Rightarrow> nat \<Rightarrow> nat list" where
  "leaves h 0 a = [a]"
| "leaves h (Suc d) a = concat (map (leaves h d) (kids (h ! a)))"

definition leaf_keys :: "Node \<Rightarrow> idx_key_t list" where
  "leaf_keys nd = take (num nd) (keys nd)"

definition leaf_vals :: "Node \<Rightarrow> idx_val_t list" where
  "leaf_vals nd = take (num nd) (vals nd)"

definition keys_of :: "heap \<Rightarrow> nat list \<Rightarrow> idx_key_t list" where
  "keys_of h ls = concat (map (\<lambda>a. leaf_keys (h ! a)) ls)"

definition vals_of :: "heap \<Rightarrow> nat list \<Rightarrow> idx_val_t list" where
  "vals_of h ls = concat (map (\<lambda>a. leaf_vals (h ! a)) ls)"

definition low :: "heap \<Rightarrow> nat \<Rightarrow> nat \<Rightarrow> idx_key_t" where
  "low h d a = hd (keys_of h (leaves h d a))"

definition leaf_ok :: "Node \<Rightarrow> bool" where
  "leaf_ok nd \<longleftrightarrow> is_leaf nd \<and> 0 < num nd \<and> num nd \<le> FANOUT \<and>
     length (keys nd) = FANOUT \<and> length (vals nd) = FANOUT"

definition inner_ok :: "Node \<Rightarrow> bool" where
  "inner_ok nd \<longleftrightarrow> \<not> is_leaf nd \<and> num nd \<le> FANOUT \<and> length (keys nd) = FANOUT \<and>
     length (children nd) = FANOUT + 1 \<and> (\<forall>i \<le> num nd. children nd ! i \<noteq> None)"

fun wf_tree :: "heap \<Rightarrow> nat \<Rightarrow> nat \<Rightarrow> bool" where
  "wf_tree h 0 a \<longleftrightarrow> a < length h \<and> leaf_ok (h ! a)"
| "wf_tree h (Suc d) a \<longleftrightarrow> a < length h \<and> inner_ok (h ! a) \<and>
     (\<forall>c \<in> set (kids (h ! a)). wf_tree h d c) \<and>
     (\<forall>i < num (h ! a). keys (h ! a) ! i = low h d (kids (h ! a) ! Suc i))"

fun chain :: "heap \<Rightarrow> nat list \<Rightarrow> bool" where
  "chain h [] = True"
| "chain h [a] = (next_leaf (h ! a) = None)"
| "chain h (a # b # ls) = (next_leaf (h ! a) = Some b \<and> chain h (b # ls))"

lemma keys_of_simps [simp]:
  "keys_of h [] = []" "keys_of h (a # ls) = leaf_keys (h ! a) @ keys_of h ls"
  "keys_of h (ls @ ms) = keys_of h ls @ keys_of h ms"
  by (simp_all add: keys_of_def)

lemma vals_of_simps [simp]:
  "vals_of h [] = []" "vals_of h (a # ls) = leaf_vals (h ! a) @ vals_of h ls"
  "vals_of h (ls @ ms) = vals_of h ls @ vals_of h ms"
  by (simp_all add: vals_of_def)

lemma leaf_ok_keys [simp]: "leaf_ok nd \<Longrightarrow> length (leaf_keys nd) = num nd"
  and leaf_ok_vals [simp]: "leaf_ok nd \<Longrightarrow> length (leaf_vals nd) = num nd"
  and leaf_ok_ne [simp]: "leaf_ok nd \<Longrightarrow> leaf_keys nd \<noteq> []"
  by (auto simp: leaf_ok_def leaf_keys_def leaf_vals_def FANOUT_def)

lemma inner_ok_kids:
  assumes "inner_ok nd"
  shows "length (kids nd) = Suc (num nd)" "i \<le> num nd \<Longrightarrow> children nd ! i = Some (kids nd ! i)"
  using assms by (auto simp: inner_ok_def kids_def)

lemma wf_leaves:
  assumes "wf_tree h d a"
  shows "leaves h d a \<noteq> [] \<and> (\<forall>l \<in> set (leaves h d a). l < length h \<and> leaf_ok (h ! l))"
  using assms
proof (induction d arbitrary: a)
  case (Suc d)
  have ne: "kids (h ! a) \<noteq> []" using inner_ok_kids(1) [of "h ! a"] Suc.prems by auto
  have IH: "c \<in> set (kids (h ! a)) \<Longrightarrow>
      leaves h d c \<noteq> [] \<and> (\<forall>l \<in> set (leaves h d c). l < length h \<and> leaf_ok (h ! l))" for c
    using Suc.IH [of c] Suc.prems by simp
  from IH [of "hd (kids (h ! a))"] ne have "concat (map (leaves h d) (kids (h ! a))) \<noteq> []"
    by (cases "kids (h ! a)") auto
  with IH show ?case by auto
qed simp

lemma keys_of_ne: "ls \<noteq> [] \<Longrightarrow> \<forall>l \<in> set ls. leaf_ok (h ! l) \<Longrightarrow> keys_of h ls \<noteq> []"
  by (cases ls) auto

lemma length_keys_vals: "\<forall>l \<in> set ls. leaf_ok (h ! l) \<Longrightarrow> length (keys_of h ls) = length (vals_of h ls)"
  by (induction ls) auto

lemma wf_keys_ne: "wf_tree h d a \<Longrightarrow> keys_of h (leaves h d a) \<noteq> []"
  by (intro keys_of_ne) (simp_all add: wf_leaves)

lemma wf_low_in: "wf_tree h d a \<Longrightarrow> low h d a \<in> set (keys_of h (leaves h d a))"
  using wf_keys_ne by (simp add: low_def)

lemma keys_of_concat: "keys_of h (concat lss) = concat (map (keys_of h) lss)"
  by (induction lss) auto

subsection \<open>The loops inside a node\<close>

declare child_index.simps [simp del] find_slot.simps [simp del] skip_below.simps [simp del]
  scan_leaf.simps [simp del] build_leaves.simps [simp del] build_parents.simps [simp del]

lemma child_index_spec:
  assumes "i \<le> num nd" "\<forall>j < i. keys nd ! j \<le> k"
  shows "child_index k nd i \<le> num nd \<and> (\<forall>j < child_index k nd i. keys nd ! j \<le> k) \<and>
    (child_index k nd i < num nd \<longrightarrow> k < keys nd ! child_index k nd i)"
  using assms
proof (induction k nd i rule: child_index.induct)
  case (1 k nd i)
  show ?case
  proof (cases "i < num nd \<and> k \<ge> keys nd ! i")
    case True
    with 1 show ?thesis by (subst (1 2 3 4) child_index.simps) (auto simp: less_Suc_eq)
  next
    case False
    with 1 show ?thesis by (subst (1 2 3 4) child_index.simps) auto
  qed
qed

lemma find_slot_Some: "find_slot k nd i = Some j \<Longrightarrow> i \<le> j \<and> j < num nd \<and> keys nd ! j = k"
  by (induction k nd i rule: find_slot.induct, subst (asm) (2) find_slot.simps)
    (fastforce split: if_splits)

lemma find_slot_None: "find_slot k nd i = None \<Longrightarrow> i \<le> j \<Longrightarrow> j < num nd \<Longrightarrow> keys nd ! j \<noteq> k"
  by (induction k nd i rule: find_slot.induct, subst (asm) (2) find_slot.simps)
    (metis le_antisym not_less_eq_eq Suc_eq_plus1 less_le_trans not_le option.distinct(1))

lemma skip_below_eq:
  "idx \<le> num nd \<Longrightarrow> num nd \<le> length (keys nd) \<Longrightarrow>
   skip_below lo nd idx = idx + length (takeWhile (\<lambda>x. x < lo) (drop idx (leaf_keys nd)))"
proof (induction lo nd idx rule: skip_below.induct)
  case (1 lo nd idx)
  show ?case
  proof (cases "idx < num nd")
    case True
    then have "drop idx (leaf_keys nd) = keys nd ! idx # drop (Suc idx) (leaf_keys nd)"
      using 1 by (simp add: leaf_keys_def Cons_nth_drop_Suc [symmetric])
    with True 1 show ?thesis by (subst skip_below.simps) simp
  next
    case False
    then show ?thesis using 1 by (subst skip_below.simps) (simp add: leaf_keys_def)
  qed
qed

lemma scan_leaf_eq:
  "num nd \<le> length (vals nd) \<Longrightarrow> scan_leaf nd idx taken n acc =
     (let xs = take (nat (n - taken)) (drop idx (leaf_vals nd))
      in (taken + int (length xs), fold (\<lambda>x y. y XOR x) xs acc))"
proof (induction nd idx taken n acc rule: scan_leaf.induct)
  case (1 nd idx taken n acc)
  show ?case
  proof (cases "idx < num nd \<and> taken < n")
    case True
    then have d: "drop idx (leaf_vals nd) = vals nd ! idx # drop (Suc idx) (leaf_vals nd)"
      using 1 by (simp add: leaf_vals_def Cons_nth_drop_Suc [symmetric])
    have "nat (n - taken) = Suc (nat (n - (taken + 1)))" using True by arith
    with True 1 d show ?thesis by (subst scan_leaf.simps) (simp add: Let_def)
  next
    case False
    then show ?thesis by (subst scan_leaf.simps) (auto simp: leaf_vals_def)
  qed
qed

subsection \<open>Descending to a leaf\<close>

lemma sorted_wrt_append3:
  "sorted_wrt P (xs @ ys @ zs) \<Longrightarrow> x \<in> set xs \<Longrightarrow> y \<in> set ys \<Longrightarrow> P x y"
  by (auto simp: sorted_wrt_append)

lemma nth_split3:
  assumes "i < length xs"
  shows "\<exists>as bs. xs = as @ xs ! i # bs \<and> length as = i"
  using id_take_nth_drop [OF assms] assms by (intro exI [of _ "take i xs"] exI [of _ "drop (Suc i) xs"]) simp

lemma descend_leaf: "is_leaf (h ! a) \<Longrightarrow> descend h k (Some a) = Some (Some a)"
  by (subst descend.simps) simp

lemma descend_inner:
  "\<not> is_leaf (h ! a) \<Longrightarrow>
   descend h k (Some a) = descend h k (children (h ! a) ! child_index k (h ! a) 0)"
  by (subst descend.simps) simp

lemma descend_spec:
  assumes "wf_tree h d a" "sorted_wrt (<) (keys_of h (leaves h d a))"
  shows "\<exists>ls1 l ls2. descend h k (Some a) = Some (Some l) \<and> leaves h d a = ls1 @ l # ls2 \<and>
    (\<forall>x \<in> set (keys_of h ls1). x < k) \<and> (\<forall>x \<in> set (keys_of h ls2). k < x)"
  using assms
proof (induction d arbitrary: a)
  case 0
  then have "descend h k (Some a) = Some (Some a)" by (simp add: leaf_ok_def descend_leaf)
  then show ?case by (intro exI [of _ "[]"]) simp
next
  case (Suc d)
  let ?nd = "h ! a"
  define i where "i = child_index k ?nd 0"
  have nd: "inner_ok ?nd" "\<forall>c \<in> set (kids ?nd). wf_tree h d c"
      "\<forall>j < num ?nd. keys ?nd ! j = low h d (kids ?nd ! Suc j)" using Suc.prems(1) by auto
  have i: "i \<le> num ?nd" "\<forall>j < i. keys ?nd ! j \<le> k" "i < num ?nd \<longrightarrow> k < keys ?nd ! i"
    using child_index_spec [of 0 ?nd k] by (auto simp: i_def)
  note kid = inner_ok_kids [OF nd(1)]
  obtain cs1 c cs2 where cs: "kids ?nd = cs1 @ c # cs2" "length cs1 = i" "kids ?nd ! i = c"
    using nth_split3 [of i "kids ?nd"] kid(1) i(1) by auto
  have desc: "descend h k (Some a) = descend h k (Some c)"
    using nd(1) kid(2) [OF i(1)] cs(3) by (simp add: descend_inner inner_ok_def flip: i_def)
  define L where "L = (\<lambda>cs. concat (map (leaves h d) cs))"
  have Lv: "leaves h (Suc d) a = L cs1 @ leaves h d c @ L cs2" by (simp add: cs(1) L_def)
  have srt: "sorted_wrt (<) (keys_of h (L cs1) @ keys_of h (leaves h d c) @ keys_of h (L cs2))"
    using Suc.prems(2) by (simp only: Lv keys_of_simps)
  have wc: "wf_tree h d c" using nd(2) cs(1) by simp
  have "sorted_wrt (<) (keys_of h (leaves h d c))" using srt by (simp add: sorted_wrt_append)
  from Suc.IH [OF wc this] obtain ls1 l ls2 where IH: "descend h k (Some c) = Some (Some l)"
    "leaves h d c = ls1 @ l # ls2" "\<forall>x \<in> set (keys_of h ls1). x < k" "\<forall>x \<in> set (keys_of h ls2). k < x"
    by blast
  have lo: "x < k" if x: "x \<in> set (keys_of h (L cs1))" for x
  proof -
    from x have "0 < i" using cs(2) by (auto simp: L_def)
    then have "low h d c \<le> k"
      using i(1) i(2) [rule_format, of "i - 1"] nd(3) [rule_format, of "i - 1"] cs(3) by simp
    moreover have "x < low h d c" by (rule sorted_wrt_append3 [OF srt x wf_low_in [OF wc]])
    ultimately show ?thesis by simp
  qed
  have hi: "k < x" if x: "x \<in> set (keys_of h (L cs2))" for x
  proof -
    from x obtain c' cs' where c': "cs2 = c' # cs'" by (cases cs2) (auto simp: L_def)
    have "i < num ?nd" "kids ?nd ! Suc i = c'" using kid(1) cs c' by (auto simp: nth_append)
    then have "k < low h d c'" using i(3) nd(3) by simp
    moreover have "wf_tree h d c'" using nd(2) cs(1) c' by simp
    moreover have "sorted_wrt (<) (keys_of h (leaves h d c') @ keys_of h (L cs'))"
      using srt c' by (simp add: sorted_wrt_append L_def)
    then have "low h d c' \<le> x"
      using x c' wf_keys_ne [OF \<open>wf_tree h d c'\<close>]
      by (cases "keys_of h (leaves h d c')") (auto simp: L_def low_def sorted_wrt_append less_imp_le)
    ultimately show ?thesis by simp
  qed
  show ?case
    by (rule exI [of _ "L cs1 @ ls1"], rule exI [of _ l], rule exI [of _ "ls2 @ L cs2"])
      (use desc IH lo hi Lv in auto)
qed

subsection \<open>The entries a tree holds\<close>

definition tree_at :: "heap \<Rightarrow> nat \<Rightarrow> nat \<Rightarrow> (idx_key_t \<times> idx_val_t) list \<Rightarrow> bool" where
  "tree_at h d a kv \<longleftrightarrow> wf_tree h d a \<and> distinct (leaves h d a) \<and> chain h (leaves h d a) \<and>
     kv = zip (keys_of h (leaves h d a)) (vals_of h (leaves h d a))"

text \<open>\<open>holds t kv\<close>: the tree is well formed and its entries, in key order, are \<open>kv\<close>.\<close>

definition holds :: "BPlusTree \<Rightarrow> (idx_key_t \<times> idx_val_t) list \<Rightarrow> bool" where
  "holds t kv \<longleftrightarrow> sorted_wrt (<) (map fst kv) \<and>
     (case root t of None \<Rightarrow> kv = [] | Some a \<Rightarrow> \<exists>d. tree_at (nodes t) d a kv)"

definition val_or_0 :: "idx_val_t option \<Rightarrow> idx_val_t" where
  "val_or_0 r = (case r of None \<Rightarrow> 0 | Some v \<Rightarrow> v)"

definition upd_all :: "'k \<Rightarrow> 'v \<Rightarrow> ('k \<times> 'v) list \<Rightarrow> ('k \<times> 'v) list" where
  "upd_all k v kv = map (\<lambda>(k', v'). (k', if k' = k then v else v')) kv"

lemma upd_all_simps [simp]:
  "upd_all k v (kv @ kv') = upd_all k v kv @ upd_all k v kv'"
  "map fst (upd_all k v kv) = map fst kv" "length (upd_all k v kv) = length kv"
  by (auto simp: upd_all_def)

lemma upd_all_id: "k \<notin> fst ` set kv \<Longrightarrow> upd_all k v kv = kv"
  by (induction kv) (auto simp: upd_all_def)

lemma map_of_upd_all: "map_of (upd_all k v kv) = (if k \<in> fst ` set kv then (map_of kv)(k \<mapsto> v) else map_of kv)"
  by (induction kv) (auto simp: upd_all_def fun_eq_iff)

lemma zip_upd:
  assumes "distinct ks" "length ks = length vs" "i < length ks"
  shows "zip ks (vs[i := v]) = upd_all (ks ! i) v (zip ks vs)"
  by (rule nth_equalityI) (use assms in \<open>auto simp: upd_all_def nth_list_update nth_eq_iff_index_eq\<close>)

definition bracket :: "heap \<Rightarrow> nat \<Rightarrow> nat \<Rightarrow> idx_key_t \<Rightarrow> nat list \<Rightarrow> nat \<Rightarrow> nat list \<Rightarrow> bool" where
  "bracket h d a k ls1 l ls2 \<longleftrightarrow> descend h k (Some a) = Some (Some l) \<and>
     leaves h d a = ls1 @ l # ls2 \<and> l < length h \<and> leaf_ok (h ! l) \<and>
     (\<forall>l' \<in> set (ls1 @ ls2). leaf_ok (h ! l')) \<and> distinct (leaf_keys (h ! l)) \<and>
     (\<forall>x \<in> set (keys_of h ls1). x < k) \<and> (\<forall>x \<in> set (keys_of h ls2). k < x)"

lemma fst_zip_leaves:
  assumes "wf_tree h d a"
  shows "map fst (zip (keys_of h (leaves h d a)) (vals_of h (leaves h d a))) = keys_of h (leaves h d a)"
  using length_keys_vals [of "leaves h d a" h] wf_leaves [OF assms] by simp

lemma tree_bracket:
  assumes "tree_at h d a kv" "sorted_wrt (<) (map fst kv)"
  shows "\<exists>ls1 l ls2. bracket h d a k ls1 l ls2"
proof -
  have wf: "wf_tree h d a" using assms(1) by (simp add: tree_at_def)
  have srt: "sorted_wrt (<) (keys_of h (leaves h d a))"
    using assms fst_zip_leaves [OF wf] by (simp add: tree_at_def)
  from descend_spec [OF wf this] obtain ls1 l ls2 where *:
    "descend h k (Some a) = Some (Some l)" "leaves h d a = ls1 @ l # ls2"
    "\<forall>x \<in> set (keys_of h ls1). x < k" "\<forall>x \<in> set (keys_of h ls2). k < x" by blast
  moreover have "sorted_wrt (<) (leaf_keys (h ! l))"
    using srt *(2) by (simp add: sorted_wrt_append)
  then have "distinct (leaf_keys (h ! l))" by (simp add: strict_sorted_iff)
  ultimately show ?thesis
    using wf_leaves [OF wf] by (intro exI [of _ ls1] exI [of _ l] exI [of _ ls2]) (auto simp: bracket_def)
qed

lemma bracket_zip:
  assumes "bracket h d a k ls1 l ls2"
  shows "zip (keys_of h (leaves h d a)) (vals_of h (leaves h d a)) =
    zip (keys_of h ls1) (vals_of h ls1) @ zip (leaf_keys (h ! l)) (leaf_vals (h ! l)) @
    zip (keys_of h ls2) (vals_of h ls2)"
  using assms length_keys_vals [of ls1 h] length_keys_vals [of ls2 h] by (auto simp: bracket_def)

lemma bracket_outside:
  assumes "bracket h d a k ls1 l ls2"
  shows "k \<notin> fst ` set (zip (keys_of h ls1) vs)" "k \<notin> fst ` set (zip (keys_of h ls2) vs)"
  using assms by (auto simp: bracket_def dest: set_zip_leftD)

lemma find_slot_zip:
  assumes "leaf_ok nd" "distinct (leaf_keys nd)"
  shows "(case find_slot k nd 0 of None \<Rightarrow> k \<notin> set (leaf_keys nd) \<and>
              map_of (zip (leaf_keys nd) (leaf_vals nd)) k = None
          | Some i \<Rightarrow> i < num nd \<and> leaf_keys nd ! i = k \<and>
              map_of (zip (leaf_keys nd) (leaf_vals nd)) k = Some (vals nd ! i))"
proof (cases "find_slot k nd 0")
  case None
  have "k \<notin> set (leaf_keys nd)"
    using find_slot_None [OF None] assms(1) by (fastforce simp: in_set_conv_nth leaf_keys_def)
  then show ?thesis by (auto simp: None map_of_eq_None_iff dest!: set_zip_leftD)
next
  case (Some i)
  from find_slot_Some [OF this] have i: "i < num nd" "leaf_keys nd ! i = k" by (auto simp: leaf_keys_def)
  then have "map_of (zip (leaf_keys nd) (leaf_vals nd)) (leaf_keys nd ! i) = Some (leaf_vals nd ! i)"
    using assms by (intro map_of_zip_nth) simp_all
  with i Some show ?thesis by (simp add: leaf_vals_def)
qed

subsection \<open>Lookup\<close>

lemma tree_map_of:
  assumes "bracket h d a k ls1 l ls2" "tree_at h d a kv"
  shows "map_of kv k = map_of (zip (leaf_keys (h ! l)) (leaf_vals (h ! l))) k"
proof -
  note out = bracket_outside [OF assms(1), folded map_of_eq_None_iff]
  show ?thesis using assms(2) bracket_zip [OF assms(1)]
    by (simp add: tree_at_def map_add_def out split: option.split)
qed

lemma lookup_holds:
  assumes "holds t kv"
  shows "lookup t k = Some (val_or_0 (map_of kv k))"
proof (cases "root t")
  case None
  then show ?thesis using assms
    by (simp add: holds_def lookup_def val_or_0_def descend.simps [of _ _ None])
next
  case (Some a)
  with assms obtain d where t: "tree_at (nodes t) d a kv" "sorted_wrt (<) (map fst kv)"
    by (auto simp: holds_def)
  from tree_bracket [OF this] obtain ls1 l ls2 where b: "bracket (nodes t) d a k ls1 l ls2" by blast
  then have "descend (nodes t) k (root t) = Some (Some l)" "leaf_ok (nodes t ! l)"
      "distinct (leaf_keys (nodes t ! l))" by (simp_all add: bracket_def Some)
  with find_slot_zip [of "nodes t ! l" k] show ?thesis
    unfolding lookup_def tree_map_of [OF b t(1)] val_or_0_def
    by (cases "find_slot k (nodes t ! l) 0") (simp_all del: map_of_zip_is_None map_of_eq_Some_iff)
qed

subsection \<open>Heap changes that keep the shape\<close>

text \<open>Allocation, linking a leaf to the next and overwriting a value leave the search structure
  of every allocated node as it was.\<close>

definition same_shape :: "heap \<Rightarrow> heap \<Rightarrow> bool" where
  "same_shape h h' \<longleftrightarrow> length h \<le> length h' \<and>
     (\<forall>a < length h. is_leaf (h' ! a) = is_leaf (h ! a) \<and> num (h' ! a) = num (h ! a) \<and>
        keys (h' ! a) = keys (h ! a) \<and> children (h' ! a) = children (h ! a) \<and>
        length (vals (h' ! a)) = length (vals (h ! a)))"

lemma same_shape_leaf:
  assumes "same_shape h h'" "a < length h"
  shows "leaf_ok (h' ! a) = leaf_ok (h ! a)" "leaf_keys (h' ! a) = leaf_keys (h ! a)"
    "inner_ok (h' ! a) = inner_ok (h ! a)" "kids (h' ! a) = kids (h ! a)"
  using assms by (simp_all add: same_shape_def leaf_ok_def leaf_keys_def inner_ok_def kids_def)

lemma same_shape_keys_of:
  "same_shape h h' \<Longrightarrow> \<forall>l \<in> set ls. l < length h \<Longrightarrow> keys_of h' ls = keys_of h ls"
  by (induction ls) (simp_all add: same_shape_leaf)

lemma same_shape_tree:
  assumes "same_shape h h'" "wf_tree h d a"
  shows "wf_tree h' d a \<and> leaves h' d a = leaves h d a \<and> low h' d a = low h d a"
  using assms(2)
proof (induction d arbitrary: a)
  case 0
  then show ?case using assms(1) same_shape_leaf [OF assms(1), of a]
    by (auto simp: same_shape_def low_def)
next
  case (Suc d)
  have a: "a < length h" "a < length h'" using Suc.prems assms(1) by (auto simp: same_shape_def)
  note eq = same_shape_leaf [OF assms(1) a(1)]
  have IH: "c \<in> set (kids (h ! a)) \<Longrightarrow> wf_tree h' d c \<and> leaves h' d c = leaves h d c \<and> low h' d c = low h d c"
    for c using Suc by simp
  then have lv: "leaves h' (Suc d) a = leaves h (Suc d) a" by (simp add: eq cong: map_cong)
  have len: "length (kids (h ! a)) = Suc (num (h ! a))" using Suc.prems inner_ok_kids(1) by simp
  have sep: "keys (h' ! a) ! i = low h' d (kids (h' ! a) ! Suc i)" if "i < num (h' ! a)" for i
    using that Suc.prems assms(1) a(1) IH [of "kids (h ! a) ! Suc i"] len
    by (simp add: eq same_shape_def)
  have "keys_of h' (leaves h (Suc d) a) = keys_of h (leaves h (Suc d) a)"
    using wf_leaves [OF Suc.prems] by (intro same_shape_keys_of [OF assms(1)]) simp
  then show ?case using Suc.prems a eq IH lv sep by (simp add: low_def)
qed

lemma same_shape_append: "same_shape h (h @ hs)"
  by (simp add: same_shape_def nth_append)

lemma same_shape_trans: "same_shape h h' \<Longrightarrow> same_shape h' h'' \<Longrightarrow> same_shape h h''"
  by (auto simp: same_shape_def)

lemma same_shape_next: "same_shape h (h[p := (h ! p)\<lparr>next_leaf := x\<rparr>])"
  by (auto simp: same_shape_def nth_list_update_if)

lemma same_shape_vals:
  "length vs = length (vals (h ! p)) \<Longrightarrow> same_shape h (h[p := (h ! p)\<lparr>vals := vs\<rparr>])"
  by (auto simp: same_shape_def nth_list_update_if)

lemma chain_cong: "\<forall>l \<in> set ls. next_leaf (h' ! l) = next_leaf (h ! l) \<Longrightarrow> chain h' ls = chain h ls"
  by (induction h ls rule: chain.induct) auto

lemma vals_of_cong: "\<forall>l \<in> set ls. leaf_vals (h' ! l) = leaf_vals (h ! l) \<Longrightarrow> vals_of h' ls = vals_of h ls"
  by (induction ls) auto

subsection \<open>Update and remove\<close>

lemma update_tree:
  assumes t: "tree_at h d a kv" and b: "bracket h d a k ls1 l ls2"
    and i: "i < num (h ! l)" "leaf_keys (h ! l) ! i = k"
    and h': "h' = h[l := (h ! l)\<lparr>vals := (vals (h ! l))[i := v]\<rparr>]"
  shows "tree_at h' d a (upd_all k v kv)"
proof -
  have wf: "wf_tree h d a" and dis: "distinct (leaves h d a)" and ch: "chain h (leaves h d a)"
    using t by (simp_all add: tree_at_def)
  have sh: "same_shape h h'" unfolding h' by (rule same_shape_vals) simp
  note st = same_shape_tree [OF sh wf]
  have lv: "leaves h d a = ls1 @ l # ls2" and l: "l < length h" and ok: "leaf_ok (h ! l)"
    and dl: "distinct (leaf_keys (h ! l))" using b by (auto simp: bracket_def)
  have ks: "keys_of h' (leaves h d a) = keys_of h (leaves h d a)"
    using wf_leaves [OF wf] by (intro same_shape_keys_of [OF sh]) simp
  have nl: "l \<notin> set ls1" "l \<notin> set ls2" using dis lv by auto
  have vs: "vals_of h' ls1 = vals_of h ls1" "vals_of h' ls2 = vals_of h ls2"
    using nl by (auto intro!: vals_of_cong simp: h' nth_list_update_if)
  have lvs: "leaf_vals (h' ! l) = (leaf_vals (h ! l))[i := v]"
    using l i(1) by (simp add: h' leaf_vals_def take_update_swap)
  have "zip (keys_of h (leaves h d a)) (vals_of h' (leaves h d a)) =
      zip (keys_of h ls1) (vals_of h ls1) @ zip (leaf_keys (h ! l)) ((leaf_vals (h ! l))[i := v]) @
      zip (keys_of h ls2) (vals_of h ls2)"
    using b length_keys_vals [of ls1 h] by (auto simp: lv vs lvs bracket_def)
  also have "zip (leaf_keys (h ! l)) ((leaf_vals (h ! l))[i := v]) =
      upd_all k v (zip (leaf_keys (h ! l)) (leaf_vals (h ! l)))"
    using zip_upd [OF dl, of "leaf_vals (h ! l)" i v] ok i by simp
  finally have "zip (keys_of h (leaves h d a)) (vals_of h' (leaves h d a)) = upd_all k v kv"
    using t bracket_zip [OF b] by (simp add: tree_at_def upd_all_id bracket_outside [OF b])
  moreover have "chain h' (leaves h d a)"
    using ch by (subst chain_cong [of _ h' h]) (auto simp: h' nth_list_update_if)
  ultimately show ?thesis using st dis ks by (simp add: tree_at_def)
qed

lemma update_holds:
  assumes "holds t kv"
  shows "\<exists>t'. update k v t = Some (t', k \<in> fst ` set kv) \<and> holds t' (upd_all k v kv) \<and>
    node_count t' = node_count t"
proof (cases "root t")
  case None
  then show ?thesis using assms
    by (simp add: holds_def update_def upd_all_def descend.simps [of _ _ None])
next
  case (Some a)
  with assms obtain d where t: "tree_at (nodes t) d a kv" "sorted_wrt (<) (map fst kv)"
    by (auto simp: holds_def)
  from tree_bracket [OF this] obtain ls1 l ls2 where b: "bracket (nodes t) d a k ls1 l ls2" by blast
  then have l: "descend (nodes t) k (root t) = Some (Some l)" "leaf_ok (nodes t ! l)"
      "distinct (leaf_keys (nodes t ! l))" by (simp_all add: bracket_def Some)
  note slot = find_slot_zip [OF l(2,3), of k] and hit = map_of_eq_None_iff [of kv k, symmetric]
  show ?thesis
  proof (cases "find_slot k (nodes t ! l) 0")
    case None
    with slot have "k \<notin> fst ` set kv" unfolding hit tree_map_of [OF b t(1)] by simp
    with None l(1) assms show ?thesis by (simp add: update_def upd_all_id)
  next
    case (Some i)
    with slot have i: "i < num (nodes t ! l)" "leaf_keys (nodes t ! l) ! i = k" by simp_all
    have "map_of kv k \<noteq> None" using slot unfolding tree_map_of [OF b t(1)] Some by simp
    then have "k \<in> fst ` set kv" by (simp add: map_of_eq_None_iff)
    with update_tree [OF t(1) b i refl, of v] t(2) Some l(1) \<open>root t = Some a\<close> show ?thesis
      by (auto simp: update_def holds_def Let_def)
  qed
qed

subsection \<open>Scan\<close>

definition xor_all :: "idx_val_t list \<Rightarrow> idx_val_t \<Rightarrow> idx_val_t" where
  "xor_all xs acc = fold (\<lambda>x y. y XOR x) xs acc"

lemma xor_all_simps [simp]:
  "xor_all [] acc = acc" "xor_all (x # xs) acc = xor_all xs (acc XOR x)"
  "xor_all (xs @ ys) acc = xor_all ys (xor_all xs acc)"
  by (simp_all add: xor_all_def)

lemma chain_Cons: "chain h (a # ls) \<Longrightarrow>
  next_leaf (h ! a) = (case ls of [] \<Rightarrow> None | b # _ \<Rightarrow> Some b) \<and> chain h ls"
  by (cases ls) auto

lemma chain_append: "chain h (ls1 @ ls2) \<Longrightarrow> chain h ls2"
  by (induction ls1) (auto dest: chain_Cons)

lemma take_budget:
  "take (nat (n - t)) (xs @ ys) =
   take (nat (n - t)) xs @ take (nat (n - (t + int (length (take (nat (n - t)) xs))))) ys"
proof -
  have "nat (n - t) - length xs = nat (n - (t + int (min (length xs) (nat (n - t)))))" by linarith
  then show ?thesis by simp
qed

lemma scan_leaves_Cons:
  assumes "chain h (a # ls)" "\<forall>l \<in> set (a # ls). leaf_ok (h ! l)" "idx \<le> num (h ! a)" "taken \<le> n"
  shows "scan_leaves h (Some a) idx taken n acc =
    (let xs = take (nat (n - taken)) (drop idx (leaf_vals (h ! a)) @ vals_of h ls)
     in Some (taken + int (length xs), xor_all xs acc))"
  using assms
proof (induction ls arbitrary: a idx taken acc)
  case Nil
  have "num (h ! a) \<le> length (vals (h ! a))" using Nil.prems(2) by (simp add: leaf_ok_def)
  then show ?case using Nil.prems
    by (subst scan_leaves.simps) (simp add: scan_leaf_eq xor_all_def scan_leaves.simps [of _ None] Let_def)
next
  case (Cons b ls)
  have nv: "num (h ! a) \<le> length (vals (h ! a))" using Cons.prems(2) by (simp add: leaf_ok_def)
  have nx: "next_leaf (h ! a) = Some b" using Cons.prems(1) by simp
  show ?case
  proof (cases "taken < n")
    case True
    let ?xs = "take (nat (n - taken)) (drop idx (leaf_vals (h ! a)))"
    have le: "taken + int (length ?xs) \<le> n" using True by (simp add: min_def) linarith
    have rest: "take (nat (n - taken)) (drop idx (leaf_vals (h ! a)) @ vals_of h (b # ls)) =
        ?xs @ take (nat (n - (taken + int (length ?xs)))) (leaf_vals (h ! b) @ vals_of h ls)"
      (is "_ = ?xs @ ?ys") by (simp only: take_budget vals_of_simps)
    have "scan_leaves h (Some a) idx taken n acc =
        scan_leaves h (Some b) 0 (taken + int (length ?xs)) n (xor_all ?xs acc)"
      using True by (subst scan_leaves.simps) (simp add: scan_leaf_eq nv nx xor_all_def Let_def)
    also have "\<dots> = Some (taken + int (length ?xs) + int (length ?ys), xor_all ?ys (xor_all ?xs acc))"
      by (subst Cons.IH) (use Cons.prems(1,2) le in \<open>simp_all only: Let_def drop_0 chain.simps\<close>, auto)
    finally show ?thesis unfolding rest by (simp only: Let_def length_append xor_all_simps) simp
  next
    case False
    then show ?thesis by (subst scan_leaves.simps) simp
  qed
qed

definition scan_hits :: "(idx_key_t \<times> idx_val_t) list \<Rightarrow> idx_key_t \<Rightarrow> int \<Rightarrow> idx_val_t list" where
  "scan_hits kv lo n = take (nat n) (map snd (filter (\<lambda>(k, v). lo \<le> k) kv))"

lemma filter_zip_sorted:
  "sorted_wrt (<) ks \<Longrightarrow> length ks = length vs \<Longrightarrow>
   map snd (filter (\<lambda>(k, v). lo \<le> k) (zip ks vs)) = drop (length (takeWhile (\<lambda>x. x < lo) ks)) vs"
  for ks :: "idx_key_t list"
proof (induction ks vs rule: list_induct2')
  case (4 k ks v vs)
  show ?case
  proof (cases "k < lo")
    case False
    have "filter (\<lambda>(k, v). lo \<le> k) (zip ks vs) = zip ks vs"
      using 4 False by (intro filter_True) (fastforce dest: set_zip_leftD)
    with False 4 show ?thesis by simp
  qed (use 4 in auto)
qed auto

lemma bracket_scan:
  assumes b: "bracket h d a lo ls1 l ls2" and srt: "sorted_wrt (<) (leaf_keys (h ! l))"
    and t: "tree_at h d a kv"
  shows "map snd (filter (\<lambda>(k, v). lo \<le> k) kv) =
    drop (length (takeWhile (\<lambda>x. x < lo) (leaf_keys (h ! l)))) (leaf_vals (h ! l)) @ vals_of h ls2"
proof -
  have len: "length (keys_of h ls1) = length (vals_of h ls1)" "length (keys_of h ls2) = length (vals_of h ls2)"
    using b length_keys_vals by (auto simp: bracket_def)
  have "filter (\<lambda>(k, v). lo \<le> k) (zip (keys_of h ls1) (vals_of h ls1)) = []"
    using b by (fastforce simp: bracket_def filter_empty_conv dest: set_zip_leftD)
  moreover have "filter (\<lambda>(k, v). lo \<le> k) (zip (keys_of h ls2) (vals_of h ls2)) =
      zip (keys_of h ls2) (vals_of h ls2)"
    using b by (intro filter_True) (fastforce simp: bracket_def dest: set_zip_leftD)
  moreover have "length (leaf_keys (h ! l)) = length (leaf_vals (h ! l))"
    using b by (simp add: bracket_def)
  ultimately show ?thesis using t bracket_zip [OF b] len filter_zip_sorted [OF srt, of "leaf_vals (h ! l)" lo]
    by (simp add: tree_at_def)
qed

lemma scan_holds:
  assumes "holds t kv"
  shows "scan t lo n sink =
    Some (int (length (scan_hits kv lo n)), sink XOR xor_all (scan_hits kv lo n) 0)"
proof (cases "root t")
  case None
  then show ?thesis using assms
    by (simp add: holds_def scan_def scan_hits_def descend.simps [of _ _ None])
next
  case (Some a)
  with assms obtain d where t: "tree_at (nodes t) d a kv" "sorted_wrt (<) (map fst kv)"
    by (auto simp: holds_def)
  let ?h = "nodes t"
  from tree_bracket [OF t] obtain ls1 l ls2 where b: "bracket ?h d a lo ls1 l ls2" by blast
  then have l: "descend ?h lo (root t) = Some (Some l)" "leaf_ok (?h ! l)" "leaves ?h d a = ls1 @ l # ls2"
      "\<forall>l' \<in> set (l # ls2). leaf_ok (?h ! l')" by (auto simp: bracket_def Some)
  have ch: "chain ?h (l # ls2)" using t(1) l(3) chain_append by (metis tree_at_def)
  have "map fst kv = keys_of ?h ls1 @ leaf_keys (?h ! l) @ keys_of ?h ls2"
    using t(1) fst_zip_leaves [of ?h d a] l(3) by (simp add: tree_at_def)
  then have srt: "sorted_wrt (<) (leaf_keys (?h ! l))" using t(2) by (simp add: sorted_wrt_append)
  have nk: "num (?h ! l) \<le> length (keys (?h ! l))" using l(2) by (simp add: leaf_ok_def)
  have sk: "skip_below lo (?h ! l) 0 = length (takeWhile (\<lambda>x. x < lo) (leaf_keys (?h ! l)))"
    using skip_below_eq [of 0 "?h ! l" lo] nk by simp
  then have "skip_below lo (?h ! l) 0 \<le> num (?h ! l)"
    using length_takeWhile_le [of "\<lambda>x. x < lo" "leaf_keys (?h ! l)"] l(2) by simp
  note go = scan_leaves_Cons [OF ch l(4) this, of 0 n 0]
  have stop: "n < 0 \<Longrightarrow> scan_leaves ?h (Some l) i 0 n 0 = Some (0, 0)" for i
    by (subst scan_leaves.simps) simp
  show ?thesis using go stop bracket_scan [OF b srt t(1)]
    by (cases "0 \<le> n") (simp_all add: scan_def l(1) sk scan_hits_def Let_def)
qed

subsection \<open>Height\<close>

lemma height_loop_wf: "wf_tree h d a \<Longrightarrow> height_loop h (Some a) k = Some (k + d)"
proof (induction d arbitrary: a k)
  case 0
  then show ?case by (subst height_loop.simps) (simp add: leaf_ok_def)
next
  case (Suc d)
  note kid = inner_ok_kids [of "h ! a"]
  have "children (h ! a) ! 0 = Some (kids (h ! a) ! 0)" "kids (h ! a) ! 0 \<in> set (kids (h ! a))"
    using Suc.prems kid by auto
  with Suc show ?case by (subst height_loop.simps) (simp add: inner_ok_def)
qed

subsection \<open>Bulk load: the leaf level\<close>

lemma chain_Cons_iff: "chain h (a # ls) \<longleftrightarrow>
  next_leaf (h ! a) = (case ls of [] \<Rightarrow> None | b # _ \<Rightarrow> Some b) \<and> chain h ls"
  by (cases ls) auto

lemma chain_link:
  assumes "chain h (ls @ [p])" "\<forall>l \<in> set ls. next_leaf (h' ! l) = next_leaf (h ! l)"
    "next_leaf (h' ! p) = Some q" "next_leaf (h' ! q) = None"
  shows "chain h' (ls @ [p, q])"
  using assms
proof (induction ls)
  case (Cons a ls)
  then show ?case by (cases ls) auto
qed simp

definition leaf_level ::
  "heap \<Rightarrow> nat list \<Rightarrow> nat \<Rightarrow> idx_key_t list \<Rightarrow> idx_val_t list \<Rightarrow> nat option \<Rightarrow> bool" where
  "leaf_level h level i ks vs prev \<longleftrightarrow> (\<forall>l \<in> set level. l < length h \<and> leaf_ok (h ! l)) \<and>
     distinct level \<and> chain h level \<and> keys_of h level = take i ks \<and> vals_of h level = take i vs \<and>
     prev = (if level = [] then None else Some (last level)) \<and> i = FANOUT * length level"

lemma leaf_level_step:
  assumes inv: "leaf_level h level i ks vs prev" and i: "i < length ks" and len: "length ks = length vs"
    and cnt: "cnt = min FANOUT (length ks - i)"
    and nd: "nd = Node_init\<lparr>is_leaf := True, num := cnt,
        keys := blit (take cnt (drop i ks)) (keys Node_init),
        vals := blit (take cnt (drop i vs)) (vals Node_init), next_leaf := None\<rparr>"
    and h2: "h2 = (case prev of None \<Rightarrow> h @ [nd]
        | Some p \<Rightarrow> (h @ [nd])[p := ((h @ [nd]) ! p)\<lparr>next_leaf := Some (length h)\<rparr>])"
  shows "leaf_level h2 (level @ [length h]) (i + FANOUT) ks vs (Some (length h))"
proof -
  let ?a = "length h"
  have lv: "\<forall>l \<in> set level. l < length h \<and> leaf_ok (h ! l)" "distinct level" "chain h level"
    "keys_of h level = take i ks" "vals_of h level = take i vs" "i = FANOUT * length level"
    "prev = (if level = [] then None else Some (last level))"
    using inv by (simp_all add: leaf_level_def)
  have p: "p < length h" if "prev = Some p" for p using that lv(1,7) by (auto split: if_splits)
  have h2a: "h2 ! ?a = nd" and len2: "length h2 = Suc (length h)"
    using p by (auto simp: h2 nth_append nth_list_update_if split: option.splits)
  have sh: "same_shape h h2"
    using same_shape_trans [OF same_shape_append same_shape_next] same_shape_append
    by (auto simp: h2 split: option.splits)
  have v2: "leaf_vals (h2 ! l) = leaf_vals (h ! l)" if "l < length h" for l
    using that p by (auto simp: h2 nth_append nth_list_update_if leaf_vals_def split: option.splits)
  have c: "0 < cnt" "cnt \<le> FANOUT" "length (take cnt (drop i ks)) = cnt" "length (take cnt (drop i vs)) = cnt"
    using i len by (auto simp: cnt FANOUT_def)
  then have ok: "leaf_ok nd" "leaf_keys nd = take cnt (drop i ks)" "leaf_vals nd = take cnt (drop i vs)"
    by (simp_all add: nd leaf_ok_def leaf_keys_def leaf_vals_def Node_init_def blit_def FANOUT_def)
  have tk: "take cnt (drop i ks) = take FANOUT (drop i ks)" "take cnt (drop i vs) = take FANOUT (drop i vs)"
    using len by (simp_all add: cnt min_def)
  have K: "keys_of h2 level = take i ks" using same_shape_keys_of [OF sh, of level] lv by simp
  have V: "vals_of h2 level = take i vs" using vals_of_cong [of level h2 h] v2 lv by simp
  have "chain h2 (level @ [?a])"
  proof (cases "level = []")
    case True
    then show ?thesis by (simp add: h2a) (simp add: nd)
  next
    case False
    then obtain ls q where l: "level = ls @ [q]" by (metis rev_exhaust)
    have "next_leaf (h2 ! q) = Some ?a" "next_leaf (h2 ! ?a) = None"
      "\<forall>l \<in> set ls. next_leaf (h2 ! l) = next_leaf (h ! l)"
      using lv l by (auto simp: h2 nd nth_append nth_list_update_if)
    with chain_link [of h ls q h2 ?a] lv(3) l show ?thesis by simp
  qed
  moreover have "\<forall>l \<in> set (level @ [?a]). l < length h2 \<and> leaf_ok (h2 ! l)"
    using lv(1) ok(1) h2a len2 same_shape_leaf(1) [OF sh] by (auto simp: less_SucI)
  moreover have "distinct (level @ [?a])" using lv(1,2) by auto
  ultimately show ?thesis using lv(6) K V h2a ok tk
    by (simp add: leaf_level_def take_add)
qed

lemma build_leaves_spec:
  assumes "leaf_level h level i ks vs prev" "length ks = length vs" "i < length ks + FANOUT"
    and "build_leaves ks vs i h prev level = (h', level')"
  shows "\<exists>j prev'. leaf_level h' level' j ks vs prev' \<and> length ks \<le> j \<and> j < length ks + FANOUT"
  using assms
proof (induction ks vs i h prev level rule: build_leaves.induct)
  case (1 ks vs i h prev level)
  show ?case
  proof (cases "i < length ks")
    case False
    with 1 show ?thesis by (auto simp: build_leaves.simps [of ks vs i])
  next
    case True
    from 1(1) [OF True refl refl refl refl refl leaf_level_step [OF 1(2) True 1(3) refl refl refl] 1(3)]
    show ?thesis using True 1(5) by (subst (asm) (2) build_leaves.simps) (simp add: Let_def)
  qed
qed

subsection \<open>Bulk load: the inner levels\<close>

lemma low_Suc:
  assumes "wf_tree h (Suc d) a"
  shows "low h (Suc d) a = low h d (kids (h ! a) ! 0)" "wf_tree h d (kids (h ! a) ! 0)"
    "children (h ! a) ! 0 = Some (kids (h ! a) ! 0)"
proof -
  note kid = inner_ok_kids [of "h ! a"]
  obtain c cs where c: "kids (h ! a) = c # cs" using assms kid(1) by (cases "kids (h ! a)") auto
  then have "keys_of h (leaves h d c) \<noteq> []" using assms by (intro wf_keys_ne) simp
  with c show "low h (Suc d) a = low h d (kids (h ! a) ! 0)" by (simp add: low_def)
  show "wf_tree h d (kids (h ! a) ! 0)" "children (h ! a) ! 0 = Some (kids (h ! a) ! 0)"
    using assms kid(2) [of 0] c by auto
qed

lemma first_key_wf: "wf_tree h d a \<Longrightarrow> first_key h a = Some (low h d a)"
proof (induction d arbitrary: a)
  case 0
  then show ?case
    by (subst first_key.simps) (cases "keys (h ! a)", auto simp: leaf_ok_def low_def leaf_keys_def FANOUT_def)
next
  case (Suc d)
  note l = low_Suc [OF Suc.prems]
  have "\<not> is_leaf (h ! a)" using Suc.prems by (simp add: inner_ok_def)
  with l Suc.IH [OF l(2)] show ?case by (subst first_key.simps) simp
qed

lemma first_keys_wf: "\<forall>a \<in> set as. wf_tree h d a \<Longrightarrow> first_keys h as = Some (map (low h d) as)"
  by (induction as) (simp_all add: first_key_wf [of h d])

definition parent_level :: "heap \<Rightarrow> nat \<Rightarrow> nat list \<Rightarrow> nat \<Rightarrow> nat list \<Rightarrow> bool" where
  "parent_level h d level i parents \<longleftrightarrow> (\<forall>c \<in> set level. wf_tree h d c) \<and>
     (\<forall>p \<in> set parents. wf_tree h (Suc d) p) \<and> i = (FANOUT + 1) * length parents \<and>
     concat (map (leaves h (Suc d)) parents) = concat (map (leaves h d) (take i level))"

lemma leaves_append: "wf_tree h d a \<Longrightarrow> leaves (h @ hs) d a = leaves h d a \<and> wf_tree (h @ hs) d a \<and>
    low (h @ hs) d a = low h d a"
  using same_shape_tree [OF same_shape_append] by blast

lemma concat_leaves_append:
  "\<forall>a \<in> set as. wf_tree h d a \<Longrightarrow>
    concat (map (leaves (h @ hs) d) as) = concat (map (leaves h d) as)"
  using leaves_append by (metis map_cong)

lemma new_inner:
  assumes cs: "cs \<noteq> []" "length cs \<le> FANOUT + 1" "\<forall>c \<in> set cs. wf_tree h d c"
    and nd: "nd = Node_init\<lparr>is_leaf := False, num := length cs - 1,
        children := blit (map Some cs) (children Node_init),
        keys := blit (map (low h d) (drop 1 cs)) (keys Node_init), next_leaf := None\<rparr>"
  shows "wf_tree (h @ [nd]) (Suc d) (length h)" "leaves (h @ [nd]) (Suc d) (length h) = concat (map (leaves h d) cs)"
proof -
  have kd: "kids nd = cs" using cs by (simp add: nd kids_def blit_def o_def)
  have "children nd ! i = Some (cs ! i)" if "i \<le> length cs - 1" for i
  proof -
    have "i < length cs" using that cs(1) by (cases cs) auto
    then show ?thesis by (simp add: nd blit_def nth_append)
  qed
  with cs have "inner_ok nd"
    by (simp add: inner_ok_def nd blit_def Node_init_def FANOUT_def)
  moreover have "keys nd ! i = low h d (cs ! Suc i)" if "i < length cs - 1" for i
    using that by (simp add: nd blit_def nth_append)
  moreover have "num nd = length cs - 1" by (simp add: nd)
  ultimately show "wf_tree (h @ [nd]) (Suc d) (length h)"
    using cs(3) leaves_append by (simp add: kd)
  show "leaves (h @ [nd]) (Suc d) (length h) = concat (map (leaves h d) cs)"
    using concat_leaves_append [OF cs(3)] by (simp add: kd)
qed

lemma parent_level_snoc:
  assumes "parent_level h d level i parents" "wf_tree (h @ [nd]) (Suc d) (length h)"
    "leaves (h @ [nd]) (Suc d) (length h) = concat (map (leaves h d) cs)"
    "take (i + (FANOUT + 1)) level = take i level @ cs"
  shows "parent_level (h @ [nd]) d level (i + (FANOUT + 1)) (parents @ [length h])"
proof -
  have wl: "\<forall>c \<in> set level. wf_tree h d c" and wp: "\<forall>p \<in> set parents. wf_tree h (Suc d) p"
    using assms(1) by (simp_all add: parent_level_def)
  have "\<forall>c \<in> set (take (i + (FANOUT + 1)) level). wf_tree h d c" using wl by (auto dest: in_set_takeD)
  note concat_leaves_append [OF this, of "[nd]"] concat_leaves_append [OF wp, of "[nd]"]
  moreover have "\<forall>c \<in> set level. wf_tree (h @ [nd]) d c" "\<forall>p \<in> set parents. wf_tree (h @ [nd]) (Suc d) p"
    using wl wp leaves_append by blast+
  ultimately show ?thesis using assms unfolding parent_level_def
    by (simp del: leaves.simps wf_tree.simps)
qed

lemma build_parents_spec:
  assumes "parent_level h d level i parents" "i < length level + (FANOUT + 1)"
  shows "\<exists>hs parents' j. build_parents h level i parents = Some (h @ hs, parents') \<and>
    parent_level (h @ hs) d level j parents' \<and> length level \<le> j \<and> j < length level + (FANOUT + 1)"
  using assms
proof (induction h level i parents rule: build_parents.induct)
  case (1 h level i parents)
  show ?case
  proof (cases "i < length level")
    case False
    then have "build_parents h level i parents = Some (h @ [], parents)"
      by (simp add: build_parents.simps [of h level i])
    with False 1(2,3) show ?thesis by (intro exI [of _ "[]"] exI [of _ parents] exI [of _ i]) auto
  next
    case True
    define cnt where "cnt = min (FANOUT + 1) (length level - i)"
    define cs where "cs = take cnt (drop i level)"
    define nd where "nd = Node_init\<lparr>is_leaf := False, num := cnt - 1,
        children := blit (map Some cs) (children Node_init),
        keys := blit (map (low h d) (drop 1 cs)) (keys Node_init), next_leaf := None\<rparr>"
    have wl: "\<forall>c \<in> set level. wf_tree h d c" using 1(2) by (simp add: parent_level_def)
    have cs: "length cs = cnt" "cs \<noteq> []" "cnt \<le> FANOUT + 1" "\<forall>c \<in> set cs. wf_tree h d c"
      using True wl by (auto simp: cs_def cnt_def dest!: in_set_takeD in_set_dropD)
    have fk: "first_keys h (drop 1 cs) = Some (map (low h d) (drop 1 cs))"
      using cs(4) by (intro first_keys_wf) (auto dest: in_set_dropD)
    have step: "build_parents h level i parents =
        build_parents (h @ [nd]) level (i + (FANOUT + 1)) (parents @ [length h])"
      using True fk by (subst build_parents.simps) (simp only: Let_def if_True option.case flip: cnt_def cs_def nd_def)
    have "take (i + (FANOUT + 1)) level = take i level @ cs"
      using take_add [of i "FANOUT + 1" level] by (simp only: cs_def cnt_def) (simp add: min_def)
    moreover have "nd = Node_init\<lparr>is_leaf := False, num := length cs - 1,
        children := blit (map Some cs) (children Node_init),
        keys := blit (map (low h d) (drop 1 cs)) (keys Node_init), next_leaf := None\<rparr>"
      by (simp only: nd_def cs(1))
    note ni = new_inner [OF cs(2) _ cs(4) this, unfolded cs(1), OF cs(3)]
    ultimately have "parent_level (h @ [nd]) d level (i + (FANOUT + 1)) (parents @ [length h])"
      by (intro parent_level_snoc [OF 1(2) ni]) simp_all
    with 1(1) [OF True refl cnt_def cs_def fk nd_def] obtain hs ps j where
      "build_parents (h @ [nd]) level (i + (FANOUT + 1)) (parents @ [length h]) = Some ((h @ [nd]) @ hs, ps)"
      "parent_level ((h @ [nd]) @ hs) d level j ps" "length level \<le> j" "j < length level + (FANOUT + 1)"
      using True by auto
    then show ?thesis unfolding step by auto
  qed
qed

lemma concat_take_all: "length level \<le> j \<Longrightarrow> concat (map f (take j level)) = concat (map f level)"
  by simp

lemma build_levels_spec:
  assumes "level \<noteq> []" "\<forall>c \<in> set level. wf_tree h d c"
  shows "\<exists>hs r d'. build_levels h level = Some (h @ hs, [r]) \<and> wf_tree (h @ hs) d' r \<and> d \<le> d' \<and>
    leaves (h @ hs) d' r = concat (map (leaves h d) level) \<and>
    length level \<le> (FANOUT + 1) ^ (d' - d) \<and> (d < d' \<longrightarrow> (FANOUT + 1) ^ (d' - d - 1) < length level)"
  using assms
proof (induction "length level" arbitrary: level h d rule: less_induct)
  case less
  show ?case
  proof (cases "length level > 1")
    case False
    then obtain r where "level = [r]" using less.prems(1) by (cases level) auto
    with less.prems show ?thesis by (subst build_levels.simps) auto
  next
    case True
    have "parent_level h d level 0 []" using less.prems by (simp add: parent_level_def)
    from build_parents_spec [OF this] obtain hs ps j where p:
      "build_parents h level 0 [] = Some (h @ hs, ps)" "parent_level (h @ hs) d level j ps"
      "length level \<le> j" "j < length level + (FANOUT + 1)" by auto
    have j: "j = 16 * length ps" using p(2) by (simp add: parent_level_def FANOUT_def)
    have bounds: "ps \<noteq> []" "length ps < length level" "length level \<le> 16 * length ps"
      "16 * (length ps - 1) < length level"
      using p(3,4) True j by (auto simp: FANOUT_def)
    have wp: "\<forall>p \<in> set ps. wf_tree (h @ hs) (Suc d) p" using p(2) by (simp add: parent_level_def)
    from less.hyps [OF bounds(2,1) wp] obtain hs' r d' where IH:
      "build_levels (h @ hs) ps = Some ((h @ hs) @ hs', [r])" "wf_tree ((h @ hs) @ hs') d' r" "Suc d \<le> d'"
      "leaves ((h @ hs) @ hs') d' r = concat (map (leaves (h @ hs) (Suc d)) ps)"
      "length ps \<le> 16 ^ (d' - Suc d)" "Suc d < d' \<longrightarrow> 16 ^ (d' - Suc d - 1) < length ps"
      by (auto simp: FANOUT_def)
    have e: "d' - d = Suc (d' - Suc d)" using IH(3) by simp
    have up: "length level \<le> 16 ^ (d' - d)" using IH(5) bounds(3) by (simp add: e)
    have lo: "16 ^ (d' - d - 1) < length level"
    proof (cases "Suc d < d'")
      case True
      then have "(16::nat) ^ (d' - d - 1) = 16 * 16 ^ (d' - Suc d - 1)"
        by (metis Suc_diff_Suc diff_Suc_1 e power_Suc diff_diff_left plus_1_eq_Suc)
      also have "\<dots> \<le> 16 * (length ps - 1)" using IH(6) True by simp
      finally show ?thesis using bounds(4) by simp
    next
      case False
      then have "d' - d - 1 = 0" using IH(3) by simp
      with True show ?thesis by simp
    qed
    have "leaves (h @ (hs @ hs')) d' r = concat (map (leaves h d) level)"
      using IH(4) p(2,3) concat_leaves_append [OF less.prems(2), of hs]
      by (simp add: parent_level_def)
    moreover have "build_levels h level = Some (h @ (hs @ hs'), [r])"
      using True p(1) IH(1) by (subst build_levels.simps) simp
    ultimately show ?thesis using IH(2,3) up lo
      by (intro exI [of _ "hs @ hs'"] exI [of _ r] exI [of _ d']) (simp add: FANOUT_def)
  qed
qed

lemma bulk_load_spec:
  assumes "length ks = length vs" "sorted_wrt (<) ks"
  shows "\<exists>t'. bulk_load ks vs t = Some t' \<and> holds t' (zip ks vs) \<and>
    node_count t' = node_count t + (length (nodes t') - length (nodes t)) \<and>
    (\<exists>hh. height t' = Some (Suc hh) \<and> (length ks + 14) div 15 \<le> 16 ^ hh \<and>
       (0 < hh \<longrightarrow> 16 ^ (hh - 1) < (length ks + 14) div 15))"
proof -
  obtain h level where bl: "build_leaves ks vs 0 (nodes t) None [] = (h, level)" by fastforce
  have "leaf_level (nodes t) [] 0 ks vs None" by (simp add: leaf_level_def)
  from build_leaves_spec [OF this assms(1) _ bl] obtain j prev where
    lv: "leaf_level h level j ks vs prev" "length ks \<le> j" "j < length ks + FANOUT"
    by (auto simp: FANOUT_def)
  have L: "length level = (length ks + 14) div 15"
    using lv by (auto simp: leaf_level_def FANOUT_def)
  have kv: "keys_of h level = ks" "vals_of h level = vs" "distinct level" "chain h level"
    "\<forall>l \<in> set level. wf_tree h 0 l"
    using lv assms(1) by (auto simp: leaf_level_def)
  show ?thesis
  proof (cases "level = []")
    case True
    then have "ks = []" "vs = []" using kv by auto
    moreover have "build_levels h [] = Some (h, [])" by (subst build_levels.simps) simp
    ultimately show ?thesis using bl True
      by (auto simp: bulk_load_def holds_def height_def height_loop.simps [of _ None])
  next
    case False
    have "concat (map (leaves h 0) level) = level" by (induction level) simp_all
    with build_levels_spec [OF False kv(5)] obtain hs r d where b:
      "build_levels h level = Some (h @ hs, [r])" "wf_tree (h @ hs) d r" "leaves (h @ hs) d r = level"
      "length level \<le> 16 ^ d" "0 < d \<longrightarrow> 16 ^ (d - 1) < length level"
      by (fastforce simp: FANOUT_def)
    have lt: "\<forall>l \<in> set level. l < length h" using kv(5) by auto
    have "keys_of (h @ hs) level = ks"
      using same_shape_keys_of [OF same_shape_append lt] kv by simp
    moreover have "vals_of (h @ hs) level = vs"
      using vals_of_cong [of level "h @ hs" h] kv lt by (simp add: nth_append)
    moreover have "chain (h @ hs) level"
      using chain_cong [of level "h @ hs" h] kv lt by (simp add: nth_append)
    ultimately have "tree_at (h @ hs) d r (zip ks vs)" using b kv by (simp add: tree_at_def)
    then show ?thesis using bl b assms L
      by (auto simp: bulk_load_def holds_def height_def height_loop_wf)
  qed
qed

end
