(* ===== verification/Index_Iface.thy ===== *)
theory Index_Iface
  imports BPlus_Tree
begin

text \<open>
  The index interface (\<^verbatim>\<open>index_iface.hpp\<close>) behind which the driver sees every index. A class that
  implements \<^verbatim>\<open>IIndex\<close> is a record of operations on a state \<open>'s\<close>; an operation's \<open>None\<close> is a call
  that does not return a value (a failed assertion, undefined behaviour, an endless loop).

  The contract the driver relies on is the locale \<open>point_index\<close>: an index represents a partial map,
  a lookup returns the stored value or 0, an update or a removal reports whether the key is
  present and never adds or drops a key (a removal stores the value 0), a scan returns at most as
  many entries as asked for. \<open>loadable_index\<close> adds what loading distinct keys gives. The indexes
  the program brings interpret these locales.
\<close>

record 's IIndex =
  ii_bulk_load :: "idx_key_t list \<Rightarrow> idx_val_t list \<Rightarrow> 's \<Rightarrow> 's option"
  ii_insert :: "idx_key_t \<Rightarrow> idx_val_t \<Rightarrow> 's \<Rightarrow> ('s \<times> bool) option"
  ii_lookup :: "'s \<Rightarrow> idx_key_t \<Rightarrow> idx_val_t option"
  ii_update :: "idx_key_t \<Rightarrow> idx_val_t \<Rightarrow> 's \<Rightarrow> ('s \<times> bool) option"
  ii_remove :: "idx_key_t \<Rightarrow> 's \<Rightarrow> ('s \<times> bool) option"
  ii_scan :: "'s \<Rightarrow> idx_key_t \<Rightarrow> int \<Rightarrow> idx_val_t \<Rightarrow> (int \<times> idx_val_t) option"
  ii_name :: string
  ii_thread_safe :: bool
  ii_concurrent_safe :: bool

text \<open>The default \<^verbatim>\<open>bulk_load\<close>: the loop \<^verbatim>\<open>insert(keys[i], vals[i])\<close>; reading past the end of
  \<^verbatim>\<open>vals\<close> is undefined.\<close>

fun default_bulk_load ::
  "(idx_key_t \<Rightarrow> idx_val_t \<Rightarrow> 's \<Rightarrow> ('s \<times> bool) option) \<Rightarrow> idx_key_t list \<Rightarrow> idx_val_t list \<Rightarrow> 's \<Rightarrow> 's option"
where
  "default_bulk_load ins [] vs s = Some s"
| "default_bulk_load ins (k # ks) [] s = None"
| "default_bulk_load ins (k # ks) (v # vs) s =
     (case ins k v s of None \<Rightarrow> None | Some (s', _) \<Rightarrow> default_bulk_load ins ks vs s')"

type_synonym idx_map = "idx_key_t \<rightharpoonup> idx_val_t"

text \<open>What an update leaves: present keys change, absent keys stay absent.\<close>

definition overwrite :: "idx_key_t \<Rightarrow> idx_val_t \<Rightarrow> idx_map \<Rightarrow> idx_map" where
  "overwrite k v m = (if m k = None then m else m(k \<mapsto> v))"

lemma dom_overwrite [simp]: "dom (overwrite k v m) = dom m"
  by (auto simp: overwrite_def)

lemma overwrite_apply: "overwrite k v m k' = (if k' = k \<and> m k \<noteq> None then Some v else m k')"
  by (simp add: overwrite_def)

locale point_index =
  fixes ix :: "'s IIndex" and rel :: "'s \<Rightarrow> idx_map \<Rightarrow> bool"
  assumes lookup_law: "rel s m \<Longrightarrow> ii_lookup ix s k = Some (val_or_0 (m k))"
    and update_law: "rel s m \<Longrightarrow>
      \<exists>s'. ii_update ix k v s = Some (s', m k \<noteq> None) \<and> rel s' (overwrite k v m)"
    and remove_law: "rel s m \<Longrightarrow>
      \<exists>s'. ii_remove ix k s = Some (s', m k \<noteq> None) \<and> rel s' (overwrite k 0 m)"
    and scan_law: "rel s m \<Longrightarrow>
      \<exists>c x. ii_scan ix s lo n sink = Some (c, x) \<and> 0 \<le> c \<and> c \<le> max 0 n"
begin

text \<open>An updated key that is present reads back, other keys are not disturbed.\<close>

lemma update_lookup:
  assumes "rel s m" "ii_update ix k v s = Some (s', b)"
  shows "ii_lookup ix s' k' = (if k' = k \<and> b then Some v else ii_lookup ix s k')"
proof -
  from update_law [OF assms(1), of k v] assms(2) have b: "b = (m k \<noteq> None)"
    and r: "rel s' (overwrite k v m)" by auto
  show ?thesis unfolding lookup_law [OF r] lookup_law [OF assms(1)] b
    by (auto simp: overwrite_apply val_or_0_def)
qed

text \<open>Any sequence of writes returns and keeps the set of keys.\<close>

lemma update_dom:
  assumes "rel s m" "ii_update ix k v s = Some (s', b)"
  shows "\<exists>m'. rel s' m' \<and> dom m' = dom m"
proof (intro exI conjI)
  show "rel s' (overwrite k v m)" using update_law [OF assms(1), of k v] assms(2) by auto
qed (rule dom_overwrite)

end

locale loadable_index = point_index ix rel
  for ix :: "'s IIndex" and rel :: "'s \<Rightarrow> idx_map \<Rightarrow> bool" +
  fixes fresh :: "'s \<Rightarrow> bool"
  assumes load_law: "fresh s0 \<Longrightarrow> distinct ks \<Longrightarrow> length ks = length vs \<Longrightarrow>
      \<exists>s. ii_bulk_load ix ks vs s0 = Some s \<and> rel s (map_of (zip ks vs))"
begin

text \<open>Every loaded key is found with its value, every other key reads 0.\<close>

lemma load_lookup:
  assumes "fresh s0" "distinct ks" "length ks = length vs"
  shows "\<exists>s. ii_bulk_load ix ks vs s0 = Some s \<and>
    (\<forall>i < length ks. ii_lookup ix s (ks ! i) = Some (vs ! i)) \<and>
    (\<forall>k. k \<notin> set ks \<longrightarrow> ii_lookup ix s k = Some 0)"
proof -
  from load_law [OF assms] obtain s where s: "ii_bulk_load ix ks vs s0 = Some s"
    "rel s (map_of (zip ks vs))" by blast
  note look = lookup_law [OF s(2)]
  have "ii_lookup ix s (ks ! i) = Some (vs ! i)" if "i < length ks" for i
    using look map_of_zip_nth [OF assms(3,2)] that assms(3) by (simp add: val_or_0_def)
  moreover have "ii_lookup ix s k = Some 0" if "k \<notin> set ks" for k
    using look [of k] that map_of_zip_is_None [OF assms(3)] by (metis option.simps(4) val_or_0_def)
  ultimately show ?thesis using s(1) by blast
qed

end

end
