(* ===== verification/BTree_Adapter.thy ===== *)
theory BTree_Adapter
  imports Index_Iface "HOL-Library.Multiset"
begin

text \<open>
  The built-in B+tree behind the index interface (\<^verbatim>\<open>adapters/builtin_btree_adapter.hpp\<close>), and the
  properties of the tree itself. \<^verbatim>\<open>std::sort\<close> on the positions is the stable \<open>sort_key\<close>; the
  standard leaves the order of positions with equal keys open, so the results below are for
  distinct keys, where there is only one order.
\<close>

definition cosort :: "idx_key_t list \<Rightarrow> nat list" where
  "cosort ks = sort_key (\<lambda>i. ks ! i) [0..<length ks]"

text \<open>\<open>None\<close>: a read past the end of \<^verbatim>\<open>vals\<close>, or the assertion on the sizes.\<close>

definition bt_bulk_load :: "idx_key_t list \<Rightarrow> idx_val_t list \<Rightarrow> BPlusTree \<Rightarrow> BPlusTree option" where
  "bt_bulk_load ks vs t =
     (if length vs \<noteq> length ks then None
      else let order = cosort ks
           in bulk_load (map (\<lambda>i. ks ! i) order) (map (\<lambda>i. vs ! i) order) t)"

definition bt_insert :: "idx_key_t \<Rightarrow> idx_val_t \<Rightarrow> BPlusTree \<Rightarrow> (BPlusTree \<times> bool) option" where
  "bt_insert k v t = Some (t, False)"

definition BuiltinBTreeAdapter :: "BPlusTree IIndex" where
  "BuiltinBTreeAdapter = \<lparr>ii_bulk_load = bt_bulk_load, ii_insert = bt_insert, ii_lookup = lookup,
     ii_update = update, ii_remove = remove, ii_scan = scan, ii_name = ''builtin-btree'',
     ii_thread_safe = False, ii_concurrent_safe = False\<rparr>"

definition bt_rel :: "BPlusTree \<Rightarrow> idx_map \<Rightarrow> bool" where
  "bt_rel t m \<longleftrightarrow> (\<exists>kv. holds t kv \<and> m = map_of kv)"

lemma bt_sel [simp]:
  "ii_bulk_load BuiltinBTreeAdapter = bt_bulk_load" "ii_insert BuiltinBTreeAdapter = bt_insert"
  "ii_lookup BuiltinBTreeAdapter = lookup" "ii_update BuiltinBTreeAdapter = update"
  "ii_remove BuiltinBTreeAdapter = remove" "ii_scan BuiltinBTreeAdapter = scan"
  by (simp_all add: BuiltinBTreeAdapter_def)

lemma holds_fst: "k \<in> fst ` set kv \<longleftrightarrow> map_of kv k \<noteq> None"
  by (simp add: map_of_eq_None_iff)

lemma overwrite_map_of: "overwrite k v (map_of kv) = map_of (upd_all k v kv)"
  by (auto simp: overwrite_def map_of_upd_all holds_fst)

lemma bt_update_law:
  assumes "bt_rel t m"
  shows "\<exists>t'. update k v t = Some (t', m k \<noteq> None) \<and> bt_rel t' (overwrite k v m)"
proof -
  from assms obtain kv where kv: "holds t kv" "m = map_of kv" by (auto simp: bt_rel_def)
  from update_holds [OF kv(1), of k v] obtain t' where
    "update k v t = Some (t', k \<in> fst ` set kv)" "holds t' (upd_all k v kv)" by blast
  with kv(2) show ?thesis by (auto simp: bt_rel_def overwrite_map_of holds_fst)
qed

subsection \<open>The co-sort\<close>

lemma cosort_perm: "mset (cosort ks) = mset [0..<length ks]"
  by (simp add: cosort_def)

lemma cosort_keys: "map (\<lambda>i. ks ! i) (cosort ks) = sort ks"
proof -
  have "sort ks = map (\<lambda>i. ks ! i) (cosort ks)"
  proof (rule properties_for_sort)
    have "mset (map (\<lambda>i. ks ! i) (cosort ks)) = image_mset (\<lambda>i. ks ! i) (mset [0..<length ks])"
      by (simp only: cosort_perm mset_map)
    then show "mset (map (\<lambda>i. ks ! i) (cosort ks)) = mset ks" by (metis map_nth mset_map)
    show "sorted (map (\<lambda>i. ks ! i) (cosort ks))" by (simp add: cosort_def)
  qed
  then show ?thesis by simp
qed

lemma cosort_zip:
  assumes "distinct ks" "length vs = length ks"
  shows "map_of (zip (map (\<lambda>i. ks ! i) (cosort ks)) (map (\<lambda>i. vs ! i) (cosort ks))) = map_of (zip ks vs)"
proof -
  let ?z = "zip (map (\<lambda>i. ks ! i) (cosort ks)) (map (\<lambda>i. vs ! i) (cosort ks))"
  have "mset ?z = mset (map (\<lambda>i. (ks ! i, vs ! i)) [0..<length ks])"
    by (simp add: zip_map_map zip_same_conv_map o_def cosort_perm flip: mset_map) (simp add: cosort_perm)
  also have "map (\<lambda>i. (ks ! i, vs ! i)) [0..<length ks] = zip ks vs"
    using assms(2) by (intro nth_equalityI) simp_all
  finally have "set ?z = set (zip ks vs)" by (rule mset_eq_setD)
  moreover have "map fst ?z = sort ks" by (simp add: map_fst_zip flip: cosort_keys)
  then have "distinct (map fst ?z)" "distinct (map fst (zip ks vs))"
    using assms by (simp_all only: distinct_sort map_fst_zip)
  ultimately show ?thesis by (metis map_of_inject_set)
qed

lemma bt_load_law:
  assumes "distinct ks" "length ks = length vs"
  shows "\<exists>t'. bt_bulk_load ks vs t = Some t' \<and> bt_rel t' (map_of (zip ks vs))"
proof -
  let ?ks = "map (\<lambda>i. ks ! i) (cosort ks)" and ?vs = "map (\<lambda>i. vs ! i) (cosort ks)"
  have "sorted_wrt (<) ?ks" using assms(1) by (simp add: cosort_keys strict_sorted_iff)
  with bulk_load_spec [of ?ks ?vs t] obtain t' where
    "bulk_load ?ks ?vs t = Some t'" "holds t' (zip ?ks ?vs)" by auto
  with assms cosort_zip [OF assms(1), of vs] show ?thesis
    by (auto simp: bt_bulk_load_def bt_rel_def Let_def)
qed

interpretation bt: loadable_index BuiltinBTreeAdapter bt_rel "\<lambda>t. True"
proof (unfold_locales, goal_cases)
  case (1 s m k)
  then show ?case by (auto simp: bt_rel_def lookup_holds)
next
  case (2 s m k v)
  then show ?case by (simp add: bt_update_law del: not_None_eq)
next
  case (3 s m k)
  then show ?case by (simp add: remove_def bt_update_law del: not_None_eq)
next
  case (4 s m lo n sink)
  then obtain kv where "holds s kv" by (auto simp: bt_rel_def)
  from scan_holds [OF this] show ?case by (auto simp: scan_hits_def)
next
  case (5 t ks vs)
  then show ?case by (simp add: bt_load_law)
qed

subsection \<open>Sorting pairs\<close>

lemma insort_key_map: "insort_key g (f x) (map f xs) = map f (insort_key (\<lambda>a. g (f a)) x xs)"
  by (induction xs) auto

lemma sort_key_map: "sort_key g (map f xs) = map f (sort_key (\<lambda>a. g (f a)) xs)"
  by (induction xs) (simp_all add: insort_key_map)

lemma cosort_pairs:
  assumes "length vs = length ks"
  shows "zip (map (\<lambda>i. ks ! i) (cosort ks)) (map (\<lambda>i. vs ! i) (cosort ks)) = sort_key fst (zip ks vs)"
proof -
  have "zip ks vs = map (\<lambda>i. (ks ! i, vs ! i)) [0..<length ks]"
    using assms by (intro nth_equalityI) simp_all
  then show ?thesis
    by (simp add: sort_key_map cosort_def zip_map_map zip_same_conv_map o_def)
qed

lemma bt_load_holds:
  assumes "distinct ks" "length ks = length vs"
  shows "\<exists>t'. bt_bulk_load ks vs t = Some t' \<and> holds t' (sort_key fst (zip ks vs)) \<and>
    (\<exists>hh. height t' = Some (Suc hh) \<and> (length ks + 14) div 15 \<le> 16 ^ hh \<and>
       (0 < hh \<longrightarrow> 16 ^ (hh - 1) < (length ks + 14) div 15))"
proof -
  let ?ks = "map (\<lambda>i. ks ! i) (cosort ks)" and ?vs = "map (\<lambda>i. vs ! i) (cosort ks)"
  have "sorted_wrt (<) ?ks" using assms(1) by (simp add: cosort_keys strict_sorted_iff)
  moreover have "length ?ks = length ks" by (simp only: cosort_keys length_sort)
  ultimately show ?thesis
    using bulk_load_spec [of ?ks ?vs t] cosort_pairs [of vs ks] assms(2)
    by (auto simp: bt_bulk_load_def Let_def)
qed

subsection \<open>Properties\<close>

text \<open>C12. Loading distinct keys, in any order, into a fresh B+tree returns, and the tree then finds
  every loaded key with its value and reads 0 for every other key.\<close>

theorem btree_load_lookup:
  assumes "distinct ks" "length ks = length vs"
  shows "\<exists>t. bt_bulk_load ks vs BPlusTree_new = Some t \<and>
    (\<forall>i < length ks. lookup t (ks ! i) = Some (vs ! i)) \<and> (\<forall>k. k \<notin> set ks \<longrightarrow> lookup t k = Some 0)"
  using bt.load_lookup [OF TrueI assms] by simp

theorem btree_load_lookup_witness:
  "\<exists>t. bt_bulk_load [7, 3, 9] [70, 30, 90] BPlusTree_new = Some t \<and>
    lookup t 7 = Some 70 \<and> lookup t 3 = Some 30 \<and> lookup t 9 = Some 90 \<and> lookup t 8 = Some 0"
  using btree_load_lookup [of "[7, 3, 9]" "[70, 30, 90]"] by (auto simp: less_Suc_eq all_conj_distrib)

text \<open>C13. On a loaded B+tree a scan of \<open>n\<close> entries from \<open>lo\<close> returns, and it visits exactly the
  first \<open>n\<close> entries, in key order, whose key is at least \<open>lo\<close>: the count is their number and the
  exclusive or of their values goes into the sink.\<close>

theorem btree_scan_exact:
  assumes "distinct ks" "length ks = length vs"
  shows "\<exists>t. bt_bulk_load ks vs BPlusTree_new = Some t \<and>
    (\<forall>lo n sink. scan t lo n sink =
       (let hits = take (nat n) (filter (\<lambda>(k, v). lo \<le> k) (sort_key fst (zip ks vs)))
        in Some (int (length hits), fold (\<lambda>(k, v) acc. acc XOR v) hits sink)))"
proof -
  have x: "sink XOR xor_all (map snd kv) acc = fold (\<lambda>(k, v) acc. acc XOR v) kv (sink XOR acc)"
    for kv :: "(idx_key_t \<times> idx_val_t) list" and sink acc
    by (induction kv arbitrary: acc) (auto simp: xor.assoc)
  from bt_load_holds [OF assms, of BPlusTree_new] scan_holds x show ?thesis
    by (fastforce simp: scan_hits_def take_map Let_def)
qed

theorem btree_scan_exact_witness:
  "\<exists>t. bt_bulk_load [7, 3, 9] [70, 30, 90] BPlusTree_new = Some t \<and> scan t 4 5 0 = Some (2, 70 XOR 90)"
proof -
  from btree_scan_exact [of "[7, 3, 9]" "[70, 30, 90]"] obtain t where
    "bt_bulk_load [7, 3, 9] [70, 30, 90] BPlusTree_new = Some t"
    and s: "\<And>lo n sink. scan t lo n sink =
       (let hits = take (nat n) (filter (\<lambda>(k, v). lo \<le> k) (sort_key fst (zip [7, 3, 9] [70, 30, 90])))
        in Some (int (length hits), fold (\<lambda>(k, v) acc. acc XOR v) hits sink))"
    by auto
  with s [of 4 5 0] show ?thesis by simp
qed

text \<open>The loaded B+tree is as low as it can be: with \<open>L\<close> leaves of 15 keys its height \<open>Suc h\<close>
  satisfies \<open>16^(h-1) < L \<le> 16^h\<close>.\<close>

theorem btree_height_log:
  assumes "distinct ks" "length ks = length vs"
  shows "\<exists>t h. bt_bulk_load ks vs BPlusTree_new = Some t \<and> height t = Some (Suc h) \<and>
    (length ks + 14) div 15 \<le> 16 ^ h \<and> (0 < h \<longrightarrow> 16 ^ (h - 1) < (length ks + 14) div 15)"
  using bt_load_holds [OF assms, of BPlusTree_new] by blast

theorem btree_height_log_witness:
  "\<exists>t h. bt_bulk_load [7, 3, 9] [70, 30, 90] BPlusTree_new = Some t \<and> height t = Some (Suc h) \<and> h = 0"
proof -
  from btree_height_log [of "[7, 3, 9]" "[70, 30, 90]"] obtain t h where
    t: "bt_bulk_load [7, 3, 9] [70, 30, 90] BPlusTree_new = Some t" "height t = Some (Suc h)"
    and h: "0 < h \<longrightarrow> 16 ^ (h - 1) < (1::nat)" by auto
  have "h = 0" using h by (metis less_one not_gr_zero power_not_zero zero_neq_numeral)
  with t show ?thesis by blast
qed

subsection \<open>Any history of writes\<close>

inductive bt_reachable :: "idx_key_t list \<Rightarrow> idx_val_t list \<Rightarrow> BPlusTree \<Rightarrow> bool" for ks vs where
  loaded: "bt_bulk_load ks vs BPlusTree_new = Some t \<Longrightarrow> bt_reachable ks vs t"
| updated: "bt_reachable ks vs t \<Longrightarrow> update k v t = Some (t', b) \<Longrightarrow> bt_reachable ks vs t'"
| removed: "bt_reachable ks vs t \<Longrightarrow> remove k t = Some (t', b) \<Longrightarrow> bt_reachable ks vs t'"

lemma bt_reachable_rel:
  assumes "bt_reachable ks vs t" "distinct ks" "length ks = length vs"
  shows "\<exists>m. bt_rel t m \<and> dom m = set ks"
  using assms
proof (induction rule: bt_reachable.induct)
  case (loaded t)
  from bt_load_law [OF loaded(2,3), of BPlusTree_new] loaded show ?case
    by (metis dom_map_of_zip option.inject)
next
  case (updated t k v t' b)
  with bt.update_dom show ?case by fastforce
next
  case (removed t k t' b)
  with bt.update_dom show ?case by (fastforce simp: remove_def)
qed

text \<open>C14. An update on a loaded tree that has already seen any number of updates and removals
  returns; it reports whether the key was loaded, it changes what a lookup of that key returns if
  so, and nothing else; a removal is an update to 0.\<close>

theorem btree_update_in_place:
  assumes "distinct ks" "length ks = length vs" "bt_reachable ks vs t"
  shows "\<exists>t'. update k v t = Some (t', k \<in> set ks) \<and> bt_reachable ks vs t' \<and>
    (\<forall>k'. lookup t' k' = (if k' = k \<and> k \<in> set ks then Some v else lookup t k')) \<and>
    remove k t = update k 0 t"
proof -
  from bt_reachable_rel [OF assms(3,1,2)] obtain m where m: "bt_rel t m" "dom m = set ks" by blast
  from m(2) have "(m k \<noteq> None) = (k \<in> set ks)" by auto
  with bt_update_law [OF m(1), of k v] obtain t' where t': "update k v t = Some (t', k \<in> set ks)"
    by auto
  from bt.update_lookup [OF m(1), of k v] t'
  have "lookup t' k' = (if k' = k \<and> k \<in> set ks then Some v else lookup t k')" for k' by simp
  with t' updated [OF assms(3) t'] show ?thesis by (simp add: remove_def)
qed

theorem btree_update_in_place_witness:
  "\<exists>t t'. bt_bulk_load [7, 3, 9] [70, 30, 90] BPlusTree_new = Some t \<and>
    update 3 5 t = Some (t', True) \<and> lookup t' 3 = Some 5"
proof -
  from bt_load_holds [of "[7, 3, 9]" "[70, 30, 90]" BPlusTree_new] obtain t where
    t: "bt_bulk_load [7, 3, 9] [70, 30, 90] BPlusTree_new = Some t" by auto
  from btree_update_in_place [OF _ _ bt_reachable.loaded [OF t], of 3 5] t show ?thesis by auto
qed

end
