(* ===== verification/Hash_Index.thy ===== *)
theory Hash_Index
  imports Index_Iface
begin

text \<open>
  The built-in chaining hash table (\<^verbatim>\<open>hash_index.hpp\<close>) and its adapter
  (\<^verbatim>\<open>adapters/builtin_hash_adapter.hpp\<close>). A bucket has four inline slots; a full bucket links to an
  overflow bucket. Every overflow bucket is owned by the one chain it hangs in, so a chain is the
  list of its buckets, the inline one first. Counters are 64-bit.
\<close>

definition INLINE_SLOTS :: nat where [const_defs]: "INLINE_SLOTS = 4"

record Bucket =
  b_n :: nat
  b_keys :: "idx_key_t list"
  b_vals :: "idx_val_t list"

record HashIndex =
  hi_buckets :: "Bucket list list"
  hi_nb :: u64
  hi_mask :: u64
  hi_shift :: nat
  hi_items :: u64
  hi_overflow :: u64

definition Bucket_init :: Bucket where
  "Bucket_init = \<lparr>b_n = 0, b_keys = replicate INLINE_SLOTS 0, b_vals = replicate INLINE_SLOTS 0\<rparr>"

text \<open>The loop \<^verbatim>\<open>while (v < x) v <<= 1\<close>; \<open>None\<close> means that it does not end.\<close>

partial_function (option) pow2_loop :: "u64 \<Rightarrow> u64 \<Rightarrow> u64 option" where
  "pow2_loop x v = (if v < x then pow2_loop x (push_bit 1 v) else Some v)"

definition HashIndex_new :: "u64 \<Rightarrow> nat \<Rightarrow> HashIndex option" where
  "HashIndex_new bucket_count shift =
     (case pow2_loop bucket_count 1 of None \<Rightarrow> None
      | Some v \<Rightarrow> Some \<lparr>hi_buckets = replicate (unat v) [Bucket_init], hi_nb = v, hi_mask = v - 1,
                        hi_shift = shift, hi_items = 0, hi_overflow = 0\<rparr>)"

definition index_of :: "HashIndex \<Rightarrow> idx_key_t \<Rightarrow> nat" where
  "index_of h k = unat (drop_bit (hi_shift h) k AND hi_mask h)"

text \<open>The search of the slots of one bucket, and of a chain: the bucket and the slot of the hit.\<close>

function bucket_find :: "idx_key_t \<Rightarrow> Bucket \<Rightarrow> nat \<Rightarrow> nat option" where
  "bucket_find k b i =
     (if i < b_n b then if b_keys b ! i = k then Some i else bucket_find k b (i + 1) else None)"
  by pat_completeness auto
termination
  by (relation "measure (\<lambda>(k, b, i). b_n b - i)") auto

fun chain_find :: "idx_key_t \<Rightarrow> Bucket list \<Rightarrow> (nat \<times> nat) option" where
  "chain_find k [] = None"
| "chain_find k (b # bs) =
     (case bucket_find k b 0 of Some i \<Rightarrow> Some (0, i)
      | None \<Rightarrow> map_option (\<lambda>(j, i). (Suc j, i)) (chain_find k bs))"

text \<open>The chain with the value of one slot replaced.\<close>

definition set_slot :: "Bucket list \<Rightarrow> nat \<Rightarrow> nat \<Rightarrow> idx_val_t \<Rightarrow> Bucket list" where
  "set_slot c j i v = c[j := (c ! j)\<lparr>b_vals := (b_vals (c ! j))[i := v]\<rparr>]"

definition set_chain :: "HashIndex \<Rightarrow> nat \<Rightarrow> Bucket list \<Rightarrow> HashIndex" where
  "set_chain h x c = h\<lparr>hi_buckets := (hi_buckets h)[x := c]\<rparr>"

text \<open>The walk \<^verbatim>\<open>while (tail->n == INLINE_SLOTS && tail->next) tail = tail->next\<close>.\<close>

fun tail_pos :: "Bucket list \<Rightarrow> nat" where
  "tail_pos (b # b' # bs) = (if b_n b = INLINE_SLOTS then Suc (tail_pos (b' # bs)) else 0)"
| "tail_pos _ = 0"

definition push_slot :: "Bucket \<Rightarrow> idx_key_t \<Rightarrow> idx_val_t \<Rightarrow> Bucket" where
  "push_slot b k v =
     b\<lparr>b_keys := (b_keys b)[b_n b := k], b_vals := (b_vals b)[b_n b := v], b_n := b_n b + 1\<rparr>"

definition hi_insert :: "idx_key_t \<Rightarrow> idx_val_t \<Rightarrow> HashIndex \<Rightarrow> HashIndex \<times> bool" where
  "hi_insert k v h =
     (let x = index_of h k; c = hi_buckets h ! x
      in case chain_find k c of
           Some (j, i) \<Rightarrow> (set_chain h x (set_slot c j i v), False)
         | None \<Rightarrow>
             let t = tail_pos c;
                 (c', t', ov) = (if b_n (c ! t) = INLINE_SLOTS
                                 then (c @ [Bucket_init], length c, hi_overflow h + 1)
                                 else (c, t, hi_overflow h))
             in ((set_chain h x (c'[t' := push_slot (c' ! t') k v]))
                   \<lparr>hi_items := hi_items h + 1, hi_overflow := ov\<rparr>, True))"

definition hi_lookup :: "HashIndex \<Rightarrow> idx_key_t \<Rightarrow> idx_val_t" where
  "hi_lookup h k =
     (let c = hi_buckets h ! index_of h k
      in case chain_find k c of None \<Rightarrow> 0 | Some (j, i) \<Rightarrow> b_vals (c ! j) ! i)"

definition hi_update :: "idx_key_t \<Rightarrow> idx_val_t \<Rightarrow> HashIndex \<Rightarrow> HashIndex \<times> bool" where
  "hi_update k newv h =
     (let x = index_of h k; c = hi_buckets h ! x
      in case chain_find k c of None \<Rightarrow> (h, False)
         | Some (j, i) \<Rightarrow> (set_chain h x (set_slot c j i newv), True))"

definition hi_remove :: "idx_key_t \<Rightarrow> HashIndex \<Rightarrow> HashIndex \<times> bool" where
  "hi_remove k h = hi_update k 0 h"

function scan_bucket :: "Bucket \<Rightarrow> nat \<Rightarrow> int \<Rightarrow> int \<Rightarrow> idx_val_t \<Rightarrow> int \<times> idx_val_t" where
  "scan_bucket b i taken n acc =
     (if i < b_n b \<and> taken < n
      then scan_bucket b (i + 1) (taken + 1) n (acc XOR b_vals b ! i) else (taken, acc))"
  by pat_completeness auto
termination
  by (relation "measure (\<lambda>(b, i, t, n, a). b_n b - i)") auto

fun scan_chain :: "Bucket list \<Rightarrow> int \<Rightarrow> int \<Rightarrow> idx_val_t \<Rightarrow> int \<times> idx_val_t" where
  "scan_chain [] taken n acc = (taken, acc)"
| "scan_chain (b # bs) taken n acc =
     (if taken < n
      then case scan_bucket b 0 taken n acc of (taken', acc') \<Rightarrow> scan_chain bs taken' n acc'
      else (taken, acc))"

definition hi_scan :: "HashIndex \<Rightarrow> idx_key_t \<Rightarrow> int \<Rightarrow> idx_val_t \<Rightarrow> int \<times> idx_val_t" where
  "hi_scan h start_key n sink =
     (case scan_chain (hi_buckets h ! index_of h start_key) 0 n 0 of
        (taken, acc) \<Rightarrow> (taken, sink XOR acc))"

record occupancy =
  oc_max :: u64
  oc_empty :: u64
  oc_over :: u64
  oc_total :: u64

definition chain_count :: "Bucket list \<Rightarrow> u64" where
  "chain_count c = fold (\<lambda>b cnt. cnt + of_nat (b_n b)) c 0"

definition occupancy_step :: "u64 \<Rightarrow> Bucket list \<Rightarrow> occupancy \<Rightarrow> occupancy" where
  "occupancy_step threshold c oc =
     (let cnt = chain_count c
      in \<lparr>oc_max = (if cnt > oc_max oc then cnt else oc_max oc),
          oc_empty = (if cnt = 0 then oc_empty oc + 1 else oc_empty oc),
          oc_over = (if cnt > threshold then oc_over oc + 1 else oc_over oc),
          oc_total = oc_total oc + cnt\<rparr>)"

definition occupancy_stats :: "HashIndex \<Rightarrow> u64 \<Rightarrow> occupancy" where
  "occupancy_stats h threshold =
     fold (occupancy_step threshold) (hi_buckets h)
       \<lparr>oc_max = 0, oc_empty = 0, oc_over = 0, oc_total = 0\<rparr>"

text \<open>The destructor frees the overflow buckets of every chain, then the array of the inline ones.\<close>

definition HashIndex_delete :: "HashIndex \<Rightarrow> Bucket list" where
  "HashIndex_delete h = concat (map (drop 1) (hi_buckets h))"

definition hash_bytes :: "HashIndex \<Rightarrow> u64" where
  "hash_bytes h = (hi_nb h + hi_overflow h) * 128"

subsection \<open>Power-of-two rounding\<close>

lemma pow2_loop_step: "v < x \<Longrightarrow> pow2_loop x v = pow2_loop x (push_bit 1 v)"
  and pow2_loop_stop: "\<not> v < x \<Longrightarrow> pow2_loop x v = Some v"
  by (subst pow2_loop.simps, simp)+

lemma pow2_loop_ends:
  assumes "unat x \<le> 2 ^ 63" "i \<le> 63" "i = 0 \<or> 2 ^ i < 2 * unat x"
  shows "\<exists>p \<le> 63. pow2_loop x (push_bit i 1) = Some (push_bit p 1) \<and> unat x \<le> 2 ^ p \<and>
    (p = 0 \<or> 2 ^ p < 2 * unat x)"
  using assms(2,3)
proof (induction "63 - i" arbitrary: i)
  case 0
  then have "i = 63" by simp
  then have "\<not> (push_bit i 1 :: u64) < x"
    using assms(1) by (simp only: word_less_nat_alt unat_push_bit_1)
  with 0 assms(1) \<open>i = 63\<close> show ?case by (auto intro!: exI [of _ 63] simp: pow2_loop_stop)
next
  case (Suc n)
  have u: "unat (push_bit i 1 :: u64) = 2 ^ i" using Suc.prems by (simp only: unat_push_bit_1)
  show ?case
  proof (cases "(push_bit i 1 :: u64) < x")
    case True
    then have lt: "2 ^ i < unat x" by (simp only: word_less_nat_alt u)
    have "pow2_loop x (push_bit i 1) = pow2_loop x (push_bit (Suc i) 1)"
      using pow2_loop_step [OF True] by (simp only: push_bit_push_bit) simp
    with Suc.hyps(1) [of "Suc i"] Suc.hyps(2) lt show ?thesis by auto
  next
    case False
    then have "unat x \<le> 2 ^ i" by (simp only: word_less_nat_alt u not_less)
    with False Suc.prems show ?thesis by (auto intro!: exI [of _ i] simp: pow2_loop_stop)
  qed
qed

lemmas pow2_loop_induct = pow2_loop.raw_induct [where xa = "(x, v)" for x v, unfolded prod.case]

lemma push_bit_1_power: "(\<exists>i. v = push_bit i 1) \<Longrightarrow> \<exists>i. push_bit 1 v = push_bit i (1 :: u64)"
  by (elim exE, simp only: push_bit_push_bit, rule exI, rule refl)

lemma pow2_loop_result:
  assumes "pow2_loop x v = Some y"
  shows "x \<le> y \<and> ((\<exists>i. v = push_bit i 1) \<longrightarrow> (\<exists>i. y = push_bit i 1))"
proof (rule pow2_loop_induct [OF _ assms], goal_cases)
  case (1 f x v y)
  then show ?case using push_bit_1_power [of v] by (cases "v < x") auto
qed

lemma pow2_loop_diverges:
  assumes "2 ^ 63 < unat x"
  shows "pow2_loop x 1 = None"
proof (rule ccontr)
  assume "pow2_loop x 1 \<noteq> None"
  then obtain y where y: "pow2_loop x 1 = Some y" by blast
  have "\<exists>i. (1 :: u64) = push_bit i 1" by (intro exI [of _ 0]) simp
  with pow2_loop_result [OF y] obtain i where i: "x \<le> y" "y = push_bit i 1" by blast
  then have "2 ^ 63 < unat (push_bit i 1 :: u64)" using assms by (simp only: word_le_nat_alt)
  moreover have "unat (push_bit i 1 :: u64) \<le> 2 ^ 63"
  proof (cases "i < 64")
    case True
    then have "(2::nat) ^ i \<le> 2 ^ 63" by (intro power_increasing) simp_all
    with True show ?thesis by (simp only: unat_push_bit_1)
  next
    case False
    then have "(push_bit i 1 :: u64) = 0" by (simp add: exp_eq_zero_iff)
    then show ?thesis by (simp only: unsigned_0)
  qed
  ultimately show False by simp
qed

subsection \<open>The entries of a chain\<close>

declare bucket_find.simps [simp del] scan_bucket.simps [simp del]

definition bucket_ok :: "Bucket \<Rightarrow> bool" where
  "bucket_ok b \<longleftrightarrow> b_n b \<le> INLINE_SLOTS \<and> length (b_keys b) = INLINE_SLOTS \<and> length (b_vals b) = INLINE_SLOTS"

definition bucket_vals :: "Bucket \<Rightarrow> idx_val_t list" where
  "bucket_vals b = take (b_n b) (b_vals b)"

definition b_kvs :: "Bucket \<Rightarrow> (idx_key_t \<times> idx_val_t) list" where
  "b_kvs b = zip (take (b_n b) (b_keys b)) (bucket_vals b)"

definition c_kvs :: "Bucket list \<Rightarrow> (idx_key_t \<times> idx_val_t) list" where
  "c_kvs c = concat (map b_kvs c)"

definition chain_ok :: "Bucket list \<Rightarrow> bool" where
  "chain_ok c \<longleftrightarrow> c \<noteq> [] \<and> (\<forall>b \<in> set c. bucket_ok b) \<and> (\<forall>b \<in> set (butlast c). b_n b = INLINE_SLOTS) \<and>
     distinct (map fst (c_kvs c))"

lemma c_kvs_simps [simp]: "c_kvs [] = []" "c_kvs (b # bs) = b_kvs b @ c_kvs bs"
  "c_kvs (bs @ cs) = c_kvs bs @ c_kvs cs"
  by (simp_all add: c_kvs_def)

lemma length_b_kvs: "bucket_ok b \<Longrightarrow> length (b_kvs b) = b_n b"
  by (simp add: b_kvs_def bucket_vals_def bucket_ok_def)

lemma snd_b_kvs: "bucket_ok b \<Longrightarrow> map snd (b_kvs b) = bucket_vals b"
  by (simp add: b_kvs_def bucket_vals_def bucket_ok_def)

lemma drop_b_kvs:
  "bucket_ok b \<Longrightarrow> i < b_n b \<Longrightarrow> drop i (b_kvs b) = (b_keys b ! i, b_vals b ! i) # drop (Suc i) (b_kvs b)"
  using Cons_nth_drop_Suc [of i "b_kvs b"]
  by (simp add: length_b_kvs) (simp add: b_kvs_def bucket_vals_def bucket_ok_def)

lemma bucket_find_map_of:
  "bucket_ok b \<Longrightarrow> map_of (drop i (b_kvs b)) k = map_option (\<lambda>i. b_vals b ! i) (bucket_find k b i)"
proof (induction k b i rule: bucket_find.induct)
  case (1 k b i)
  show ?case
  proof (cases "i < b_n b")
    case True
    with 1 show ?thesis by (subst bucket_find.simps) (auto simp: drop_b_kvs)
  next
    case False
    with 1 show ?thesis by (subst bucket_find.simps) (simp add: length_b_kvs)
  qed
qed

lemma bucket_find_Some: "bucket_find k b i = Some j \<Longrightarrow> i \<le> j \<and> j < b_n b \<and> b_keys b ! j = k"
  by (induction k b i rule: bucket_find.induct, subst (asm) (2) bucket_find.simps)
    (fastforce split: if_splits)

lemma bucket_find_None: "bucket_ok b \<Longrightarrow> bucket_find k b 0 = None \<longleftrightarrow> k \<notin> fst ` set (b_kvs b)"
  using bucket_find_map_of [of b 0 k] by (metis drop_0 map_of_eq_None_iff option.map_disc_iff)

lemma chain_find_map_of:
  "\<forall>b \<in> set c. bucket_ok b \<Longrightarrow>
   map_of (c_kvs c) k = map_option (\<lambda>(j, i). b_vals (c ! j) ! i) (chain_find k c)"
proof (induction c)
  case (Cons b c)
  with bucket_find_map_of [of b 0 k] show ?case
    by (cases "bucket_find k b 0") (auto simp: map_add_def option.map_comp o_def split_def split: option.split)
qed simp

subsection \<open>Writing to a chain\<close>

lemma b_kvs_set_val:
  assumes "bucket_ok b" "distinct (map fst (b_kvs b))" "i < b_n b"
  shows "b_kvs (b\<lparr>b_vals := (b_vals b)[i := v]\<rparr>) = upd_all (b_keys b ! i) v (b_kvs b)"
proof -
  let ?ks = "take (b_n b) (b_keys b)"
  have "map fst (b_kvs b) = ?ks" using assms(1) by (simp add: b_kvs_def bucket_vals_def bucket_ok_def)
  with zip_upd [of ?ks "bucket_vals b" i v] assms show ?thesis
    by (simp add: b_kvs_def bucket_vals_def bucket_ok_def take_update_swap)
qed

lemma c_kvs_set_slot:
  assumes "chain_find k c = Some (j, i)" "\<forall>b \<in> set c. bucket_ok b" "distinct (map fst (c_kvs c))"
  shows "c_kvs (set_slot c j i v) = upd_all k v (c_kvs c)"
  using assms
proof (induction c arbitrary: j)
  case (Cons b c)
  show ?case
  proof (cases "bucket_find k b 0")
    case None
    then have "k \<notin> fst ` set (b_kvs b)" using Cons.prems bucket_find_None by simp
    moreover obtain j' where "chain_find k c = Some (j', i)" "j = Suc j'" using None Cons.prems(1) by auto
    ultimately show ?thesis using Cons.IH [of j'] Cons.prems(2,3)
      by (simp add: set_slot_def upd_all_id)
  next
    case (Some i')
    with Cons.prems(1) have ji: "j = 0" "i' = i" by auto
    with bucket_find_Some [OF Some] have i: "i < b_n b" "b_keys b ! i = k" by auto
    then have "k \<in> fst ` set (b_kvs b)"
      using Some Cons.prems(2) bucket_find_None [of b k] by auto
    then have "k \<notin> fst ` set (c_kvs c)" using Cons.prems(3) by auto
    then show ?thesis using ji i Cons.prems b_kvs_set_val [of b i v]
      by (simp add: set_slot_def upd_all_id)
  qed
qed simp

lemma chain_find_None: "\<forall>b \<in> set c. bucket_ok b \<Longrightarrow> chain_find k c = None \<longleftrightarrow> k \<notin> fst ` set (c_kvs c)"
  using chain_find_map_of [of c k] by (metis map_of_eq_None_iff option.map_disc_iff)

lemma chain_find_bound: "chain_find k c = Some (j, i) \<Longrightarrow> j < length c \<and> i < b_n (c ! j)"
  by (induction c arbitrary: j) (auto split: option.splits dest: bucket_find_Some)

lemma chain_ok_set_slot:
  assumes "chain_ok c" "chain_find k c = Some (j, i)"
  shows "chain_ok (set_slot c j i v)" "length (set_slot c j i v) = length c"
proof -
  have j: "j < length c" using chain_find_bound [OF assms(2)] by simp
  have ok: "\<forall>b \<in> set c. bucket_ok b" "distinct (map fst (c_kvs c))" "c \<noteq> []"
    "\<forall>b \<in> set (butlast c). b_n b = INLINE_SLOTS" using assms(1) by (auto simp: chain_ok_def)
  note kv = c_kvs_set_slot [OF assms(2) ok(1,2), of v]
  have "bucket_ok ((c ! j)\<lparr>b_vals := (b_vals (c ! j))[i := v]\<rparr>)"
    using ok(1) j by (auto simp: bucket_ok_def)
  then have "\<forall>b \<in> set (set_slot c j i v). bucket_ok b"
    using ok(1) by (auto simp: set_slot_def dest!: set_update_subset_insert [THEN subsetD])
  moreover have "map b_n (set_slot c j i v) = map b_n c"
    by (rule nth_equalityI) (auto simp: set_slot_def nth_list_update_if)
  then have "map b_n (butlast (set_slot c j i v)) = map b_n (butlast c)" by (simp only: map_butlast)
  then have "b_n ` set (butlast (set_slot c j i v)) = b_n ` set (butlast c)" by (metis list.set_map)
  then have "\<forall>b \<in> set (butlast (set_slot c j i v)). b_n b = INLINE_SLOTS" using ok(4) by auto
  moreover have "set_slot c j i v \<noteq> []" using ok(3) by (simp add: set_slot_def)
  ultimately show "chain_ok (set_slot c j i v)" using ok(2) by (simp only: chain_ok_def kv upd_all_simps) simp
  show "length (set_slot c j i v) = length c" by (simp add: set_slot_def)
qed

lemma tail_pos_last: "c \<noteq> [] \<Longrightarrow> \<forall>b \<in> set (butlast c). b_n b = INLINE_SLOTS \<Longrightarrow> tail_pos c = length c - 1"
  by (induction c rule: tail_pos.induct) auto

lemma push_slot_ok:
  assumes "bucket_ok b" "b_n b < INLINE_SLOTS"
  shows "bucket_ok (push_slot b k v)" "b_kvs (push_slot b k v) = b_kvs b @ [(k, v)]"
proof -
  show "bucket_ok (push_slot b k v)" using assms by (simp add: bucket_ok_def push_slot_def)
  have "take (Suc (b_n b)) ((xs :: u64 list)[b_n b := x]) = take (b_n b) xs @ [x]"
    if "length xs = INLINE_SLOTS" for xs x
    using assms(2) that by (simp add: take_Suc_conv_app_nth take_update_cancel)
  then show "b_kvs (push_slot b k v) = b_kvs b @ [(k, v)]"
    using assms by (simp add: b_kvs_def bucket_vals_def push_slot_def bucket_ok_def)
qed

text \<open>The chain after the append of \<^verbatim>\<open>insert\<close>, and whether it took an overflow bucket.\<close>

definition chain_push :: "Bucket list \<Rightarrow> idx_key_t \<Rightarrow> idx_val_t \<Rightarrow> Bucket list" where
  "chain_push c k v =
     (let t = tail_pos c
      in if b_n (c ! t) = INLINE_SLOTS then c @ [push_slot Bucket_init k v]
         else c[t := push_slot (c ! t) k v])"

lemma chain_push_ok:
  assumes "chain_ok c" "k \<notin> fst ` set (c_kvs c)"
  shows "chain_ok (chain_push c k v)" "c_kvs (chain_push c k v) = c_kvs c @ [(k, v)]"
    "length (chain_push c k v) = (if b_n (c ! tail_pos c) = INLINE_SLOTS then Suc (length c) else length c)"
proof -
  have ok: "\<forall>b \<in> set c. bucket_ok b" "distinct (map fst (c_kvs c))" "c \<noteq> []"
    "\<forall>b \<in> set (butlast c). b_n b = INLINE_SLOTS" using assms(1) by (auto simp: chain_ok_def)
  obtain bs b where c: "c = bs @ [b]" using ok(3) by (metis rev_exhaust)
  have t: "tail_pos c = length bs" using tail_pos_last [OF ok(3,4)] c by simp
  have i: "bucket_ok Bucket_init" "b_kvs Bucket_init = []" "b_n Bucket_init < INLINE_SLOTS"
    by (simp_all add: bucket_ok_def Bucket_init_def b_kvs_def bucket_vals_def INLINE_SLOTS_def)
  have b: "bucket_ok b" "b_n b \<le> INLINE_SLOTS" using ok(1) c by (auto simp: bucket_ok_def)
  have push: "chain_push c k v = (if b_n b = INLINE_SLOTS then bs @ [b, push_slot Bucket_init k v]
      else bs @ [push_slot b k v])"
    by (simp add: chain_push_def t Let_def) (simp add: c)
  show kv: "c_kvs (chain_push c k v) = c_kvs c @ [(k, v)]"
    unfolding push using push_slot_ok(2) [OF i(1,3)] push_slot_ok(2) [OF b(1)] b(2) i(2) by (simp add: c)
  have "\<forall>b' \<in> set (chain_push c k v). bucket_ok b'"
    using push_slot_ok(1) [OF i(1,3)] push_slot_ok(1) [OF b(1)] b ok(1) unfolding push by (auto simp: c)
  moreover have "\<forall>b' \<in> set (butlast (chain_push c k v)). b_n b' = INLINE_SLOTS"
    using ok(4) unfolding push by (auto simp: c butlast_append)
  moreover have "chain_push c k v \<noteq> []" by (simp add: push)
  ultimately show "chain_ok (chain_push c k v)" using ok(2) assms(2) unfolding chain_ok_def kv by simp
  show "length (chain_push c k v) = (if b_n (c ! tail_pos c) = INLINE_SLOTS then Suc (length c) else length c)"
    unfolding push t by (simp add: c)
qed

subsection \<open>The table\<close>

definition hash_inv :: "HashIndex \<Rightarrow> bool" where
  "hash_inv h \<longleftrightarrow> (\<exists>p \<le> 63. unat (hi_nb h) = 2 ^ p) \<and> hi_mask h = hi_nb h - 1 \<and>
     length (hi_buckets h) = unat (hi_nb h) \<and>
     (\<forall>x < length (hi_buckets h). chain_ok (hi_buckets h ! x) \<and>
        (\<forall>k \<in> fst ` set (c_kvs (hi_buckets h ! x)). index_of h k = x)) \<and>
     hi_items h = sum_list (map (\<lambda>c. of_nat (length (c_kvs c))) (hi_buckets h)) \<and>
     hi_overflow h = sum_list (map (\<lambda>c. of_nat (length c - 1)) (hi_buckets h))"

lemma hash_delete_count: "hash_inv h \<Longrightarrow> of_nat (length (HashIndex_delete h)) = hi_overflow h"
proof -
  have "of_nat (length (concat (map (drop 1) cs))) = (\<Sum>c \<leftarrow> cs. of_nat (length c - 1) :: u64)" for cs :: "Bucket list list"
    by (induction cs) simp_all
  then show "hash_inv h \<Longrightarrow> of_nat (length (HashIndex_delete h)) = hi_overflow h"
    by (simp add: hash_inv_def HashIndex_delete_def)
qed

definition hash_map :: "HashIndex \<Rightarrow> idx_map" where
  "hash_map h k = map_of (c_kvs (hi_buckets h ! index_of h k)) k"

definition hash_rel :: "HashIndex \<Rightarrow> idx_map \<Rightarrow> bool" where
  "hash_rel h m \<longleftrightarrow> hash_inv h \<and> m = hash_map h"

lemma index_of_less:
  assumes "hash_inv h"
  shows "index_of h k < length (hi_buckets h)"
proof -
  from assms obtain p where p: "p \<le> 63" "unat (hi_nb h) = 2 ^ p" "hi_mask h = hi_nb h - 1"
    "length (hi_buckets h) = unat (hi_nb h)" by (auto simp: hash_inv_def)
  then show ?thesis using unat_and_pow2 [of p "hi_nb h" "drop_bit (hi_shift h) k"]
    by (simp add: index_of_def)
qed

lemma sum_list_update_u64:
  "x < length xs \<Longrightarrow> sum_list (map f (xs[x := c])) = sum_list (map f xs) + (f c - f (xs ! x))" for f :: "'a \<Rightarrow> u64"
proof (induction xs arbitrary: x)
  case (Cons a xs)
  then show ?case by (cases x) auto
qed simp

lemma index_of_set_chain [simp]: "index_of (set_chain h x c) k = index_of h k"
  "index_of (h\<lparr>hi_items := a\<rparr>) k = index_of h k" "index_of (h\<lparr>hi_overflow := a\<rparr>) k = index_of h k"
  by (simp_all add: index_of_def set_chain_def)

lemma hash_inv_set_chain:
  assumes inv: "hash_inv h" and x: "x < length (hi_buckets h)" and c: "chain_ok c"
    and ks: "\<forall>k \<in> fst ` set (c_kvs c). index_of h k = x"
    and it: "it = hi_items h + (of_nat (length (c_kvs c)) - of_nat (length (c_kvs (hi_buckets h ! x))))"
    and ov: "ov = hi_overflow h + (of_nat (length c - 1) - of_nat (length (hi_buckets h ! x) - 1))"
  shows "hash_inv ((set_chain h x c)\<lparr>hi_items := it, hi_overflow := ov\<rparr>)"
proof -
  let ?h = "(set_chain h x c)\<lparr>hi_items := it, hi_overflow := ov\<rparr>"
  have bk: "hi_buckets ?h = (hi_buckets h)[x := c]" "hi_nb ?h = hi_nb h" "hi_mask ?h = hi_mask h"
    by (simp_all add: set_chain_def)
  have "index_of ?h k = index_of h k" for k by simp
  moreover have "chain_ok (hi_buckets ?h ! y) \<and> (\<forall>k \<in> fst ` set (c_kvs (hi_buckets ?h ! y)). index_of h k = y)"
    if "y < length (hi_buckets h)" for y
    using that inv c ks unfolding bk by (simp add: nth_list_update_if hash_inv_def)
  moreover have "it = sum_list (map (\<lambda>c. of_nat (length (c_kvs c))) (hi_buckets ?h))"
    "ov = sum_list (map (\<lambda>c. of_nat (length c - 1)) (hi_buckets ?h))"
    using inv it ov unfolding bk sum_list_update_u64 [OF x] by (simp_all add: hash_inv_def)
  ultimately show ?thesis using inv unfolding hash_inv_def bk by simp
qed

lemma hash_map_set_chain:
  assumes "x < length (hi_buckets h)"
  shows "hash_map ((set_chain h x c)\<lparr>hi_items := it, hi_overflow := ov\<rparr>) k =
    (if index_of h k = x then map_of (c_kvs c) k else hash_map h k)"
  using assms by (auto simp: hash_map_def) (simp_all add: set_chain_def nth_list_update_if)

lemma HashIndex_eta [simp]: "h\<lparr>hi_items := hi_items h, hi_overflow := hi_overflow h\<rparr> = h"
  by simp

lemma set_chain_sel [simp]: "hi_items (set_chain h x c) = hi_items h" "hi_overflow (set_chain h x c) = hi_overflow h"
  by (simp_all add: set_chain_def)

lemma hash_chain:
  assumes "hash_inv h"
  shows "chain_ok (hi_buckets h ! index_of h k)" "\<forall>b \<in> set (hi_buckets h ! index_of h k). bucket_ok b"
    "\<forall>k' \<in> fst ` set (c_kvs (hi_buckets h ! index_of h k)). index_of h k' = index_of h k"
proof -
  note x = index_of_less [OF assms, of k]
  with assms show 1: "chain_ok (hi_buckets h ! index_of h k)"
    "\<forall>k' \<in> fst ` set (c_kvs (hi_buckets h ! index_of h k)). index_of h k' = index_of h k"
    unfolding hash_inv_def by blast+
  from 1(1) show "\<forall>b \<in> set (hi_buckets h ! index_of h k). bucket_ok b" by (simp add: chain_ok_def)
qed

lemma hash_find:
  assumes "hash_inv h"
  shows "hash_map h k = map_option (\<lambda>(j, i). b_vals (hi_buckets h ! index_of h k ! j) ! i)
    (chain_find k (hi_buckets h ! index_of h k))"
  using chain_find_map_of [OF hash_chain(2) [OF assms]] by (simp add: hash_map_def)

lemma hash_lookup: "hash_inv h \<Longrightarrow> hi_lookup h k = val_or_0 (hash_map h k)"
  by (simp add: hi_lookup_def hash_find val_or_0_def Let_def split: option.split prod.split)

lemma hash_overwrite:
  fixes v :: idx_val_t
  assumes inv: "hash_inv h" and f: "chain_find k (hi_buckets h ! index_of h k) = Some (j, i)"
  defines "h' \<equiv> set_chain h (index_of h k) (set_slot (hi_buckets h ! index_of h k) j i v)"
  shows "hash_inv h'" "hash_map h' = (hash_map h)(k \<mapsto> v)" "hi_items h' = hi_items h"
    "hi_overflow h' = hi_overflow h"
proof -
  let ?x = "index_of h k" and ?c = "hi_buckets h ! index_of h k"
  note x = index_of_less [OF inv, of k] and ch = hash_chain [OF inv, of k]
  have dis: "distinct (map fst (c_kvs ?c))" using ch(1) by (simp add: chain_ok_def)
  note kv = c_kvs_set_slot [OF f ch(2) dis, of v] and ok = chain_ok_set_slot [OF ch(1) f, of v]
  have e: "h' = h'\<lparr>hi_items := hi_items h, hi_overflow := hi_overflow h\<rparr>" by (simp add: h'_def)
  have fs: "fst ` set (c_kvs (set_slot ?c j i v)) = fst ` set (c_kvs ?c)"
    unfolding kv by (metis list.set_map upd_all_simps(2))
  show "hash_inv h'" by (subst e, unfold h'_def, rule hash_inv_set_chain [OF inv x ok(1)])
    (use ch(3) fs kv ok(2) in simp_all)
  have hit: "k \<in> fst ` set (c_kvs ?c)" using f chain_find_None [OF ch(2), of k] by auto
  show "hash_map h' = (hash_map h)(k \<mapsto> v)"
  proof
    fix k'
    have "hash_map h' k' = (if index_of h k' = ?x then map_of (upd_all k v (c_kvs ?c)) k' else hash_map h k')"
      by (subst e, unfold h'_def) (simp only: hash_map_set_chain [OF x] kv)
    then show "hash_map h' k' = ((hash_map h)(k \<mapsto> v)) k'"
      using hit by (auto simp: map_of_upd_all hash_map_def)
  qed
qed (simp_all add: h'_def)

lemma hash_update:
  assumes "hash_inv h"
  shows "\<exists>h'. hi_update k v h = (h', hash_map h k \<noteq> None) \<and> hash_inv h' \<and>
    hash_map h' = overwrite k v (hash_map h) \<and> hi_items h' = hi_items h"
proof (cases "chain_find k (hi_buckets h ! index_of h k)")
  case None
  with assms show ?thesis by (simp add: hi_update_def hash_find overwrite_def Let_def)
next
  case (Some ji)
  obtain j i where "ji = (j, i)" by fastforce
  with hash_overwrite [OF assms, of k j i v] Some show ?thesis
    by (auto simp: hi_update_def overwrite_def Let_def hash_find [OF assms])
qed

lemma hi_insert_new:
  assumes inv: "hash_inv h" and f: "chain_find k (hi_buckets h ! index_of h k) = None"
  shows "hi_insert k v h = ((set_chain h (index_of h k) (chain_push (hi_buckets h ! index_of h k) k v))
    \<lparr>hi_items := hi_items h + 1,
     hi_overflow := (if b_n (hi_buckets h ! index_of h k ! tail_pos (hi_buckets h ! index_of h k)) = INLINE_SLOTS
                     then hi_overflow h + 1 else hi_overflow h)\<rparr>, True)"
  using f by (auto simp: hi_insert_def chain_push_def Let_def)

lemma hash_insert:
  assumes inv: "hash_inv h"
  shows "\<exists>h'. hi_insert k v h = (h', hash_map h k = None) \<and> hash_inv h' \<and> hash_map h' = (hash_map h)(k \<mapsto> v) \<and>
    hi_items h' = hi_items h + (if hash_map h k = None then 1 else 0)"
proof (cases "chain_find k (hi_buckets h ! index_of h k)")
  case (Some ji)
  obtain j i where ji: "ji = (j, i)" by fastforce
  note ow = hash_overwrite [OF inv Some [unfolded ji], of v]
  have "hash_map h k \<noteq> None" by (simp add: hash_find [OF inv] Some)
  with ow Some ji show ?thesis by (auto simp: hi_insert_def Let_def)
next
  case None
  let ?x = "index_of h k" and ?c = "hi_buckets h ! index_of h k"
  note x = index_of_less [OF inv, of k] and ch = hash_chain [OF inv, of k]
  have nk: "k \<notin> fst ` set (c_kvs ?c)" using None chain_find_None [OF ch(2)] by simp
  note push = chain_push_ok [OF ch(1) nk, of v]
  have "?c \<noteq> []" using ch(1) by (simp add: chain_ok_def)
  then have len: "(of_nat (length (chain_push ?c k v) - 1) :: u64) - of_nat (length ?c - 1) =
      (if b_n (?c ! tail_pos ?c) = INLINE_SLOTS then 1 else 0)"
    unfolding push(3) by (cases ?c) simp_all
  have "hash_inv (fst (hi_insert k v h))"
    unfolding hi_insert_new [OF inv None] fst_conv
    by (rule hash_inv_set_chain [OF inv x push(1)]) (use ch(3) push(2) len in simp_all)
  moreover have "hash_map (fst (hi_insert k v h)) k' = ((hash_map h)(k \<mapsto> v)) k'" for k'
    unfolding hi_insert_new [OF inv None] fst_conv hash_map_set_chain [OF x] push(2)
    using nk [folded map_of_eq_None_iff] by (auto simp: hash_map_def map_add_def split: option.split)
  moreover have "hash_map h k = None" by (simp add: hash_find [OF inv] None)
  ultimately show ?thesis by (auto simp: hi_insert_new [OF inv None])
qed

subsection \<open>Construction and loading\<close>

lemma hash_new:
  assumes "unat n \<le> 2 ^ 63"
  shows "\<exists>h. HashIndex_new n sh = Some h \<and> hash_inv h \<and> hash_map h = Map.empty \<and> hi_items h = 0 \<and>
    unat n \<le> unat (hi_nb h) \<and> (unat (hi_nb h) = 1 \<or> unat (hi_nb h) < 2 * unat n)"
proof -
  from pow2_loop_ends [OF assms, of 0] obtain p where p: "p \<le> 63" "pow2_loop n 1 = Some (push_bit p 1)"
    "unat n \<le> 2 ^ p" "p = 0 \<or> 2 ^ p < 2 * unat n" by auto
  define h where "h = \<lparr>hi_buckets = replicate (unat (push_bit p 1 :: u64)) [Bucket_init],
    hi_nb = push_bit p 1, hi_mask = push_bit p 1 - 1, hi_shift = sh, hi_items = 0, hi_overflow = 0\<rparr>"
  have u: "unat (push_bit p 1 :: u64) = 2 ^ p" using p(1) by (simp only: unat_push_bit_1)
  have b: "c_kvs [Bucket_init] = []" by (simp add: b_kvs_def Bucket_init_def)
  have "chain_ok [Bucket_init]"
    by (simp add: chain_ok_def b [simplified]) (simp add: bucket_ok_def Bucket_init_def INLINE_SLOTS_def)
  then have inv: "hash_inv h" unfolding hash_inv_def h_def using p(1) u b
    by (simp add: sum_list_replicate del: push_bit_of_1 c_kvs_simps)
  have "hash_map h k = None" for k
    using index_of_less [OF inv, of k] b unfolding hash_map_def h_def by simp
  then have "hash_map h = Map.empty" by blast
  moreover have "HashIndex_new n sh = Some h" by (simp add: HashIndex_new_def p(2) h_def)
  ultimately show ?thesis using inv p(3,4) u by (auto simp: h_def)
qed

definition hash_insert_op :: "idx_key_t \<Rightarrow> idx_val_t \<Rightarrow> HashIndex \<Rightarrow> (HashIndex \<times> bool) option" where
  "hash_insert_op k v h = Some (hi_insert k v h)"

lemma hash_load:
  assumes "hash_inv h" "length ks = length vs"
    "finite (dom (hash_map h))" "hi_items h = of_nat (card (dom (hash_map h)))"
  shows "\<exists>h'. default_bulk_load hash_insert_op ks vs h = Some h' \<and> hash_inv h' \<and>
    hash_map h' = (hash_map h)(ks [\<mapsto>] vs) \<and> hi_items h' = of_nat (card (dom (hash_map h')))"
  using assms(2,1,3,4)
proof (induction ks vs arbitrary: h rule: list_induct2)
  case (Cons k ks v vs)
  from hash_insert [OF Cons.prems(1), of k v] obtain h1 where h1: "hi_insert k v h = (h1, hash_map h k = None)"
    "hash_inv h1" "hash_map h1 = (hash_map h)(k \<mapsto> v)"
    "hi_items h1 = hi_items h + (if hash_map h k = None then 1 else 0)" by blast
  have items: "hi_items h1 = of_nat (card (dom (hash_map h1)))" and fin: "finite (dom (hash_map h1))"
    using Cons.prems(2,3) by (simp_all add: h1 card_insert_if domIff)
  have "hash_insert_op k v h = Some (h1, hash_map h k = None)" by (simp add: hash_insert_op_def h1(1))
  with Cons.IH [OF h1(2) fin items] show ?case
    by (simp only: default_bulk_load.simps option.case prod.case map_upds_Cons h1(3))
qed simp

lemma map_upds_distinct:
  assumes "distinct ks" "length ks = length vs"
  shows "Map.empty(ks [\<mapsto>] vs) = map_of (zip ks vs)"
proof -
  have "distinct (map fst (rev (zip ks vs)))" using assms by (simp flip: rev_map)
  then show ?thesis using assms unfolding map_upds_def
    by (metis map_fst_zip map_of_inject_set set_rev empty_map_add)
qed

subsection \<open>Scan and statistics\<close>

lemma scan_bucket_eq:
  "bucket_ok b \<Longrightarrow> scan_bucket b i taken n acc =
     (let xs = take (nat (n - taken)) (drop i (bucket_vals b))
      in (taken + int (length xs), xor_all xs acc))"
proof (induction b i taken n acc rule: scan_bucket.induct)
  case (1 b i taken n acc)
  show ?case
  proof (cases "i < b_n b \<and> taken < n")
    case True
    then have d: "drop i (bucket_vals b) = b_vals b ! i # drop (Suc i) (bucket_vals b)"
      using 1 by (simp add: bucket_vals_def bucket_ok_def Cons_nth_drop_Suc [symmetric])
    have "nat (n - taken) = Suc (nat (n - (taken + 1)))" using True by arith
    with True 1 d show ?thesis by (subst scan_bucket.simps) (simp add: Let_def)
  next
    case False
    then show ?thesis by (subst scan_bucket.simps) (auto simp: bucket_vals_def)
  qed
qed

lemma scan_chain_eq:
  assumes "\<forall>b \<in> set c. bucket_ok b"
  shows "scan_chain c taken n acc =
    (let xs = take (nat (n - taken)) (map snd (c_kvs c)) in (taken + int (length xs), xor_all xs acc))"
  using assms
proof (induction c arbitrary: taken acc)
  case (Cons b c)
  have split: "take (nat (n - taken)) (map snd (c_kvs (b # c))) =
      take (nat (n - taken)) (bucket_vals b) @
      take (nat (n - (taken + int (length (take (nat (n - taken)) (bucket_vals b)))))) (map snd (c_kvs c))"
    using Cons.prems by (simp only: c_kvs_simps map_append take_budget list.set_intros snd_b_kvs)
  have "bucket_ok b" "\<forall>b \<in> set c. bucket_ok b" using Cons.prems by simp_all
  then show ?case unfolding split
    by (cases "taken < n")
      (simp_all only: scan_chain.simps if_True if_False scan_bucket_eq Cons.IH Let_def drop_0 prod.case
        length_append xor_all_simps, simp_all)
qed simp

lemma hash_scan:
  assumes "hash_inv h"
  shows "hi_scan h lo n sink =
    (let hits = take (nat n) (map snd (c_kvs (hi_buckets h ! index_of h lo)))
     in (int (length hits), sink XOR xor_all hits 0))"
  using scan_chain_eq [OF hash_chain(2) [OF assms]] by (simp add: hi_scan_def Let_def)

lemma chain_count_eq: "\<forall>b \<in> set c. bucket_ok b \<Longrightarrow> chain_count c = of_nat (length (c_kvs c))"
proof -
  have "fold (\<lambda>b cnt. cnt + of_nat (b_n b)) c x = x + (of_nat (length (c_kvs c)) :: u64)"
    if "\<forall>b \<in> set c. bucket_ok b" for x
    using that by (induction c arbitrary: x) (simp_all add: length_b_kvs)
  then show "\<forall>b \<in> set c. bucket_ok b \<Longrightarrow> chain_count c = of_nat (length (c_kvs c))"
    by (simp add: chain_count_def)
qed

lemma occupancy_fold:
  "oc_total (fold (occupancy_step th) cs oc) = oc_total oc + sum_list (map chain_count cs)"
  "oc_empty (fold (occupancy_step th) cs oc) = oc_empty oc + of_nat (length (filter (\<lambda>c. chain_count c = 0) cs))"
  "oc_over (fold (occupancy_step th) cs oc) = oc_over oc + of_nat (length (filter (\<lambda>c. th < chain_count c) cs))"
  "oc_max (fold (occupancy_step th) cs oc) = fold max (map chain_count cs) (oc_max oc)"
  by (induction cs arbitrary: oc) (auto simp: occupancy_step_def Let_def max_def)

subsection \<open>The adapter\<close>

definition BuiltinHashAdapter :: "HashIndex IIndex" where
  "BuiltinHashAdapter = \<lparr>ii_bulk_load = default_bulk_load (\<lambda>k v h. Some (hi_insert k v h)),
     ii_insert = (\<lambda>k v h. Some (hi_insert k v h)), ii_lookup = (\<lambda>h k. Some (hi_lookup h k)),
     ii_update = (\<lambda>k v h. Some (hi_update k v h)), ii_remove = (\<lambda>k h. Some (hi_remove k h)),
     ii_scan = (\<lambda>h lo n sink. Some (hi_scan h lo n sink)), ii_name = ''builtin-hash'',
     ii_thread_safe = False, ii_concurrent_safe = False\<rparr>"

lemma hash_load_empty:
  assumes "hash_inv h" "hash_map h = Map.empty" "hi_items h = 0" "length ks = length vs"
  shows "\<exists>h'. default_bulk_load hash_insert_op ks vs h = Some h' \<and> hash_inv h' \<and>
    hash_map h' = Map.empty(ks [\<mapsto>] vs) \<and> hi_items h' = of_nat (card (set ks))"
  using hash_load [OF assms(1,4)] assms(2,3,4) by (auto simp: dom_map_upds)

lemma hash_insert_op_eq: "(\<lambda>k v h. Some (hi_insert k v h)) = hash_insert_op"
  by (simp add: fun_eq_iff hash_insert_op_def)

definition hash_fresh :: "HashIndex \<Rightarrow> bool" where
  "hash_fresh h \<longleftrightarrow> hash_inv h \<and> hash_map h = Map.empty \<and> hi_items h = 0"

interpretation hash: loadable_index BuiltinHashAdapter hash_rel hash_fresh
proof (unfold_locales, goal_cases)
  case (1 s m k)
  then show ?case by (simp add: hash_rel_def BuiltinHashAdapter_def hash_lookup)
next
  case (2 s m k v)
  then show ?case using hash_update [of s k v] by (auto simp: hash_rel_def BuiltinHashAdapter_def)
next
  case (3 s m k)
  then show ?case using hash_update [of s k 0] by (auto simp: hash_rel_def BuiltinHashAdapter_def hi_remove_def)
next
  case (4 s m lo n sink)
  then show ?case using hash_scan [of s lo n sink]
    by (auto simp: hash_rel_def BuiltinHashAdapter_def Let_def)
next
  case (5 h ks vs)
  then show ?case using hash_load_empty [of h ks vs] map_upds_distinct [of ks vs]
    by (auto simp: hash_rel_def BuiltinHashAdapter_def hash_insert_op_eq hash_fresh_def)
qed

subsection \<open>Properties\<close>

text \<open>C16. A hash index built for up to \<open>2^63\<close> buckets and loaded with any keys, repeated ones included,
  finds every key with the value it was given last and reads 0 for any other key; it counts as many
  items as there are different keys, and the statistics count the same total.\<close>

theorem hash_load_lookup:
  assumes "unat n \<le> 2 ^ 63" "length ks = length vs"
  shows "\<exists>h0 h. HashIndex_new n sh = Some h0 \<and>
    ii_bulk_load BuiltinHashAdapter ks vs h0 = Some h \<and>
    (\<forall>k. hi_lookup h k = val_or_0 (map_of (rev (zip ks vs)) k)) \<and>
    hi_items h = of_nat (card (set ks)) \<and> oc_total (occupancy_stats h th) = hi_items h"
proof -
  from hash_new [OF assms(1), of sh] obtain h0 where h0: "HashIndex_new n sh = Some h0" "hash_fresh h0"
    by (auto simp: hash_fresh_def)
  with hash_load_empty [OF _ _ _ assms(2), of h0] obtain h where h:
    "ii_bulk_load BuiltinHashAdapter ks vs h0 = Some h" "hash_inv h"
    "hash_map h = Map.empty(ks [\<mapsto>] vs)" "hi_items h = of_nat (card (set ks))"
    by (auto simp: hash_fresh_def BuiltinHashAdapter_def hash_insert_op_eq)
  have "\<forall>c \<in> set (hi_buckets h). chain_ok c"
    using h(2) by (metis hash_inv_def in_set_conv_nth)
  then have "map chain_count (hi_buckets h) = map (\<lambda>c. of_nat (length (c_kvs c))) (hi_buckets h)"
    by (intro map_cong refl chain_count_eq) (simp add: chain_ok_def)
  moreover have "hi_items h = sum_list (map (\<lambda>c. of_nat (length (c_kvs c))) (hi_buckets h))"
    using h(2) unfolding hash_inv_def by blast
  ultimately have "oc_total (occupancy_stats h th) = hi_items h"
    by (simp only: occupancy_stats_def occupancy_fold occupancy.simps add_0)
  moreover have "hi_lookup h k = val_or_0 (map_of (rev (zip ks vs)) k)" for k
    by (simp add: hash_lookup [OF h(2)] h(3) map_upds_def)
  ultimately show ?thesis using h0(1) h(1,4) by blast
qed

theorem hash_load_lookup_witness:
  "\<exists>h0 h. HashIndex_new 4 0 = Some h0 \<and>
    ii_bulk_load BuiltinHashAdapter [1, 5, 1] [10, 50, 11] h0 = Some h \<and>
    hi_lookup h 1 = 11 \<and> hi_lookup h 5 = 50 \<and> hi_lookup h 9 = 0 \<and> hi_items h = 2"
proof -
  from hash_load_lookup [of 4 "[1, 5, 1]" "[10, 50, 11]" 0 8] obtain h0 h where
    "HashIndex_new 4 0 = Some h0" "ii_bulk_load BuiltinHashAdapter [1, 5, 1] [10, 50, 11] h0 = Some h"
    and l: "\<And>k. hi_lookup h k = val_or_0 (map_of (rev (zip [1, 5, 1] [10, 50, 11])) k)"
    and "hi_items h = of_nat (card {1 :: idx_key_t, 5})" by (auto simp: insert_commute)
  with l [of 1] l [of 5] l [of 9] show ?thesis by (auto simp: val_or_0_def)
qed

text \<open>C17. Insert, update and removal on a well-formed hash index: each reports whether the key was
  new (insert) or present (update, removal), changes the entry of that key only, and keeps the
  index well formed.\<close>

theorem hash_writes_refine:
  assumes "hash_inv h"
  shows "(\<exists>h'. hi_insert k v h = (h', hash_map h k = None) \<and> hash_inv h' \<and> hash_map h' = (hash_map h)(k \<mapsto> v)) \<and>
    (\<exists>h'. hi_update k v h = (h', hash_map h k \<noteq> None) \<and> hash_inv h' \<and> hash_map h' = overwrite k v (hash_map h)) \<and>
    (\<exists>h'. hi_remove k h = (h', hash_map h k \<noteq> None) \<and> hash_inv h' \<and> hash_map h' = overwrite k 0 (hash_map h))"
  unfolding hi_remove_def using hash_insert [OF assms, of k v] hash_update [OF assms, of k]
  by blast

theorem hash_writes_refine_witness:
  "\<exists>h h'. HashIndex_new 4 0 = Some h \<and> hi_insert 6 7 h = (h', True) \<and> hash_inv h'"
proof -
  from hash_new [of 4 0] obtain h where h: "HashIndex_new 4 0 = Some h" "hash_inv h" "hash_map h = Map.empty"
    by auto
  with hash_writes_refine [OF h(2), of 6 7] show ?thesis by auto
qed

text \<open>A scan of a hash index returns at most \<open>n\<close> values, those at the head of the chain of the
  start key's bucket, whatever their keys are: the order of keys plays no part.\<close>

theorem hash_scan_chain:
  assumes "hash_inv h"
  shows "hi_scan h lo n sink =
    (let hits = take (nat n) (map snd (c_kvs (hi_buckets h ! index_of h lo)))
     in (int (length hits), sink XOR xor_all hits 0))"
  by (rule hash_scan [OF assms])

theorem hash_scan_chain_witness:
  "\<exists>h. HashIndex_new 4 0 = Some h \<and> hi_scan h 3 5 9 = (0, 9)"
proof -
  from hash_new [of 4 0] obtain h where h: "HashIndex_new 4 0 = Some h" "hash_inv h" "hash_map h = Map.empty"
    by auto
  have "h = \<lparr>hi_buckets = replicate 4 [Bucket_init], hi_nb = 4, hi_mask = 3, hi_shift = 0, hi_items = 0, hi_overflow = 0\<rparr>"
    using h(1) by (simp add: HashIndex_new_def pow2_loop.simps)
  with hash_scan_chain [OF h(2), of 3 5 9] have "hi_scan h 3 5 9 = (0, 9)"
    by (simp add: index_of_def b_kvs_def Bucket_init_def)
  with h(1) show ?thesis by blast
qed

text \<open>C36. Rounding the number of buckets up to a power of two ends with the least power of two that is
  large enough when the number is at most \<open>2^63\<close>; above, the constructor never returns.\<close>

theorem hash_bucket_count:
  "(unat n \<le> 2 ^ 63 \<longrightarrow> (\<exists>h p. HashIndex_new n sh = Some h \<and> unat (hi_nb h) = 2 ^ p \<and>
      unat n \<le> 2 ^ p \<and> (p = 0 \<or> 2 ^ p < 2 * unat n) \<and> length (hi_buckets h) = 2 ^ p)) \<and>
   (2 ^ 63 < unat n \<longrightarrow> HashIndex_new n sh = None)"
proof (intro conjI impI)
  assume "unat n \<le> 2 ^ 63"
  from hash_new [OF this, of sh] obtain h where h: "HashIndex_new n sh = Some h" "hash_inv h"
    "unat n \<le> unat (hi_nb h)" "unat (hi_nb h) = 1 \<or> unat (hi_nb h) < 2 * unat n" by blast
  from h(2) obtain p where "unat (hi_nb h) = 2 ^ p" "length (hi_buckets h) = unat (hi_nb h)"
    by (auto simp: hash_inv_def)
  with h show "\<exists>h p. HashIndex_new n sh = Some h \<and> unat (hi_nb h) = 2 ^ p \<and>
      unat n \<le> 2 ^ p \<and> (p = 0 \<or> 2 ^ p < 2 * unat n) \<and> length (hi_buckets h) = 2 ^ p"
    by (auto intro!: exI [of _ h] exI [of _ p])
next
  assume "2 ^ 63 < unat n"
  then show "HashIndex_new n sh = None" by (simp add: HashIndex_new_def pow2_loop_diverges)
qed

theorem hash_bucket_count_witness:
  "(\<exists>h. HashIndex_new 5 0 = Some h \<and> length (hi_buckets h) \<ge> 5) \<and> HashIndex_new 18446744073709551615 0 = None"
  using hash_bucket_count [of 5 0] hash_bucket_count [of 18446744073709551615 0] by auto

end
