(* ===== verification/Op_Mix.thy ===== *)
theory Op_Mix
  imports Ieee_Double
begin

text \<open>
  The operation mix (\<^verbatim>\<open>op_mix.hpp\<close>): the parser of the \<^verbatim>\<open>--op-mix\<close> option and the table of 1024 bins
  from which operations are drawn. \<^verbatim>\<open>std::strtod\<close> is a parameter: it maps the text at the cursor to
  the value read and the number of characters consumed, 0 when there is no number. A result
  \<open>Inl c\<close> is the end of the process with exit code \<open>c\<close>.
\<close>

datatype Op = Search | Update | Insert | Delete | Scan

definition op_name :: "Op \<Rightarrow> string" where
  "op_name o' = (case o' of Search \<Rightarrow> ''search'' | Update \<Rightarrow> ''update'' | Insert \<Rightarrow> ''insert''
     | Delete \<Rightarrow> ''delete'' | Scan \<Rightarrow> ''scan'')"

text \<open>The enumerators by number, as the casts \<^verbatim>\<open>(Op)i\<close> and \<^verbatim>\<open>(int)op\<close> use them.\<close>

definition op_of_nat :: "nat \<Rightarrow> Op" where
  "op_of_nat i = [Search, Update, Insert, Delete, Scan] ! i"

definition nat_of_op :: "Op \<Rightarrow> nat" where
  "nat_of_op o' = (case o' of Search \<Rightarrow> 0 | Update \<Rightarrow> 1 | Insert \<Rightarrow> 2 | Delete \<Rightarrow> 3 | Scan \<Rightarrow> 4)"

record OpMix =
  m_search :: real
  m_update :: real
  m_insert :: real
  m_del :: real
  m_scan :: real

type_synonym strtod = "string \<Rightarrow> real \<times> nat"

definition set_share :: "string \<Rightarrow> real \<Rightarrow> OpMix \<Rightarrow> OpMix option" where
  "set_share key v m =
     (if key = ''s'' \<or> key = ''search'' then Some (m\<lparr>m_search := v\<rparr>)
      else if key = ''u'' \<or> key = ''update'' then Some (m\<lparr>m_update := v\<rparr>)
      else if key = ''i'' \<or> key = ''insert'' then Some (m\<lparr>m_insert := v\<rparr>)
      else if key = ''d'' \<or> key = ''delete'' then Some (m\<lparr>m_del := v\<rparr>)
      else if key = ''sc'' \<or> key = ''scan'' then Some (m\<lparr>m_scan := v\<rparr>)
      else None)"

definition skip_comma :: "string \<Rightarrow> string" where
  "skip_comma p = (case p of [] \<Rightarrow> [] | c # cs \<Rightarrow> if c = CHR '','' then cs else p)"

lemma length_skip_comma: "length (skip_comma p) \<le> length p"
  by (simp add: skip_comma_def split: list.split)

text \<open>The loop over \<^verbatim>\<open>key=value\<close> items; \<open>p\<close> is the text from the cursor on.\<close>

function opmix_loop :: "strtod \<Rightarrow> string \<Rightarrow> OpMix \<Rightarrow> int + OpMix" where
  "opmix_loop strtod p m =
     (if p = [] then Inr m
      else let key = takeWhile (\<lambda>c. c \<noteq> CHR ''='') p; r = dropWhile (\<lambda>c. c \<noteq> CHR ''='') p
           in case r of [] \<Rightarrow> Inr m
              | _ # q \<Rightarrow>
                  let (v, used) = strtod q
                  in if used = 0 then Inr m
                     else (case set_share key v m of None \<Rightarrow> Inl 2
                          | Some m' \<Rightarrow>
                              opmix_loop strtod (skip_comma (drop used q)) m'))"
  by pat_completeness auto
termination
proof (relation "measure (\<lambda>(st, p, m). length p)", goal_cases)
  case (2 strtod p m key r c q y v used m')
  have "length (skip_comma (drop used q)) \<le> length q"
    using length_skip_comma [of "drop used q"] by simp
  moreover have "length (c # q) \<le> length p" using 2 by (metis length_dropWhile_le)
  ultimately show ?case by simp
qed simp

declare opmix_loop.simps [simp del]

definition mix_sum :: "OpMix \<Rightarrow> real" where
  "mix_sum m = fl (fl (fl (fl (m_search m + m_update m) + m_insert m) + m_del m) + m_scan m)"

definition normalise :: "OpMix \<Rightarrow> int + OpMix" where
  "normalise m =
     (let sum = mix_sum m
      in if sum \<le> 0 then Inl 2
         else Inr \<lparr>m_search = fl (m_search m / sum), m_update = fl (m_update m / sum),
                   m_insert = fl (m_insert m / sum), m_del = fl (m_del m / sum),
                   m_scan = fl (m_scan m / sum)\<rparr>)"

definition parse_opmix :: "strtod \<Rightarrow> string \<Rightarrow> int + OpMix" where
  "parse_opmix strtod s =
     (if s = '''' \<or> s = ''search''
      then Inr \<lparr>m_search = 1, m_update = 0, m_insert = 0, m_del = 0, m_scan = 0\<rparr>
      else case opmix_loop strtod s \<lparr>m_search = 0, m_update = 0, m_insert = 0, m_del = 0, m_scan = 0\<rparr>
           of Inl c \<Rightarrow> Inl c | Inr m \<Rightarrow> normalise m)"

definition BINS :: nat where [const_defs]: "BINS = 1024"

definition cum :: "OpMix \<Rightarrow> real list" where
  "cum m = [m_search m, fl (m_search m + m_update m), fl (fl (m_search m + m_update m) + m_insert m),
     fl (fl (fl (m_search m + m_update m) + m_insert m) + m_del m), 1]"

text \<open>The loop over the five cumulative shares. The table is filled from the left, so it is the
  list of the bins written so far; \<open>None\<close> is a conversion to \<^verbatim>\<open>int\<close> out of range.\<close>

fun fill_bins :: "real list \<Rightarrow> nat \<Rightarrow> Op list \<Rightarrow> Op list option" where
  "fill_bins [] i tbl = Some tbl"
| "fill_bins (c # cs) i tbl =
     (case int_of_double (fl (c * real BINS)) of None \<Rightarrow> None
      | Some t \<Rightarrow>
          let target = (if t > int BINS then int BINS else t)
          in fill_bins cs (Suc i) (tbl @ replicate (nat target - length tbl) (op_of_nat i)))"

definition OpMixSampler :: "OpMix \<Rightarrow> Op list option" where
  "OpMixSampler m =
     map_option (\<lambda>tbl. tbl @ replicate (BINS - length tbl) Search) (fill_bins (cum m) 0 [])"

definition sample :: "Op list \<Rightarrow> u32 \<Rightarrow> Op" where
  "sample tbl rand = tbl ! (unat rand mod BINS)"

subsection \<open>Parsing a well-formed mix\<close>

type_synonym item = "string \<times> string \<times> real"

text \<open>The text of a list of items (key, number as text, value) joined by commas.\<close>

fun render :: "item list \<Rightarrow> string" where
  "render [] = []"
| "render [(k, t, v)] = k @ ''='' @ t"
| "render ((k, t, v) # x # xs) = k @ ''='' @ t @ '','' @ render (x # xs)"

fun set_shares :: "item list \<Rightarrow> OpMix \<Rightarrow> int + OpMix" where
  "set_shares [] m = Inr m"
| "set_shares ((k, t, v) # xs) m =
     (case set_share k v m of None \<Rightarrow> Inl 2 | Some m' \<Rightarrow> set_shares xs m')"

text \<open>What is assumed of \<^verbatim>\<open>strtod\<close> for an item: it reads the number up to the end of the text or
  the comma and no further.\<close>

definition reads_item :: "strtod \<Rightarrow> item \<Rightarrow> bool" where
  "reads_item strtod it \<longleftrightarrow> (case it of (k, t, v) \<Rightarrow> CHR ''='' \<notin> set k \<and> t \<noteq> [] \<and>
     (\<forall>rest. rest = [] \<or> hd rest = CHR '','' \<longrightarrow> strtod (t @ rest) = (v, length t)))"

lemma opmix_loop_item:
  assumes "reads_item strtod (k, t, v)" "rest = [] \<or> hd rest = CHR '',''"
  shows "opmix_loop strtod (k @ ''='' @ t @ rest) m =
    (case set_share k v m of None \<Rightarrow> Inl 2 | Some m' \<Rightarrow> opmix_loop strtod (skip_comma rest) m')"
proof -
  have k: "\<And>c. c \<in> set k \<Longrightarrow> c \<noteq> CHR ''=''" and t: "t \<noteq> []"
    and st: "strtod (t @ rest) = (v, length t)" using assms by (auto simp: reads_item_def)
  have "takeWhile (\<lambda>c. c \<noteq> CHR ''='') (k @ CHR ''='' # t @ rest) = k"
    "dropWhile (\<lambda>c. c \<noteq> CHR ''='') (k @ CHR ''='' # t @ rest) = CHR ''='' # t @ rest"
    using k by (simp_all add: takeWhile_append2 dropWhile_append2)
  then show ?thesis using st t
    by (subst opmix_loop.simps) (simp add: Let_def split: option.split)
qed

lemma opmix_loop_render:
  assumes "\<forall>it \<in> set items. reads_item strtod it"
  shows "opmix_loop strtod (render items) m = set_shares items m"
  using assms
proof (induction items arbitrary: m rule: render.induct)
  case 1
  show ?case by (subst opmix_loop.simps) simp
next
  case (2 k t v)
  have "opmix_loop strtod [] m' = Inr m'" for m' by (subst opmix_loop.simps) simp
  with opmix_loop_item [of strtod k t v "[]" m] 2 show ?case
    by (simp add: skip_comma_def split: option.split)
next
  case (3 k t v x xs)
  with opmix_loop_item [of strtod k t v "CHR '','' # render (x # xs)" m] show ?case
    by (simp add: skip_comma_def split: option.split)
qed

lemma render_eq_sign: "items \<noteq> [] \<Longrightarrow> CHR ''='' \<in> set (render items)"
  by (induction items rule: render.induct) auto

text \<open>A number of decimal digits: what \<^verbatim>\<open>strtod\<close> does on such text.\<close>

definition digit :: "char \<Rightarrow> bool" where
  "digit c \<longleftrightarrow> c \<in> set ''0123456789''"

definition strtod_digits :: strtod where
  "strtod_digits s =
     (let d = takeWhile digit s
      in (foldl (\<lambda>n c. 10 * n + (of_char c - 48)) 0 d, length d))"

subsection \<open>The table of bins\<close>

definition shares_ok :: "OpMix \<Rightarrow> bool" where
  "shares_ok m \<longleftrightarrow> (\<forall>x \<in> {m_search m, m_update m, m_insert m, m_del m, m_scan m}. 0 \<le> x \<and> x \<le> 1 \<and> fl x = x)"

definition bin_target :: "real \<Rightarrow> nat" where
  "bin_target c = min BINS (nat \<lfloor>fl (c * real BINS)\<rfloor>)"

lemma int_of_double_bin:
  assumes "0 \<le> c" "c \<le> 4"
  shows "int_of_double (fl (c * real BINS)) = Some \<lfloor>fl (c * real BINS)\<rfloor>" "0 \<le> fl (c * real BINS)"
proof -
  have "fl (c * real BINS) \<le> of_int 4096" using assms by (intro fl_le_of_int) (simp_all add: BINS_def)
  moreover show "0 \<le> fl (c * real BINS)" using assms by (intro fl_nonneg) simp
  ultimately show "int_of_double (fl (c * real BINS)) = Some \<lfloor>fl (c * real BINS)\<rfloor>"
    by (intro int_of_double_nonneg) simp_all
qed

lemma fill_bins_step:
  assumes "0 \<le> c" "c \<le> 4"
  shows "fill_bins (c # cs) i tbl =
    fill_bins cs (Suc i) (tbl @ replicate (bin_target c - length tbl) (op_of_nat i))"
proof -
  let ?t = "\<lfloor>fl (c * real BINS)\<rfloor>"
  have "nat (if ?t > int BINS then int BINS else ?t) = bin_target c"
    by (auto simp: bin_target_def min_def)
  then show ?thesis by (simp add: int_of_double_bin [OF assms] Let_def)
qed

lemma cum_bounds:
  assumes "shares_ok m" "c \<in> set (cum m)"
  shows "0 \<le> c \<and> c \<le> 4"
proof -
  have m: "0 \<le> m_search m" "m_search m \<le> 1" "0 \<le> m_update m" "m_update m \<le> 1" "0 \<le> m_insert m"
    "m_insert m \<le> 1" "0 \<le> m_del m" "m_del m \<le> 1" using assms(1) by (auto simp: shares_ok_def)
  define a where "a = fl (m_search m + m_update m)"
  define b where "b = fl (a + m_insert m)"
  define d where "d = fl (b + m_del m)"
  have a: "0 \<le> a" "a \<le> of_int 2" unfolding a_def using m by (intro fl_nonneg fl_le_of_int; simp)+
  have b: "0 \<le> b" "b \<le> of_int 3" unfolding b_def using m a by (intro fl_nonneg fl_le_of_int; simp)+
  have d: "0 \<le> d" "d \<le> of_int 4" unfolding d_def using m b by (intro fl_nonneg fl_le_of_int; simp)+
  show ?thesis using assms(2) m a b d by (auto simp: cum_def simp flip: a_def b_def d_def)
qed

lemma fill_bins_total:
  assumes "\<forall>c \<in> set cs. 0 \<le> c \<and> c \<le> 4" "length tbl \<le> BINS"
  shows "\<exists>tbl'. fill_bins cs i tbl = Some tbl' \<and> length tbl' \<le> BINS"
  using assms
proof (induction cs arbitrary: i tbl)
  case (Cons c cs)
  let ?tbl = "tbl @ replicate (bin_target c - length tbl) (op_of_nat i)"
  have "length ?tbl \<le> BINS" using Cons.prems(2) by (auto simp: bin_target_def)
  from Cons.IH [OF _ this] Cons.prems fill_bins_step show ?case by simp
qed simp

lemma sampler_total:
  assumes "shares_ok m"
  shows "\<exists>tbl. OpMixSampler m = Some tbl \<and> length tbl = BINS"
  using fill_bins_total [of "cum m" "[]" 0] cum_bounds [OF assms] by (auto simp: OpMixSampler_def)

lemma fl_add_ge:
  assumes "fl x = x" "0 \<le> y"
  shows "x \<le> fl (x + y)"
  using fl_mono [of x "x + y"] assms by simp

lemma bin_target_mono: "c \<le> d \<Longrightarrow> bin_target c \<le> bin_target d"
  unfolding bin_target_def by (intro min.mono nat_mono floor_mono fl_mono mult_right_mono) simp_all

lemma bin_target_1 [simp]: "bin_target 1 = BINS"
  by (simp add: bin_target_def BINS_def)

lemma bin_target_le: "bin_target c \<le> BINS"
  by (simp add: bin_target_def)

definition upto_search :: "OpMix \<Rightarrow> nat" where "upto_search m = bin_target (cum m ! 0)"
definition upto_update :: "OpMix \<Rightarrow> nat" where "upto_update m = bin_target (cum m ! 1)"
definition upto_insert :: "OpMix \<Rightarrow> nat" where "upto_insert m = bin_target (cum m ! 2)"
definition upto_delete :: "OpMix \<Rightarrow> nat" where "upto_delete m = bin_target (cum m ! 3)"

lemma upto_mono:
  assumes "shares_ok m"
  shows "upto_search m \<le> upto_update m" "upto_update m \<le> upto_insert m" "upto_insert m \<le> upto_delete m"
    "upto_delete m \<le> BINS"
proof -
  have m: "fl (m_search m) = m_search m" "0 \<le> m_update m" "0 \<le> m_insert m" "0 \<le> m_del m"
    using assms by (auto simp: shares_ok_def)
  show "upto_search m \<le> upto_update m" "upto_update m \<le> upto_insert m" "upto_insert m \<le> upto_delete m"
    unfolding upto_search_def upto_update_def upto_insert_def upto_delete_def
    using m by (auto simp: cum_def intro!: bin_target_mono fl_add_ge)
qed (simp add: upto_delete_def bin_target_le)

lemma sampler_table:
  assumes "shares_ok m"
  shows "OpMixSampler m = Some (replicate (upto_search m) Search @
    replicate (upto_update m - upto_search m) Update @ replicate (upto_insert m - upto_update m) Insert @
    replicate (upto_delete m - upto_insert m) Delete @ replicate (BINS - upto_delete m) Scan)"
proof -
  note u = upto_mono [OF assms] and cb = cum_bounds [OF assms]
  define c0 where "c0 = cum m ! 0" define c1 where "c1 = cum m ! 1"
  define c2 where "c2 = cum m ! 2" define c3 where "c3 = cum m ! 3"
  have c: "cum m = [c0, c1, c2, c3, 1]" by (simp add: cum_def c0_def c1_def c2_def c3_def)
  have t: "bin_target c0 = upto_search m" "bin_target c1 = upto_update m" "bin_target c2 = upto_insert m"
    "bin_target c3 = upto_delete m"
    by (simp_all add: c0_def c1_def c2_def c3_def upto_search_def upto_update_def upto_insert_def upto_delete_def)
  have b: "0 \<le> c0" "c0 \<le> 4" "0 \<le> c1" "c1 \<le> 4" "0 \<le> c2" "c2 \<le> 4" "0 \<le> c3" "c3 \<le> 4"
    using cb unfolding c by simp_all
  show ?thesis unfolding OpMixSampler_def c using u b
    by (simp add: fill_bins_step t op_of_nat_def del: fill_bins.simps(2))
qed

lemma no_write_shares:
  assumes "shares_ok m" "\<not> 0 < fl (fl (m_update m + m_insert m) + m_del m)"
  shows "m_update m = 0 \<and> m_insert m = 0 \<and> m_del m = 0"
proof -
  have m: "fl (m_update m) = m_update m" "fl (m_insert m) = m_insert m" "fl (m_del m) = m_del m"
    "0 \<le> m_update m" "0 \<le> m_insert m" "0 \<le> m_del m" using assms(1) by (auto simp: shares_ok_def)
  define a where "a = fl (m_update m + m_insert m)"
  have a: "m_update m \<le> a" "m_insert m \<le> a" "fl a = a"
    using m fl_add_ge [of "m_update m" "m_insert m"] fl_add_ge [of "m_insert m" "m_update m"]
    by (auto simp: a_def add.commute)
  then have "a \<le> fl (a + m_del m)" "m_del m \<le> fl (a + m_del m)"
    using m fl_add_ge [of a "m_del m"] fl_add_ge [of "m_del m" a] by (auto simp: add.commute)
  with assms(2) a m show ?thesis unfolding a_def [symmetric] by linarith
qed

lemma sample_in: "length tbl = BINS \<Longrightarrow> sample tbl r \<in> set tbl"
  by (simp add: sample_def BINS_def)

subsection \<open>Shares of a parsed mix\<close>

definition weights_ok :: "OpMix \<Rightarrow> bool" where
  "weights_ok m \<longleftrightarrow> (\<forall>x \<in> {m_search m, m_update m, m_insert m, m_del m, m_scan m}. 0 \<le> x \<and> fl x = x)"

lemma mix_sum_ge:
  assumes "weights_ok m" "x \<in> {m_search m, m_update m, m_insert m, m_del m, m_scan m}"
  shows "x \<le> mix_sum m"
proof -
  have m: "fl (m_search m) = m_search m" "fl (m_update m) = m_update m" "fl (m_insert m) = m_insert m"
    "fl (m_del m) = m_del m" "fl (m_scan m) = m_scan m"
    "0 \<le> m_search m" "0 \<le> m_update m" "0 \<le> m_insert m" "0 \<le> m_del m" "0 \<le> m_scan m"
    using assms(1) by (auto simp: weights_ok_def)
  have step: "x \<le> fl (x + y) \<and> y \<le> fl (x + y) \<and> 0 \<le> fl (x + y) \<and> fl (fl (x + y)) = fl (x + y)"
    if "fl x = x" "fl y = y" "0 \<le> x" "0 \<le> y" for x y
    using that fl_add_ge [of x y] fl_add_ge [of y x] by (auto simp: add.commute intro: fl_nonneg)
  define a where "a = fl (m_search m + m_update m)"
  define b where "b = fl (a + m_insert m)"
  define d where "d = fl (b + m_del m)"
  have a: "m_search m \<le> a" "m_update m \<le> a" "0 \<le> a" "fl a = a"
    using step [OF m(1,2,6,7)] by (simp_all add: a_def)
  have b: "a \<le> b" "m_insert m \<le> b" "0 \<le> b" "fl b = b" using step [OF a(4) m(3) a(3) m(8)] by (simp_all add: b_def)
  have d: "b \<le> d" "m_del m \<le> d" "0 \<le> d" "fl d = d" using step [OF b(4) m(4) b(3) m(9)] by (simp_all add: d_def)
  have "d \<le> mix_sum m" "m_scan m \<le> mix_sum m"
    using step [OF d(4) m(5) d(3) m(10)] by (simp_all add: mix_sum_def a_def b_def d_def)
  with a b d assms(2) show ?thesis by auto
qed

lemma normalise_ok:
  assumes "weights_ok m"
  shows "case normalise m of Inl c \<Rightarrow> c = 2 \<and> mix_sum m = 0 | Inr m' \<Rightarrow> shares_ok m'"
proof -
  have pos: "0 \<le> mix_sum m" using mix_sum_ge [OF assms, of "m_search m"] assms
    by (auto simp: weights_ok_def)
  have "0 \<le> fl (x / mix_sum m) \<and> fl (x / mix_sum m) \<le> 1"
    if "0 < mix_sum m" "x \<in> {m_search m, m_update m, m_insert m, m_del m, m_scan m}" for x
  proof -
    have "0 \<le> x" "x \<le> mix_sum m" using that(2) assms mix_sum_ge [OF assms that(2)] by (auto simp: weights_ok_def)
    then have "0 \<le> x / mix_sum m" "x / mix_sum m \<le> of_int 1" using that(1) by simp_all
    then show ?thesis using fl_nonneg fl_le_of_int [of 1] by auto
  qed
  then show ?thesis using pos by (auto simp: normalise_def Let_def shares_ok_def)
qed

subsection \<open>Properties\<close>


lemma strtod_digits_reads:
  assumes "CHR ''='' \<notin> set k" "t \<noteq> []" "\<forall>c \<in> set t. digit c"
  shows "reads_item strtod_digits (k, t, fst (strtod_digits t))"
proof -
  have st: "strtod_digits (t @ rest) = (foldl (\<lambda>n c. 10 * n + (of_char c - 48)) 0 t, length t)"
    if "rest = [] \<or> hd rest = CHR '','' " for rest
  proof -
    have "takeWhile digit (t @ rest) = t"
      using that assms(3) by (cases rest) (auto simp: takeWhile_append digit_def)
    then show ?thesis by (simp only: strtod_digits_def Let_def)
  qed
  have "strtod_digits t = (foldl (\<lambda>n c. 10 * n + (of_char c - 48)) 0 t, length t)"
    using st [of "[]"] by simp
  with st assms(1,2) show ?thesis by (simp add: reads_item_def)
qed


text \<open>C23. For non-negative weights the parsed shares lie between 0 and 1 and the sampler's table is
  completely filled, 1024 bins: a block for each operation in the order of the enumeration, its
  bounds the truncated cumulative shares.\<close>

theorem sampler_bins:
  assumes "weights_ok w" "normalise w = Inr m"
  shows "shares_ok m \<and> OpMixSampler m = Some (replicate (upto_search m) Search @
    replicate (upto_update m - upto_search m) Update @ replicate (upto_insert m - upto_update m) Insert @
    replicate (upto_delete m - upto_insert m) Delete @ replicate (BINS - upto_delete m) Scan) \<and>
    upto_search m \<le> upto_update m \<and> upto_update m \<le> upto_insert m \<and> upto_insert m \<le> upto_delete m \<and>
    upto_delete m \<le> BINS"
proof -
  have "shares_ok m" using normalise_ok [OF assms(1)] assms(2) by simp
  with sampler_table upto_mono show ?thesis by blast
qed

lemma even_mix_normalise:
  "normalise \<lparr>m_search = 1, m_update = 1, m_insert = 0, m_del = 0, m_scan = 0\<rparr> =
   Inr \<lparr>m_search = 1 / 2, m_update = 1 / 2, m_insert = 0, m_del = 0, m_scan = 0\<rparr>"
  by (simp add: normalise_def mix_sum_def fl_half)

theorem sampler_bins_witness:
  "OpMixSampler \<lparr>m_search = 1 / 2, m_update = 1 / 2, m_insert = 0, m_del = 0, m_scan = 0\<rparr> =
   Some (replicate 512 Search @ replicate 512 Update)"
proof -
  have "weights_ok \<lparr>m_search = 1, m_update = 1, m_insert = 0, m_del = 0, m_scan = 0\<rparr>"
    by (simp add: weights_ok_def)
  from sampler_bins [OF this even_mix_normalise] show ?thesis
    by (simp add: upto_search_def upto_update_def upto_insert_def upto_delete_def cum_def bin_target_def
        BINS_def)
qed

lemma read_only_sample:
  assumes "shares_ok m" "\<not> 0 < fl (fl (m_update m + m_insert m) + m_del m)" "OpMixSampler m = Some tbl"
  shows "sample tbl r = Search \<or> sample tbl r = Scan"
proof -
  have m: "m_update m = 0" "m_insert m = 0" "m_del m = 0" "fl (m_search m) = m_search m"
    using no_write_shares [OF assms(1,2)] assms(1) by (auto simp: shares_ok_def)
  then have "upto_update m = upto_search m" "upto_insert m = upto_search m" "upto_delete m = upto_search m"
    by (simp_all add: upto_search_def upto_update_def upto_insert_def upto_delete_def cum_def)
  with sampler_table [OF assms(1)] assms(3) have
    "set tbl \<subseteq> {Search, Scan}" by auto
  moreover have "length tbl = BINS" using sampler_total [OF assms(1)] assms(3) by auto
  ultimately show ?thesis using sample_in [of tbl r] by auto
qed

text \<open>A mix whose update, insert and delete shares add up to nothing, the condition under which the
  driver runs without a lock, never yields an update, an insert or a delete.\<close>

theorem read_only_mix_never_writes:
  assumes "shares_ok m" "\<not> 0 < fl (fl (m_update m + m_insert m) + m_del m)" "OpMixSampler m = Some tbl"
  shows "sample tbl r = Search \<or> sample tbl r = Scan"
  using read_only_sample [OF assms] .

theorem read_only_mix_never_writes_witness:
  "\<exists>tbl. OpMixSampler \<lparr>m_search = 1, m_update = 0, m_insert = 0, m_del = 0, m_scan = 0\<rparr> = Some tbl \<and>
    (sample tbl 77 = Search \<or> sample tbl 77 = Scan)"
proof -
  let ?m = "\<lparr>m_search = 1, m_update = 0, m_insert = 0, m_del = 0, m_scan = 0 :: real\<rparr>"
  have ok: "shares_ok ?m" by (simp add: shares_ok_def)
  then obtain tbl where "OpMixSampler ?m = Some tbl" using sampler_total by blast
  with read_only_mix_never_writes [OF ok, of tbl 77] show ?thesis by auto
qed

lemma fl_sixth: "fl (1 / 6) = 6004799503160661 / 36028797018963968"
  using fl_eqI [of "- 55" "1 / 6" 6004799503160661] by (simp add: power_int_minus field_simps)

lemma fl_four_sixths: "fl (4 / 6) = 6004799503160661 / 9007199254740992"
  using fl_eqI [of "- 53" "4 / 6" 6004799503160661] by (simp add: power_int_minus field_simps)

lemma fl_five_sixths:
  "fl (6004799503160661 / 36028797018963968 + 6004799503160661 / 9007199254740992) = 7505999378950826 / 9007199254740992"
  using fl_eqI [of "- 53" "6004799503160661 / 36028797018963968 + 6004799503160661 / 9007199254740992" 7505999378950826]
  by (simp add: power_int_minus field_simps)

lemma fl_below_one:
  "fl (7505999378950826 / 9007199254740992 + 6004799503160661 / 36028797018963968) = 9007199254740991 / 9007199254740992"
  using fl_eqI [of "- 53" "7505999378950826 / 9007199254740992 + 6004799503160661 / 36028797018963968" 9007199254740991]
  by (simp add: power_int_minus field_simps)

lemma fl_last_bin: "fl (9007199254740991 / 9007199254740992 * 1024) = 9007199254740991 / 8796093022208"
  using fl_repr [of "9007199254740991 / 8796093022208" 9007199254740991 "- 43"] by (simp add: power_int_minus field_simps)

definition leaky_mix :: OpMix where
  "leaky_mix = \<lparr>m_search = 0, m_update = 6004799503160661 / 36028797018963968,
     m_insert = 6004799503160661 / 9007199254740992, m_del = 6004799503160661 / 36028797018963968, m_scan = 0\<rparr>"

lemma leaky_mix_normalise:
  "normalise \<lparr>m_search = 0, m_update = 1, m_insert = 4, m_del = 1, m_scan = 0\<rparr> = Inr leaky_mix"
  using fl_sixth fl_four_sixths by (simp add: normalise_def mix_sum_def leaky_mix_def)

lemma leaky_mix_cum: "cum leaky_mix ! 3 = 9007199254740991 / 9007199254740992"
proof -
  have "fl (6004799503160661 / 36028797018963968) = 6004799503160661 / 36028797018963968"
    using fl_idem [of "1 / 6"] by (simp only: fl_sixth)
  with fl_five_sixths fl_below_one show ?thesis
    by (simp only: cum_def leaky_mix_def OpMix.select_convs add_0) simp
qed

lemma leaky_mix_upto: "upto_delete leaky_mix = 1023"
proof -
  have "real BINS = 1024" by (simp add: BINS_def)
  then show ?thesis unfolding upto_delete_def leaky_mix_cum bin_target_def by (simp only: fl_last_bin) (simp add: BINS_def)
qed

lemma leaky_mix_parse: "parse_opmix strtod_digits ''u=1,i=4,d=1'' = Inr leaky_mix"
proof -
  let ?items = "[(''u'', ''1'', 1), (''i'', ''4'', 4), (''d'', ''1'', 1)] :: item list"
  have d: "fst (strtod_digits ''4'') = 4" "fst (strtod_digits ''1'') = 1"
    by (simp_all add: strtod_digits_def digit_def)
  have "\<forall>it \<in> set ?items. reads_item strtod_digits it"
    using strtod_digits_reads [of "''u''" "''1''"] strtod_digits_reads [of "''i''" "''4''"]
      strtod_digits_reads [of "''d''" "''1''"] by (simp add: d digit_def)
  from opmix_loop_render [OF this] leaky_mix_normalise show ?thesis
    by (simp add: parse_opmix_def set_share_def)
qed

text \<open>The last block of the table is filled up to the end for the scans even when the mix asks for
  none: with \<^verbatim>\<open>u=1,i=4,d=1\<close> the rounded cumulative share ends just below 1, and one bin of 1024 draws a
  scan.\<close>

theorem opmix_scan_leak:
  "\<exists>m tbl. parse_opmix strtod_digits ''u=1,i=4,d=1'' = Inr m \<and> m_scan m = 0 \<and>
    OpMixSampler m = Some tbl \<and> sample tbl 1023 = Scan"
proof -
  have w: "weights_ok \<lparr>m_search = 0, m_update = 1, m_insert = 4, m_del = 1, m_scan = 0\<rparr>"
    by (simp add: weights_ok_def)
  with normalise_ok [OF w] leaky_mix_normalise have ok: "shares_ok leaky_mix" by simp
  note u = upto_mono [OF ok]
  have "sample (replicate (upto_search leaky_mix) Search @
    replicate (upto_update leaky_mix - upto_search leaky_mix) Update @
    replicate (upto_insert leaky_mix - upto_update leaky_mix) Insert @
    replicate (upto_delete leaky_mix - upto_insert leaky_mix) Delete @ replicate (BINS - upto_delete leaky_mix) Scan)
    1023 = Scan"
    using u by (auto simp: sample_def leaky_mix_upto nth_append BINS_def)
  with sampler_table [OF ok] leaky_mix_parse show ?thesis by (auto simp: leaky_mix_def)
qed

end
