(* ===== verification/Workload.thy ===== *)
theory Workload
  imports Prelude "HOL-Library.Multiset"
begin

text \<open>
  The work done after each index operation (\<^verbatim>\<open>workload.hpp\<close>). Buffers are lists of bytes; an
  eight-byte access through a cast pointer reads or writes little-endian bytes and is undefined
  (\<open>None\<close>) when it leaves the buffer. \<^verbatim>\<open>std::shuffle\<close> is a parameter, one function for each of the
  two shuffled vectors; all that is assumed of them, where anything is, is that they permute.
\<close>

datatype WorkloadKind = None' | Polluter | ObjectAccess | StorageStack

type_synonym bytes = "u8 list"

record Workload =
  w_kind :: WorkloadKind
  w_per_call :: u64
  w_universe :: u64
  w_buf :: bytes
  w_offsets :: "u64 list"
  w_line_perm :: "u32 list"
  w_total_lines :: u64
  w_lines_per_call :: u64
  w_bio :: bytes
  w_pagecache :: bytes
  w_inode :: bytes

subsection \<open>Eight-byte accesses\<close>

definition load64 :: "bytes \<Rightarrow> nat \<Rightarrow> u64 option" where
  "load64 buf off =
     (if off + 8 \<le> length buf
      then Some (foldr (\<lambda>b acc. ucast b + push_bit 8 acc) (take 8 (drop off buf)) 0) else None)"

definition bytes_of :: "u64 \<Rightarrow> bytes" where
  "bytes_of v = map (\<lambda>i. ucast (drop_bit (8 * i) v)) [0..<8]"

definition store64 :: "bytes \<Rightarrow> nat \<Rightarrow> u64 \<Rightarrow> bytes option" where
  "store64 buf off v =
     (if off + 8 \<le> length buf then Some (take off buf @ bytes_of v @ drop (off + 8) buf) else None)"

subsection \<open>Construction\<close>

text \<open>The loops that write one byte of every page.\<close>

definition touch_pages :: "(nat \<Rightarrow> u8) \<Rightarrow> bytes \<Rightarrow> bytes" where
  "touch_pages f buf = map (\<lambda>i. if i mod 4096 = 0 then f i else buf ! i) [0..<length buf]"

definition fresh_meta :: "nat \<Rightarrow> bytes" where
  "fresh_meta n = touch_pages (\<lambda>_. 1) (replicate n 0)"

definition Workload_new ::
  "(u32 list \<Rightarrow> u32 list) \<Rightarrow> (u64 list \<Rightarrow> u64 list) \<Rightarrow> WorkloadKind \<Rightarrow> u64 \<Rightarrow> u64 \<Rightarrow> Workload" where
  "Workload_new shuffle_lines shuffle_slots kind per_call_bytes universe_bytes =
     (let w0 = \<lparr>w_kind = kind, w_per_call = per_call_bytes, w_universe = universe_bytes, w_buf = [],
                w_offsets = [], w_line_perm = [], w_total_lines = 0, w_lines_per_call = 0,
                w_bio = [], w_pagecache = [], w_inode = []\<rparr>
      in if kind = None' then w0
         else
           let per = (if per_call_bytes = 0 then 64 else per_call_bytes);
               tl0 = universe_bytes div 64;
               total_lines = (if tl0 = 0 then 1 else tl0);
               universe = total_lines * 64;
               lpc0 = per div 64;
               slots0 = (universe + per - 1) div per;
               slots = (if slots0 = 0 then 1 else slots0)
           in w0\<lparr>w_per_call := per, w_universe := universe,
                 w_buf := touch_pages (\<lambda>i. of_nat i AND 255) (replicate (unat universe) 0),
                 w_bio := (if kind = StorageStack then fresh_meta (256 * 1024) else []),
                 w_pagecache := (if kind = StorageStack then fresh_meta (2 ^ 20) else []),
                 w_inode := (if kind = StorageStack then fresh_meta (512 * 1024) else []),
                 w_line_perm := shuffle_lines (map of_nat [0..<unat total_lines]),
                 w_total_lines := total_lines,
                 w_lines_per_call := (if lpc0 = 0 then 1 else lpc0),
                 w_offsets := shuffle_slots (map of_nat [0..<unat slots])\<rparr>)"

subsection \<open>The four kinds of work\<close>

definition perm_index :: "u64 \<Rightarrow> u64 \<Rightarrow> nat \<Rightarrow> u64" where
  "perm_index start total_lines i =
     (let idx = start + of_nat i in if idx \<ge> total_lines then idx - total_lines else idx)"

fun polluter_loop :: "Workload \<Rightarrow> u64 \<Rightarrow> u64 \<Rightarrow> nat list \<Rightarrow> bytes \<Rightarrow> u64 \<Rightarrow> (bytes \<times> u64) option" where
  "polluter_loop w tag start [] buf acc = Some (buf, acc)"
| "polluter_loop w tag start (i # is) buf acc =
     (let idx = unat (perm_index start (w_total_lines w) i)
      in if idx < length (w_line_perm w)
         then let p = unat (w_line_perm w ! idx) * 64
              in case load64 buf p of None \<Rightarrow> None
                 | Some v \<Rightarrow>
                     (case store64 buf p ((acc + v) XOR tag) of None \<Rightarrow> None
                      | Some buf' \<Rightarrow> polluter_loop w tag start is buf' (acc + v))
         else None)"

definition polluter :: "u64 \<Rightarrow> Workload \<Rightarrow> (Workload \<times> u64) option" where
  "polluter tag w =
     (let start = (tag * 0x9E3779B97F4A7C15) mod w_total_lines w
      in map_option (\<lambda>(buf, acc). (w\<lparr>w_buf := buf\<rparr>, acc))
           (polluter_loop w tag start [0..<unat (w_lines_per_call w)] (w_buf w) 0))"

text \<open>The sum of the eight-byte words at \<open>base + off\<close>, for the offsets the loop visits.\<close>

fun sum_words :: "bytes \<Rightarrow> nat \<Rightarrow> nat list \<Rightarrow> u64 \<Rightarrow> u64 option" where
  "sum_words buf base [] acc = Some acc"
| "sum_words buf base (off # offs) acc =
     (case load64 buf (base + off) of None \<Rightarrow> None
      | Some v \<Rightarrow> sum_words buf base offs (acc + v))"

definition strides :: "nat \<Rightarrow> nat \<Rightarrow> nat list" where
  "strides step n = map (\<lambda>i. i * step) [0..<(n + step - 1) div step]"

definition slot_of :: "u64 \<Rightarrow> Workload \<Rightarrow> u64 option" where
  "slot_of tag w =
     (if w_offsets w = [] then None
      else Some (w_offsets w ! unat (tag mod of_nat (length (w_offsets w)))))"

definition object_access :: "u64 \<Rightarrow> Workload \<Rightarrow> u64 option" where
  "object_access tag w =
     (case slot_of tag w of None \<Rightarrow> None
      | Some slot \<Rightarrow>
          sum_words (w_buf w) (unat (slot * w_per_call w)) (strides 8 (unat (w_per_call w))) 0)"

definition storage_stack :: "u64 \<Rightarrow> Workload \<Rightarrow> u64 option" where
  "storage_stack tag w =
     (let s1 = unat ((tag * 0x9E3779B97F4A7C15) mod (of_nat (length (w_bio w)) div 128));
          s2 = unat ((tag * 0xBF58476D1CE4E5B9) mod (of_nat (length (w_pagecache w)) div 128));
          s3 = unat ((tag * 0x94D049BB133111EB) mod (of_nat (length (w_inode w)) div 256))
      in case sum_words (w_bio w) (s1 * 128) (strides 8 128) 0 of None \<Rightarrow> None
         | Some a1 \<Rightarrow>
             (case sum_words (w_pagecache w) (s2 * 128) (strides 8 128) a1 of None \<Rightarrow> None
              | Some a2 \<Rightarrow>
                  (case sum_words (w_inode w) (s3 * 256) (strides 8 256) a2 of None \<Rightarrow> None
                   | Some a3 \<Rightarrow>
                       (case slot_of tag w of None \<Rightarrow> None
                        | Some slot \<Rightarrow>
                            sum_words (w_buf w) (unat (slot * w_per_call w))
                              (strides 64 (unat (w_per_call w))) a3))))"

definition run :: "u64 \<Rightarrow> Workload \<Rightarrow> (Workload \<times> u64) option" where
  "run tag w =
     (case w_kind w of
        None' \<Rightarrow> Some (w, tag)
      | Polluter \<Rightarrow> polluter tag w
      | ObjectAccess \<Rightarrow> map_option (Pair w) (object_access tag w)
      | StorageStack \<Rightarrow> map_option (Pair w) (storage_stack tag w))"

subsection \<open>Accesses inside the buffer\<close>

lemma load64_Some: "off + 8 \<le> length buf \<Longrightarrow> \<exists>v. load64 buf off = Some v"
  by (simp add: load64_def)

lemma length_bytes_of [simp]: "length (bytes_of v) = 8"
  by (simp add: bytes_of_def)

lemma store64_Some: "off + 8 \<le> length buf \<Longrightarrow> \<exists>buf'. store64 buf off v = Some buf' \<and> length buf' = length buf"
  by (simp add: store64_def)

lemma sum_words_Some:
  "\<forall>off \<in> set offs. base + off + 8 \<le> length buf \<Longrightarrow> \<exists>v. sum_words buf base offs acc = Some v"
proof (induction offs arbitrary: acc)
  case (Cons off offs)
  with load64_Some [of "base + off" buf] show ?case by auto
qed simp

lemma strides_bound: "0 < step \<Longrightarrow> off \<in> set (strides step n) \<Longrightarrow> off < n"
proof -
  assume s: "0 < step" and "off \<in> set (strides step n)"
  then obtain i where i: "off = i * step" "i < (n + step - 1) div step" by (auto simp: strides_def)
  then have "(i + 1) * step \<le> n + step - 1" by (metis Suc_eq_plus1 Suc_leI div_times_less_eq_dividend mult_le_mono1 order_trans)
  with s i show "off < n" by (simp add: algebra_simps)
qed

lemma strides_dvd: "off \<in> set (strides step n) \<Longrightarrow> step dvd off"
  by (auto simp: strides_def)

lemma stride_fits:
  assumes "0 < step" "8 dvd step" "8 dvd n" "off \<in> set (strides step n)"
  shows "off + 8 \<le> n"
proof -
  have "8 dvd off" using strides_dvd [OF assms(4)] assms(2) by (rule dvd_trans [rotated])
  with strides_bound [OF assms(1,4)] assms(3) show ?thesis by (auto elim!: dvdE)
qed

subsection \<open>Well-formed workloads\<close>

definition wl_inv :: "Workload \<Rightarrow> bool" where
  "wl_inv w \<longleftrightarrow> 0 < unat (w_total_lines w) \<and> unat (w_total_lines w) < 2 ^ 58 \<and>
     length (w_buf w) = 64 * unat (w_total_lines w) \<and>
     length (w_line_perm w) = unat (w_total_lines w) \<and>
     (\<forall>l \<in> set (w_line_perm w). unat l < unat (w_total_lines w)) \<and>
     w_offsets w \<noteq> [] \<and> length (w_offsets w) < 2 ^ 64 \<and>
     (w_kind w = StorageStack \<longrightarrow> length (w_bio w) = 262144 \<and> length (w_pagecache w) = 1048576 \<and>
        length (w_inode w) = 524288)"

text \<open>What the parameters have to satisfy for every access to stay inside the buffers.\<close>

definition wl_fits :: "Workload \<Rightarrow> bool" where
  "wl_fits w \<longleftrightarrow>
     (w_kind w = Polluter \<longrightarrow> unat (w_lines_per_call w) \<le> unat (w_total_lines w)) \<and>
     (w_kind w = ObjectAccess \<or> w_kind w = StorageStack \<longrightarrow> 8 dvd unat (w_per_call w) \<and>
        (\<forall>s \<in> set (w_offsets w). unat s * unat (w_per_call w) + unat (w_per_call w) \<le> length (w_buf w)))"

definition wl_ready :: "Workload \<Rightarrow> bool" where
  "wl_ready w \<longleftrightarrow> w_kind w = None' \<or> wl_inv w \<and> wl_fits w"

lemma unat_mod_u64: "unat (a mod b :: u64) = unat a mod unat b"
  by (simp add: unat_mod)

lemma perm_index_less:
  assumes "unat start < unat t" "i < unat t" "unat t < 2 ^ 58"
  shows "unat (perm_index start t i) < unat t"
proof -
  have i: "unat (of_nat i :: u64) = i" using assms by (intro unat_of_nat_u64) simp
  have s: "unat (start + of_nat i) = unat start + i" using assms i by (subst unat_add_u64) auto
  show ?thesis
  proof (cases "start + of_nat i \<ge> t")
    case True
    then have "unat (start + of_nat i - t) = unat start + i - unat t"
      by (subst unat_diff_u64) (simp_all add: s)
    with True assms show ?thesis by (simp add: perm_index_def Let_def)
  next
    case False
    then show ?thesis by (simp add: perm_index_def Let_def word_le_nat_alt)
  qed
qed

lemma polluter_loop_Some:
  assumes inv: "wl_inv w" and start: "unat start < unat (w_total_lines w)"
    and "\<forall>i \<in> set is. i < unat (w_total_lines w)" "length buf = 64 * unat (w_total_lines w)"
  shows "\<exists>buf' acc'. polluter_loop w tag start is buf acc = Some (buf', acc') \<and> length buf' = length buf"
  using assms(3,4)
proof (induction "is" arbitrary: buf acc)
  case (Cons i "is")
  define idx where "idx = unat (perm_index start (w_total_lines w) i)"
  have idx: "idx < length (w_line_perm w)"
    using perm_index_less [OF start, of i] Cons.prems inv by (simp add: idx_def wl_inv_def)
  then have "unat (w_line_perm w ! idx) < unat (w_total_lines w)" using inv by (simp add: wl_inv_def)
  then have p: "unat (w_line_perm w ! idx) * 64 + 8 \<le> length buf" using Cons.prems(2) by simp
  from load64_Some [OF p] obtain v where v: "load64 buf (unat (w_line_perm w ! idx) * 64) = Some v" by blast
  from store64_Some [OF p, of "(acc + v) XOR tag"] obtain buf' where
    b: "store64 buf (unat (w_line_perm w ! idx) * 64) ((acc + v) XOR tag) = Some buf'" "length buf' = length buf"
    by blast
  from Cons.IH [of buf' "acc + v"] Cons.prems b(2) idx v b(1) show ?case
    by (simp add: Let_def flip: idx_def)
qed simp

lemma polluter_Some:
  assumes "wl_inv w" "wl_fits w" "w_kind w = Polluter"
  shows "\<exists>w' v. polluter tag w = Some (w', v) \<and> wl_inv w' \<and> wl_fits w' \<and> w_kind w' = Polluter"
proof -
  have t: "0 < unat (w_total_lines w)" using assms(1) by (simp add: wl_inv_def)
  have "unat ((tag * 0x9E3779B97F4A7C15) mod w_total_lines w) < unat (w_total_lines w)"
    using t by (simp add: unat_mod_u64)
  from polluter_loop_Some [OF assms(1) this, of "[0..<unat (w_lines_per_call w)]" "w_buf w" tag 0]
  obtain buf acc where "polluter_loop w tag ((tag * 0x9E3779B97F4A7C15) mod w_total_lines w)
      [0..<unat (w_lines_per_call w)] (w_buf w) 0 = Some (buf, acc)" "length buf = length (w_buf w)"
    using assms by (auto simp: wl_fits_def wl_inv_def)
  with assms show ?thesis by (auto simp: polluter_def Let_def wl_inv_def wl_fits_def)
qed

lemma slot_of_Some:
  assumes "wl_inv w"
  shows "\<exists>s. slot_of tag w = Some s \<and> s \<in> set (w_offsets w)"
proof -
  have n: "0 < length (w_offsets w)" "length (w_offsets w) < 18446744073709551616"
    using assms by (auto simp: wl_inv_def)
  then have "unat (tag mod of_nat (length (w_offsets w))) < length (w_offsets w)"
    by (simp add: unat_mod_u64 unat_of_nat_u64)
  with n show ?thesis by (auto simp: slot_of_def)
qed

lemma payload_Some:
  assumes "wl_inv w" "wl_fits w" "w_kind w = ObjectAccess \<or> w_kind w = StorageStack"
    "s \<in> set (w_offsets w)" "0 < step" "8 dvd step"
  shows "\<exists>v. sum_words (w_buf w) (unat (s * w_per_call w)) (strides step (unat (w_per_call w))) acc = Some v"
proof (rule sum_words_Some, rule ballI)
  fix off assume off: "off \<in> set (strides step (unat (w_per_call w)))"
  have f: "8 dvd unat (w_per_call w)" "unat s * unat (w_per_call w) + unat (w_per_call w) \<le> length (w_buf w)"
    using assms by (auto simp: wl_fits_def)
  have "length (w_buf w) < 2 ^ 64" using assms(1) by (simp add: wl_inv_def)
  with f(2) have "unat (s * w_per_call w) = unat s * unat (w_per_call w)" by (subst unat_mult_u64) auto
  with f stride_fits [OF assms(5,6) f(1) off] show "unat (s * w_per_call w) + off + 8 \<le> length (w_buf w)" by simp
qed

lemma meta_Some:
  fixes x :: u64
  assumes "length meta = n * m" "8 dvd m" "0 < n" "0 < m" "n < 18446744073709551616" "m < 18446744073709551616"
    "n * m < 18446744073709551616"
  shows "\<exists>v. sum_words meta (unat (x mod (of_nat (length meta) div of_nat m)) * m) (strides 8 m) acc = Some v"
proof (rule sum_words_Some, rule ballI)
  fix off assume off: "off \<in> set (strides 8 m)"
  have "unat (of_nat (length meta) :: u64) = n * m" "unat (of_nat m :: u64) = m"
    using unat_of_nat_u64 [of "length meta"] unat_of_nat_u64 [of m] assms by simp_all
  then have "unat (of_nat (length meta) div of_nat m :: u64) = n"
    using assms(4) by (simp only: unat_div) simp
  then have "unat (x mod (of_nat (length meta) div of_nat m)) < n"
    using assms(3) by (simp only: unat_mod_u64 mod_less_divisor)
  then have "(unat (x mod (of_nat (length meta) div of_nat m)) + 1) * m \<le> n * m" by (intro mult_right_mono) simp_all
  with stride_fits [OF _ _ assms(2) off] assms(1)
  show "unat (x mod (of_nat (length meta) div of_nat m)) * m + off + 8 \<le> length meta" by simp
qed

lemma storage_stack_Some:
  assumes "wl_inv w" "wl_fits w" "w_kind w = StorageStack"
  shows "\<exists>v. storage_stack tag w = Some v"
proof -
  let ?x1 = "tag * 0x9E3779B97F4A7C15" and ?x2 = "tag * 0xBF58476D1CE4E5B9" and ?x3 = "tag * 0x94D049BB133111EB"
  have len: "length (w_bio w) = 2048 * 128" "length (w_pagecache w) = 8192 * 128" "length (w_inode w) = 2048 * 256"
    using assms(1,3) by (simp_all add: wl_inv_def)
  from meta_Some [OF len(1), of ?x1 0] obtain a1 where
    a1: "sum_words (w_bio w) (unat (?x1 mod (of_nat (length (w_bio w)) div 128)) * 128) (strides 8 128) 0 = Some a1"
    by auto
  from meta_Some [OF len(2), of ?x2 a1] obtain a2 where
    a2: "sum_words (w_pagecache w) (unat (?x2 mod (of_nat (length (w_pagecache w)) div 128)) * 128) (strides 8 128) a1 = Some a2"
    by auto
  from meta_Some [OF len(3), of ?x3 a2] obtain a3 where
    a3: "sum_words (w_inode w) (unat (?x3 mod (of_nat (length (w_inode w)) div 256)) * 256) (strides 8 256) a2 = Some a3"
    by auto
  from slot_of_Some [OF assms(1), of tag] obtain s where s: "slot_of tag w = Some s" "s \<in> set (w_offsets w)" by blast
  from payload_Some [OF assms(1,2) _ s(2), of 64 a3] assms(3) show ?thesis
    unfolding storage_stack_def Let_def by (simp add: a1 a2 a3 s(1))
qed

lemma run_ready:
  assumes "wl_ready w"
  shows "\<exists>w' v. run tag w = Some (w', v) \<and> wl_ready w'"
proof (cases "w_kind w")
  case None'
  then show ?thesis using assms by (simp add: run_def)
next
  case Polluter
  with assms polluter_Some [of w tag] show ?thesis by (auto simp: run_def wl_ready_def)
next
  case ObjectAccess
  with assms have w: "wl_inv w" "wl_fits w" by (auto simp: wl_ready_def)
  from slot_of_Some [OF w(1), of tag] obtain s where s: "slot_of tag w = Some s" "s \<in> set (w_offsets w)" by blast
  from payload_Some [OF w _ s(2), of 8 0] s(1) assms ObjectAccess show ?thesis
    by (auto simp: run_def object_access_def)
next
  case StorageStack
  with assms storage_stack_Some [of w tag] show ?thesis by (auto simp: run_def wl_ready_def)
qed

subsection \<open>The constructor\<close>

text \<open>The parameters as the constructor adjusts them.\<close>

definition eff_lines :: "u64 \<Rightarrow> nat" where
  "eff_lines universe_bytes = max 1 (unat universe_bytes div 64)"

definition eff_per_call :: "u64 \<Rightarrow> nat" where
  "eff_per_call per_call_bytes = (if per_call_bytes = 0 then 64 else unat per_call_bytes)"

definition params_fit :: "WorkloadKind \<Rightarrow> u64 \<Rightarrow> u64 \<Rightarrow> bool" where
  "params_fit kind per universe \<longleftrightarrow>
     (case kind of None' \<Rightarrow> True
      | Polluter \<Rightarrow> eff_per_call per div 64 \<le> eff_lines universe
      | _ \<Rightarrow> 8 dvd eff_per_call per \<and> eff_per_call per dvd 64 * eff_lines universe)"

lemma length_touch_pages [simp]: "length (touch_pages f buf) = length buf"
  by (simp add: touch_pages_def)

lemma length_fresh_meta [simp]: "length (fresh_meta n) = n"
  by (simp add: fresh_meta_def)

lemma u64_div64: "unat (u div 64 :: u64) = unat u div 64" "unat (u div 64 :: u64) < 2 ^ 58"
proof -
  show 1: "unat (u div 64 :: u64) = unat u div 64" by (simp add: unat_div)
  show "unat (u div 64 :: u64) < 2 ^ 58" unfolding 1 using unat_u64_lt [of u] by (simp add: less_mult_imp_div_less)
qed

lemma eff_lines_u64:
  fixes u :: u64
  defines "t \<equiv> (if u div 64 = 0 then 1 else u div 64)"
  shows "unat t = eff_lines u" "unat (t * 64) = 64 * eff_lines u" "eff_lines u < 2 ^ 58" "0 < eff_lines u"
proof -
  show t: "unat t = eff_lines u"
    using u64_div64(1) [of u] by (auto simp: t_def eff_lines_def max_def simp flip: unat_eq_0_iff)
  show lt: "eff_lines u < 2 ^ 58" using u64_div64 [of u] by (simp add: eff_lines_def)
  show "unat (t * 64) = 64 * eff_lines u" using lt by (subst unat_mult_u64) (simp_all add: t)
  show "0 < eff_lines u" by (simp add: eff_lines_def)
qed

lemma slots_fit:
  fixes u p :: u64
  assumes "unat u = n" "0 < unat p" "unat p dvd n" "0 < n"
    and "i < unat (if (u + p - 1) div p = 0 then 1 else (u + p - 1) div p)"
  shows "unat (of_nat i :: u64) * unat p + unat p \<le> n"
proof -
  have "u + p - 1 = of_nat (n + unat p - 1)"
    using assms(1,2) by (simp add: of_nat_diff) (metis of_nat_unat_u64)
  then have "unat (u + p - 1) \<le> n + unat p - 1"
    by (simp only: unsigned_of_nat take_bit_nat_less_eq_self of_nat_id)
  then have "unat ((u + p - 1) div p) \<le> (n + unat p - 1) div unat p"
    by (simp only: unat_div div_le_mono)
  also obtain q where q: "n = unat p * q" using assms(3) by (elim dvdE)
  have "(n + unat p - 1) div unat p = q"
    using assms(2) by (simp add: q div_nat_eqI algebra_simps)
  finally have "i < q"
    using assms(4,5) q by (auto split: if_splits)
  moreover have "unat (of_nat i :: u64) \<le> i" by (simp add: unsigned_of_nat)
  ultimately have "(unat (of_nat i :: u64) + 1) * unat p \<le> q * unat p" by (intro mult_right_mono) simp_all
  then show ?thesis by (simp add: q mult.commute)
qed

lemma Workload_new_ready:
  assumes lines: "\<And>xs. mset (shuffle_lines xs) = mset xs" and slots: "\<And>xs. mset (shuffle_slots xs) = mset xs"
    and fit: "params_fit kind per universe"
  shows "wl_ready (Workload_new shuffle_lines shuffle_slots kind per universe)"
proof (cases "kind = None'")
  case True
  then show ?thesis by (simp add: wl_ready_def Workload_new_def Let_def)
next
  case False
  define w where "w = Workload_new shuffle_lines shuffle_slots kind per universe"
  define p where "p = (if per = 0 then 64 else per)"
  define t where "t = (if universe div 64 = 0 then 1 else universe div 64)"
  define sl where "sl = (t * 64 + p - 1) div p"
  note t = eff_lines_u64 [of universe, folded t_def]
  have p: "unat p = eff_per_call per" "0 < unat p" by (auto simp: p_def eff_per_call_def unat_gt_0)
  have len: "length (shuffle_lines xs) = length xs" "set (shuffle_lines xs) = set xs"
    "length (shuffle_slots ys) = length ys" "set (shuffle_slots ys) = set ys" for xs ys
    using lines slots by (metis mset_eq_length, metis mset_eq_setD, metis mset_eq_length, metis mset_eq_setD)
  have w: "w_kind w = kind" "w_total_lines w = t" "length (w_buf w) = 64 * eff_lines universe"
    "w_line_perm w = shuffle_lines (map of_nat [0..<eff_lines universe])" "w_per_call w = p"
    "w_lines_per_call w = (if p div 64 = 0 then 1 else p div 64)"
    "w_offsets w = shuffle_slots (map of_nat [0..<unat (if sl = 0 then 1 else sl)])"
    using False t by (simp_all add: w_def Workload_new_def Let_def p_def t_def sl_def)
  have meta: "kind = StorageStack \<Longrightarrow> length (w_bio w) = 262144 \<and> length (w_pagecache w) = 1048576 \<and> length (w_inode w) = 524288"
    by (simp add: w_def Workload_new_def Let_def)
  have "unat (of_nat i :: u32) < eff_lines universe" if "i < eff_lines universe" for i
    using order_le_less_trans [OF take_bit_nat_less_eq_self that] by (simp add: unsigned_of_nat)
  moreover have "0 < unat (if sl = 0 then 1 else sl)" by (simp add: unat_gt_0)
  then have "w_offsets w \<noteq> []" unfolding w(7) by (metis len(3) length_map length_upt diff_zero list.size(3) less_not_refl)
  ultimately have inv: "wl_inv w"
    using t meta unat_u64_lt [of "if sl = 0 then 1 else sl"] unfolding wl_inv_def w by (auto simp: len)
  have "wl_fits w"
  proof (cases "kind = Polluter")
    case True
    have "unat (if p div 64 = 0 then 1 else p div 64) = max 1 (eff_per_call per div 64)"
      using u64_div64(1) [of p] p(1) by (auto simp: max_def simp flip: unat_eq_0_iff)
    with True fit t(4) show ?thesis by (simp add: wl_fits_def w params_fit_def t(1))
  next
    case np: False
    with False fit have d: "8 dvd unat p" "unat p dvd 64 * eff_lines universe"
      by (auto simp: params_fit_def p(1) split: WorkloadKind.splits)
    have "unat s * unat p + unat p \<le> 64 * eff_lines universe" if "s \<in> set (w_offsets w)" for s
      using slots_fit [OF t(2) p(2) d(2), folded sl_def] t(4) that by (auto simp: w len)
    with np d show ?thesis unfolding wl_fits_def w(1,3,5) by blast
  qed
  with inv show ?thesis by (simp add: wl_ready_def flip: w_def)
qed

subsection \<open>Properties\<close>

text \<open>Consecutive calls on one workload; the driver calls \<open>run\<close> once per operation.\<close>

fun run_all :: "u64 list \<Rightarrow> Workload \<Rightarrow> (Workload \<times> u64 list) option" where
  "run_all [] w = Some (w, [])"
| "run_all (tag # tags) w =
     (case run tag w of None \<Rightarrow> None
      | Some (w', v) \<Rightarrow> map_option (\<lambda>(w'', vs). (w'', v # vs)) (run_all tags w'))"

lemma run_all_Some: "wl_ready w \<Longrightarrow> \<exists>w' vs. run_all tags w = Some (w', vs) \<and> length vs = length tags"
proof (induction tags arbitrary: w)
  case (Cons tag tags)
  from run_ready [OF Cons.prems, of tag] obtain w' v where "run tag w = Some (w', v)" "wl_ready w'" by blast
  with Cons.IH [of w'] show ?case by auto
qed simp

text \<open>C25. When the shuffles permute and the bytes per call fit the universe (for the polluter: not
  more lines than the universe has; for the object and storage workloads: a multiple of 8 that divides
  the universe), every sequence of calls, with any tags, stays inside the buffers and returns.\<close>

theorem workload_memory_safe:
  assumes "\<And>xs. mset (shuffle_lines xs) = mset xs" "\<And>xs. mset (shuffle_slots xs) = mset xs"
    and "params_fit kind per universe"
  shows "\<exists>w vs. run_all tags (Workload_new shuffle_lines shuffle_slots kind per universe) = Some (w, vs) \<and>
    length vs = length tags"
  by (rule run_all_Some [OF Workload_new_ready [OF assms]])

theorem workload_memory_safe_witness:
  "\<exists>w vs. run_all [3, 77] (Workload_new rev id ObjectAccess 4096 65536) = Some (w, vs) \<and> length vs = Suc (Suc 0)"
  using workload_memory_safe [of rev id ObjectAccess 4096 65536 "[3, 77]"]
  by (simp add: params_fit_def eff_per_call_def eff_lines_def del: run_all.simps)


end
