(* ===== verification/Hash_Key_Gen.thy ===== *)
theory Hash_Key_Gen
  imports Ieee_Double
begin

text \<open>
  The generator of skewed hash keys (\<^verbatim>\<open>hash_key_gen.hpp\<close>) and the skew check over it
  (\<^verbatim>\<open>run_skew_check.cpp\<close>). The random engine with its uniform distribution is a parameter \<open>uni\<close> on an
  engine state: a draw in \<open>[0, 1)\<close> and the next state; \<^verbatim>\<open>std::exp\<close> is the parameter \<open>cexp\<close>. A width of
  zero divides by zero in the code: the quotient is infinite, the exponential 0 and the probability
  one half, which the definition of \<open>prob\<close> writes out (with one bit per interval the quotient is not a
  number, but then the only bit is the dominant one and the probability is never read).
\<close>

record HashKeyGen =
  k_intervals :: nat
  k_bits :: nat
  k_dom_fixed :: bool
  k_prob :: "real list"
  k_fixed_dom :: "nat list"

definition prob :: "(real \<Rightarrow> real) \<Rightarrow> nat \<Rightarrow> real \<Rightarrow> nat \<Rightarrow> real" where
  "prob cexp bits sigma off =
     (if sigma = 0 then 1 / 2
      else let center = fl ((real bits - 1) / 2);
               d = fl (fl (real off - center) / sigma)
           in fl (1 / 2 + fl (1 / 2 * cexp (fl (fl (- (1 / 2) * d) * d)))))"

text \<open>\<^verbatim>\<open>(int)(uni_(rng_) * interval_bits_)\<close>, clamped.\<close>

definition draw_off :: "('g \<Rightarrow> real \<times> 'g) \<Rightarrow> nat \<Rightarrow> 'g \<Rightarrow> nat \<times> 'g" where
  "draw_off uni bits g =
     (case uni g of (u, g') \<Rightarrow>
        let off = nat \<lfloor>fl (u * real bits)\<rfloor> in (if off \<ge> bits then bits - 1 else off, g'))"

fun draw_offs :: "('g \<Rightarrow> real \<times> 'g) \<Rightarrow> nat \<Rightarrow> nat \<Rightarrow> 'g \<Rightarrow> nat list \<times> 'g" where
  "draw_offs uni bits 0 g = ([], g)"
| "draw_offs uni bits (Suc n) g =
     (case draw_off uni bits g of (off, g') \<Rightarrow>
        (case draw_offs uni bits n g' of (offs, g'') \<Rightarrow> (off # offs, g'')))"

text \<open>\<open>None\<close>: a division by zero, the failed assertion, or a negative size.\<close>

definition HashKeyGen_new ::
  "('g \<Rightarrow> real \<times> 'g) \<Rightarrow> (real \<Rightarrow> real) \<Rightarrow> int \<Rightarrow> real \<Rightarrow> bool \<Rightarrow> 'g \<Rightarrow> (HashKeyGen \<times> 'g) option" where
  "HashKeyGen_new uni cexp intervals sigma dom_fixed g =
     (if intervals \<le> 0 \<or> 64 mod intervals \<noteq> 0 then None
      else let bits = nat (64 div intervals)
           in case draw_offs uni bits (nat intervals) g of (offs, g') \<Rightarrow>
                Some (\<lparr>k_intervals = nat intervals, k_bits = bits, k_dom_fixed = dom_fixed,
                       k_prob = map (prob cexp bits sigma) [0..<bits], k_fixed_dom = offs\<rparr>, g'))"

text \<open>The inner loop of \<^verbatim>\<open>next\<close> over the other bits of an interval.\<close>

fun other_bits ::
  "('g \<Rightarrow> real \<times> 'g) \<Rightarrow> HashKeyGen \<Rightarrow> nat \<Rightarrow> nat \<Rightarrow> bool \<Rightarrow> nat list \<Rightarrow> 'g \<Rightarrow> u64 \<Rightarrow> u64 \<times> 'g" where
  "other_bits uni h base dom_off dom_val [] g key = (key, g)"
| "other_bits uni h base dom_off dom_val (off # offs) g key =
     (if off = dom_off then other_bits uni h base dom_off dom_val offs g key
      else case uni g of (u, g') \<Rightarrow>
             let bit' = (if u < k_prob h ! off then dom_val else \<not> dom_val)
             in other_bits uni h base dom_off dom_val offs g'
                  (if bit' then key OR push_bit (base + off) 1 else key))"

fun intervals_loop ::
  "('g \<Rightarrow> real \<times> 'g) \<Rightarrow> HashKeyGen \<Rightarrow> nat list \<Rightarrow> 'g \<Rightarrow> u64 \<Rightarrow> u64 \<times> 'g" where
  "intervals_loop uni h [] g key = (key, g)"
| "intervals_loop uni h (iv # ivs) g key =
     (let base = iv * k_bits h;
          (dom_off, g1) = (if k_dom_fixed h then (k_fixed_dom h ! iv, g) else draw_off uni (k_bits h) g);
          (u, g2) = uni g1;
          dom_val = (\<not> u < 1 / 2);
          key1 = (if dom_val then key OR push_bit (base + dom_off) 1 else key);
          (key2, g3) = other_bits uni h base dom_off dom_val [0..<k_bits h] g2 key1
      in intervals_loop uni h ivs g3 key2)"

definition next_key :: "('g \<Rightarrow> real \<times> 'g) \<Rightarrow> HashKeyGen \<Rightarrow> 'g \<Rightarrow> u64 \<times> 'g" where
  "next_key uni h g = intervals_loop uni h [0..<k_intervals h] g 0"

subsection \<open>The skew check\<close>

fun count_keys :: "('g \<Rightarrow> real \<times> 'g) \<Rightarrow> HashKeyGen \<Rightarrow> u64 \<Rightarrow> nat \<Rightarrow> 'g \<Rightarrow> u64 list \<Rightarrow> u64 list" where
  "count_keys uni h mk 0 g counts = counts"
| "count_keys uni h mk (Suc n) g counts =
     (case next_key uni h g of (key, g') \<Rightarrow>
        let b = unat (key AND mk)
        in count_keys uni h mk n g' (counts[b := counts ! b + 1]))"

definition skew_counts :: "('g \<Rightarrow> real \<times> 'g) \<Rightarrow> HashKeyGen \<Rightarrow> nat \<Rightarrow> nat \<Rightarrow> 'g \<Rightarrow> u64 list" where
  "skew_counts uni h bucketlog n g =
     (let nb = push_bit bucketlog (1 :: u64)
      in count_keys uni h (nb - 1) n g (replicate (unat nb) 0))"

definition top_mass :: "u64 list \<Rightarrow> nat \<Rightarrow> u64" where
  "top_mass counts k = sum_list (take k (rev (sort counts)))"

fun gini_loop :: "real \<Rightarrow> u64 list \<Rightarrow> real \<Rightarrow> real \<Rightarrow> real" where
  "gini_loop tot [] cum_share gini_acc = gini_acc"
| "gini_loop tot (c # cs) cum_share gini_acc =
     (let cum' = fl (cum_share + fl (double_of_u64 c / tot))
      in gini_loop tot cs cum' (fl (gini_acc + cum')))"

definition gini :: "u64 list \<Rightarrow> nat \<Rightarrow> real" where
  "gini counts n =
     (let nb = fl (real (length counts));
          acc = gini_loop (fl (real n)) (sort counts) 0 0
      in fl (fl (1 - fl (fl (2 / nb) * acc)) + fl (1 / nb)))"

subsection \<open>The key as a list of chosen bits\<close>

text \<open>The same draws, with the bits collected in a list instead of a word: the dominant position takes
  the dominant value, every other position takes it when the draw is below its probability.\<close>

fun choose_others ::
  "('g \<Rightarrow> real \<times> 'g) \<Rightarrow> HashKeyGen \<Rightarrow> nat \<Rightarrow> bool \<Rightarrow> nat list \<Rightarrow> 'g \<Rightarrow> bool list \<times> 'g" where
  "choose_others uni h dom_off dom_val [] g = ([], g)"
| "choose_others uni h dom_off dom_val (off # offs) g =
     (if off = dom_off
      then case choose_others uni h dom_off dom_val offs g of (bs, g') \<Rightarrow> (dom_val # bs, g')
      else case uni g of (u, g') \<Rightarrow>
             (case choose_others uni h dom_off dom_val offs g' of (bs, g'') \<Rightarrow>
                (((u < k_prob h ! off) = dom_val) # bs, g'')))"

fun choose_intervals :: "('g \<Rightarrow> real \<times> 'g) \<Rightarrow> HashKeyGen \<Rightarrow> nat list \<Rightarrow> 'g \<Rightarrow> bool list \<times> 'g" where
  "choose_intervals uni h [] g = ([], g)"
| "choose_intervals uni h (iv # ivs) g =
     (let (dom_off, g1) = (if k_dom_fixed h then (k_fixed_dom h ! iv, g) else draw_off uni (k_bits h) g);
          (u, g2) = uni g1;
          (bs, g3) = choose_others uni h dom_off (\<not> u < 1 / 2) [0..<k_bits h] g2;
          (bs', g4) = choose_intervals uni h ivs g3
      in (bs @ bs', g4))"

definition keygen_ok :: "HashKeyGen \<Rightarrow> bool" where
  "keygen_ok h \<longleftrightarrow> 0 < k_bits h \<and> k_intervals h * k_bits h = 64 \<and> length (k_fixed_dom h) = k_intervals h \<and>
     (\<forall>off \<in> set (k_fixed_dom h). off < k_bits h)"

lemma draw_off_less: "0 < bits \<Longrightarrow> fst (draw_off uni bits g) < bits"
  by (auto simp: draw_off_def Let_def split: prod.split)

lemma draw_offs_ok: "0 < bits \<Longrightarrow> draw_offs uni bits n g = (offs, g') \<Longrightarrow>
    length offs = n \<and> (\<forall>off \<in> set offs. off < bits)"
proof (induction n arbitrary: g offs g')
  case (Suc n)
  then show ?case using draw_off_less [of bits uni g] by (auto split: prod.splits)
qed simp

lemma HashKeyGen_new_ok:
  assumes "HashKeyGen_new uni cexp intervals sigma fx g = Some (h, g')"
  shows "keygen_ok h"
proof -
  from assms have i: "0 < intervals" "intervals dvd 64"
    by (auto simp: HashKeyGen_new_def dvd_eq_mod_eq_0 split: if_splits)
  then obtain q where q: "64 = intervals * q" by (elim dvdE)
  with i have qp: "0 < q" by (metis zero_less_mult_pos zero_less_numeral)
  have bits: "64 div intervals = q" using i(1) unfolding q by simp
  have "nat intervals * nat q = 64" using q i qp by (simp flip: nat_mult_distrib)
  with assms i qp bits draw_offs_ok [of "nat q" uni "nat intervals" g] show ?thesis
    by (auto simp: HashKeyGen_new_def keygen_ok_def Let_def dvd_eq_mod_eq_0 split: prod.splits if_splits)
qed

lemma length_choose_others: "length (fst (choose_others uni h d v offs g)) = length offs"
  by (induction offs arbitrary: g) (simp_all add: split_def)

lemma bit_push_1: "n < 64 \<Longrightarrow> bit (push_bit n 1 :: u64) p \<longleftrightarrow> p = n"
  by (auto simp: bit_push_bit_iff bit_1_iff simp del: push_bit_of_1)

lemma other_bits_bit:
  assumes "\<forall>off \<in> set offs. base + off < 64"
  shows "snd (other_bits uni h base d v offs g key) = snd (choose_others uni h d v offs g) \<and>
    (bit (fst (other_bits uni h base d v offs g key)) p \<longleftrightarrow>
       bit key p \<or> (\<exists>j < length offs. p = base + offs ! j \<and> offs ! j \<noteq> d \<and> fst (choose_others uni h d v offs g) ! j))"
  using assms
proof (induction offs arbitrary: g key)
  case (Cons off offs)
  have ex: "(\<exists>j < length (off # offs). Q j) \<longleftrightarrow> Q 0 \<or> (\<exists>j < length offs. Q (Suc j))" for Q
    by (auto simp: less_Suc_eq_0_disj)
  obtain u g' where u: "uni g = (u, g')" by fastforce
  show ?case
  proof (cases "off = d")
    case True
    with Cons show ?thesis unfolding ex by (auto split: prod.splits)
  next
    case False
    define key' where "key' = (if (u < k_prob h ! off) = v then key OR push_bit (base + off) 1 else key)"
    have k: "other_bits uni h base d v (off # offs) g key = other_bits uni h base d v offs g' key'"
      using False by (simp add: u key'_def Let_def)
    have b: "bit key' p \<longleftrightarrow> bit key p \<or> p = base + off \<and> (u < k_prob h ! off) = v"
      using Cons.prems bit_push_1 [of "base + off" p] by (simp add: key'_def bit_or_iff)
    from Cons.IH [of g' key'] Cons.prems False u show ?thesis unfolding k ex b by (auto split: prod.splits)
  qed
qed simp

lemma choose_others_dom:
  "j < length offs \<Longrightarrow> offs ! j = d \<Longrightarrow> fst (choose_others uni h d v offs g) ! j = v"
proof (induction offs arbitrary: j g)
  case (Cons off offs)
  then show ?case by (cases j) (simp_all add: split_def)
qed simp

lemma interval_bits:
  fixes v :: bool
  assumes "base + bits \<le> 64" "d < bits" "bits = k_bits h"
  defines "key1 \<equiv> \<lambda>key. if v then key OR push_bit (base + d) 1 else key"
  shows "snd (other_bits uni h base d v [0..<bits] g (key1 key)) = snd (choose_others uni h d v [0..<bits] g) \<and>
    (bit (fst (other_bits uni h base d v [0..<bits] g (key1 key))) p \<longleftrightarrow>
       bit key p \<or> (base \<le> p \<and> p < base + bits \<and> fst (choose_others uni h d v [0..<bits] g) ! (p - base)))"
proof -
  let ?bs = "fst (choose_others uni h d v [0..<bits] g)"
  have b: "\<forall>off \<in> set [0..<bits]. base + off < 64" using assms(1) by simp
  have dv: "?bs ! d = v" using choose_others_dom [of d "[0..<bits]" d] assms(2) by simp
  have "bit (key1 key) p \<longleftrightarrow> bit key p \<or> p = base + d \<and> v"
    using bit_push_1 [of "base + d" p] assms(1,2) by (simp add: key1_def bit_or_iff)
  moreover have "(\<exists>j < length [0..<bits]. p = base + [0..<bits] ! j \<and> [0..<bits] ! j \<noteq> d \<and> ?bs ! j) \<longleftrightarrow>
      base \<le> p \<and> p < base + bits \<and> p \<noteq> base + d \<and> ?bs ! (p - base)"
    by (auto intro!: exI [of _ "p - base"])
  ultimately show ?thesis using other_bits_bit [OF b, of uni h d v g "key1 key" p] dv assms(2) by auto
qed

lemma intervals_loop_bit:
  assumes "keygen_ok h" "i \<le> k_intervals h"
  shows "snd (intervals_loop uni h [i..<k_intervals h] g key) = snd (choose_intervals uni h [i..<k_intervals h] g) \<and>
    length (fst (choose_intervals uni h [i..<k_intervals h] g)) = (k_intervals h - i) * k_bits h \<and>
    (bit (fst (intervals_loop uni h [i..<k_intervals h] g key)) p \<longleftrightarrow> bit key p \<or>
      (i * k_bits h \<le> p \<and> p < 64 \<and> fst (choose_intervals uni h [i..<k_intervals h] g) ! (p - i * k_bits h)))"
  using assms(2)
proof (induction "k_intervals h - i" arbitrary: i g key)
  case 0
  then show ?case using assms(1) by (auto simp: keygen_ok_def)
next
  case (Suc n)
  let ?b = "k_bits h"
  have i: "i < k_intervals h" "[i..<k_intervals h] = i # [Suc i..<k_intervals h]"
    using Suc.hyps(2) by (auto simp: upt_conv_Cons)
  obtain d g1 where d: "(if k_dom_fixed h then (k_fixed_dom h ! i, g) else draw_off uni ?b g) = (d, g1)" by fastforce
  obtain u g2 where u: "uni g1 = (u, g2)" by fastforce
  have b: "0 < ?b" "k_intervals h * ?b = 64" using assms(1) by (simp_all add: keygen_ok_def)
  have db: "d < ?b" using d draw_off_less [OF b(1), of uni g] assms(1) i(1) by (auto simp: keygen_ok_def split: if_splits)
  have "(i + 1) * ?b \<le> k_intervals h * ?b" using i(1) by (intro mult_right_mono) simp_all
  then have base: "i * ?b + ?b \<le> 64" using b(2) by simp
  define v where "v = (\<not> u < 1 / 2)"
  define key1 where "key1 = (if v then key OR push_bit (i * ?b + d) 1 else key)"
  obtain bs g3 where bs: "choose_others uni h d v [0..<?b] g2 = (bs, g3)" by fastforce
  obtain key2 g3' where k2: "other_bits uni h (i * ?b) d v [0..<?b] g2 key1 = (key2, g3')" by fastforce
  have g3: "g3' = g3" "\<And>p. bit key2 p \<longleftrightarrow> bit key p \<or> (i * ?b \<le> p \<and> p < i * ?b + ?b \<and> bs ! (p - i * ?b))"
    using interval_bits [OF base db refl, where v = v and uni = uni and g = g2 and key = key] k2 bs
    by (auto simp: key1_def)
  have lb: "length bs = ?b" using length_choose_others [of uni h d v "[0..<?b]" g2] bs by simp
  have loop: "intervals_loop uni h [i..<k_intervals h] g key = intervals_loop uni h [Suc i..<k_intervals h] g3 key2"
    by (simp only: i(2) intervals_loop.simps d u Let_def prod.case v_def [symmetric] key1_def [symmetric] k2 g3(1))
  obtain bs' g4 where c4: "choose_intervals uni h [Suc i..<k_intervals h] g3 = (bs', g4)" by fastforce
  have ch: "choose_intervals uni h [i..<k_intervals h] g = (bs @ bs', g4)"
    by (simp only: i(2) choose_intervals.simps d u Let_def prod.case v_def [symmetric] bs c4)
  have IH: "snd (intervals_loop uni h [Suc i..<k_intervals h] g3 key2) = g4"
    "length bs' = (k_intervals h - Suc i) * ?b"
    "bit (fst (intervals_loop uni h [Suc i..<k_intervals h] g3 key2)) p \<longleftrightarrow>
      bit key2 p \<or> (i * ?b + ?b \<le> p \<and> p < 64 \<and> bs' ! (p - (i * ?b + ?b)))"
    using Suc.hyps(1) [of "Suc i" g3 key2] Suc.hyps(2) i(1) c4 by (auto simp: add.commute)
  have "(k_intervals h - i) * ?b = ?b + (k_intervals h - Suc i) * ?b"
    using i(1) by (metis Suc_diff_Suc mult_Suc)
  with IH g3(2) [of p] lb base show ?case unfolding loop ch by (auto simp: nth_append)
qed

lemma next_key_word:
  assumes "keygen_ok h"
  shows "next_key uni h g = (let (bs, g') = choose_intervals uni h [0..<k_intervals h] g
    in (horner_sum of_bool 2 bs, g'))"
proof -
  obtain bs g' where c: "choose_intervals uni h [0..<k_intervals h] g = (bs, g')" by fastforce
  note l = intervals_loop_bit [OF assms, of 0 uni g 0]
  have len: "length bs = 64" using l c assms by (simp add: keygen_ok_def)
  have "fst (intervals_loop uni h [0..<k_intervals h] g 0) = horner_sum of_bool 2 bs"
    by (rule bit_word_eqI) (use l c len in \<open>simp add: bit_horner_sum_bit_word_iff\<close>)
  then have "intervals_loop uni h [0..<k_intervals h] g 0 = (horner_sum of_bool 2 bs, g')"
    using l [of 0] c by (simp add: prod_eq_iff)
  with c show ?thesis by (simp add: next_key_def)
qed

lemma length_choose_intervals:
  "keygen_ok h \<Longrightarrow> length (fst (choose_intervals uni h [0..<k_intervals h] g)) = 64"
  using intervals_loop_bit [of h 0 uni g 0] by (simp add: keygen_ok_def)

subsection \<open>Bucket counts\<close>

lemma sum_list_inc: "b < length xs \<Longrightarrow> sum_list (xs[b := xs ! b + 1]) = sum_list xs + (1 :: u64)"
  by (induction xs arbitrary: b) (auto split: nat.split simp: algebra_simps)

lemma count_keys_total:
  assumes "\<And>key. unat (key AND mk) < length counts"
  shows "sum_list (count_keys uni h mk n g counts) = sum_list counts + of_nat n \<and>
    length (count_keys uni h mk n g counts) = length counts"
  using assms
proof (induction n arbitrary: g counts)
  case (Suc n)
  obtain key g' where k: "next_key uni h g = (key, g')" by fastforce
  let ?b = "unat (key AND mk)"
  have "sum_list (counts[?b := counts ! ?b + 1]) = sum_list counts + 1"
    using Suc.prems by (intro sum_list_inc)
  with Suc.IH [of "counts[?b := counts ! ?b + 1]" g'] Suc.prems show ?case
    by (simp add: k Let_def algebra_simps)
qed simp

subsection \<open>Properties\<close>

text \<open>C26. A generator that the constructor accepts assembles every key by shifts below 64 into the word
  of its 64 chosen bits, interval after interval from the low end; in each interval the dominant
  position has the dominant value and any other position has it exactly when its draw is below the
  position's probability.\<close>

theorem hash_key_bits:
  assumes "HashKeyGen_new uni cexp intervals sigma fx g0 = Some (h, g1)"
  shows "next_key uni h g = (let (bs, g') = choose_intervals uni h [0..<k_intervals h] g
      in (horner_sum of_bool 2 bs, g')) \<and>
    length (fst (choose_intervals uni h [0..<k_intervals h] g)) = 64"
proof
  note ok = HashKeyGen_new_ok [OF assms]
  show "next_key uni h g = (let (bs, g') = choose_intervals uni h [0..<k_intervals h] g
      in (horner_sum of_bool 2 bs, g'))" by (rule next_key_word [OF ok])
  show "length (fst (choose_intervals uni h [0..<k_intervals h] g)) = 64"
    by (rule length_choose_intervals [OF ok])
qed

definition low_uni :: "nat \<Rightarrow> real \<times> nat" where
  "low_uni g = (0, Suc g)"

lemma low_uni_gen:
  "HashKeyGen_new low_uni (\<lambda>_. 1) 64 1 True 0 =
     Some (\<lparr>k_intervals = 64, k_bits = 1, k_dom_fixed = True, k_prob = [1], k_fixed_dom = replicate 64 0\<rparr>, 64)"
proof -
  have "draw_offs low_uni 1 n g = (replicate n 0, g + n)" for n g
    by (induction n arbitrary: g) (simp_all add: draw_off_def low_uni_def)
  then show ?thesis by (simp add: HashKeyGen_new_def prob_def fl_half)
qed

theorem hash_key_bits_witness:
  "\<exists>h g1. HashKeyGen_new low_uni (\<lambda>_. 1) 64 1 True 0 = Some (h, g1) \<and>
    length (fst (choose_intervals low_uni h [0..<k_intervals h] 5)) = 64"
  using hash_key_bits [OF low_uni_gen, of 5] low_uni_gen by blast

text \<open>The skew check counts every key once, in a bucket inside the array: the counts of the
  \<open>2^bucketlog\<close> buckets add up to the number of keys, for any generator and any random stream.\<close>

theorem skew_counts_total:
  assumes "bucketlog < 64"
  shows "sum_list (skew_counts uni h bucketlog n g) = of_nat n \<and>
    length (skew_counts uni h bucketlog n g) = 2 ^ bucketlog"
proof -
  let ?nb = "push_bit bucketlog 1 :: u64"
  have nb: "unat ?nb = 2 ^ bucketlog" using assms by (simp only: unat_push_bit_1)
  have "unat (key AND (?nb - 1)) < length (replicate (unat ?nb) (0 :: u64))" for key
    by (simp only: unat_and_pow2 [OF assms nb] length_replicate nb) simp
  from count_keys_total [OF this, of uni h n g] show ?thesis
    unfolding skew_counts_def Let_def by (simp only: nb length_replicate) (simp add: sum_list_replicate)
qed

theorem skew_counts_total_witness:
  "sum_list (skew_counts low_uni \<lparr>k_intervals = 0, k_bits = 1, k_dom_fixed = True, k_prob = [1], k_fixed_dom = []\<rparr> 3 5 0) = 5"
  using skew_counts_total [of 3 low_uni _ 5 0] by simp

end
