(* ===== verification/Traffic_Model.thy ===== *)
theory Traffic_Model
  imports Ieee_Double
begin

text \<open>
  The time-varying arrival rate (\<^verbatim>\<open>traffic_model.hpp\<close>). The random engine is a state \<open>'g\<close> with a
  uniform draw \<open>uni\<close> and an exponential draw \<open>expd\<close>; the C library's \<^verbatim>\<open>sin\<close>, \<^verbatim>\<open>cos\<close> and \<^verbatim>\<open>pow\<close> are the
  parameters \<open>csin\<close>, \<open>ccos\<close> and \<open>cpow\<close>. The two loops of \<^verbatim>\<open>lambda_at\<close> add a step to a deadline in
  floating point and may not end; they are \<open>partial_function\<close>s, \<open>None\<close> when they do not. The analytic
  mean of the sine factor is written over a rounding function, which is \<open>fl\<close> in the model and the
  identity where its formula is related to the exact time average.
\<close>

record TrafficParams =
  base_rate :: real
  sin_amp :: real
  sin_period_s :: real
  sin_phase :: real
  level_period_s :: real
  level_lo :: real
  level_hi :: real
  burst_prob :: real
  burst_tick_s :: real
  burst_dur_mean_s :: real
  burst_pareto_alpha :: real
  total_duration_s :: real

record 'g TrafficModel =
  t_params :: TrafficParams
  t_rng :: 'g
  cur_level :: real
  next_level_at_s :: real
  burst_until_s :: real
  burst_mult :: real
  next_burst_at_s :: real
  mean_correction :: real

record 'g mathlib =
  uni :: "'g \<Rightarrow> real \<times> 'g"
  expd :: "'g \<Rightarrow> real \<times> 'g"
  csin :: "real \<Rightarrow> real"
  ccos :: "real \<Rightarrow> real"
  cpow :: "real \<Rightarrow> real \<Rightarrow> real"

definition sample_level :: "'g mathlib \<Rightarrow> TrafficParams \<Rightarrow> 'g \<Rightarrow> real \<times> 'g" where
  "sample_level M p g =
     (if level_lo p \<ge> level_hi p then (level_lo p, g)
      else case uni M g of (u, g') \<Rightarrow>
             (fl (level_lo p + fl (u * fl (level_hi p - level_lo p))), g'))"

definition mean_level :: "TrafficParams \<Rightarrow> real" where
  "mean_level p = fl (1 / 2 * fl (level_lo p + level_hi p))"

definition mean_sinmod :: "(real \<Rightarrow> real) \<Rightarrow> (real \<Rightarrow> real) \<Rightarrow> real \<Rightarrow> TrafficParams \<Rightarrow> real" where
  "mean_sinmod rnd cos' m_pi p =
     (if sin_amp p = 0 then 1
      else let T = total_duration_s p; P = sin_period_s p
           in if P \<le> rnd (1 / 10 ^ 9) then 1
              else if T \<le> rnd (1 / 10 ^ 9) then 1
              else let phi = sin_phase p;
                       w = rnd (rnd (rnd (2 * m_pi) * T) / P)
                   in rnd (1 + rnd (rnd (sin_amp p * rnd (P / rnd (rnd (2 * m_pi) * T))) *
                             rnd (cos' phi - cos' (rnd (w + phi))))))"

definition mean_burst :: "TrafficParams \<Rightarrow> real" where
  "mean_burst p =
     (if burst_prob p \<le> 0 \<or> burst_tick_s p \<le> 0 then 1
      else let f0 = fl (fl (burst_prob p * burst_dur_mean_s p) / burst_tick_s p);
               f = (if f0 > 1 then 1 else f0);
               alpha = max (fl (1001 / 1000)) (burst_pareto_alpha p);
               pareto_mean = fl (alpha / fl (alpha - 1))
           in fl (fl (fl (1 - f) * 1) + fl (f * pareto_mean)))"

definition TrafficModel_new :: "'g mathlib \<Rightarrow> TrafficParams \<Rightarrow> 'g \<Rightarrow> 'g TrafficModel" where
  "TrafficModel_new M p g =
     (case sample_level M p g of (lvl, g') \<Rightarrow>
        let mc = fl (fl (mean_level p * mean_sinmod fl (ccos M) (fl pi) p) * mean_burst p)
        in \<lparr>t_params = p, t_rng = g', cur_level = lvl,
            next_level_at_s = (if level_period_s p > 0 then level_period_s p else 10 ^ 18),
            burst_until_s = -1, burst_mult = 1,
            next_burst_at_s = (if burst_prob p > 0 then burst_tick_s p else 10 ^ 18),
            mean_correction = (if mc < fl (1 / 10 ^ 9) then 1 else mc)\<rparr>)"

partial_function (option) level_loop :: "'g mathlib \<Rightarrow> real \<Rightarrow> 'g TrafficModel \<Rightarrow> 'g TrafficModel option" where
  "level_loop M t s =
     (if t \<ge> next_level_at_s s
      then case sample_level M (t_params s) (t_rng s) of (lvl, g') \<Rightarrow>
             level_loop M t (s\<lparr>cur_level := lvl, t_rng := g',
               next_level_at_s := fl (next_level_at_s s + level_period_s (t_params s))\<rparr>)
      else Some s)"

definition burst_tick :: "'g mathlib \<Rightarrow> real \<Rightarrow> 'g TrafficModel \<Rightarrow> 'g TrafficModel" where
  "burst_tick M t s =
     (case uni M (t_rng s) of (r, g1) \<Rightarrow>
        let s1 = (if r < burst_prob (t_params s)
                  then case expd M g1 of (dur, g2) \<Rightarrow>
                         (case uni M g2 of (u, g3) \<Rightarrow>
                            s\<lparr>t_rng := g3, burst_until_s := fl (t + dur),
                              burst_mult := cpow M (fl (1 - u)) (fl (- 1 / burst_pareto_alpha (t_params s)))\<rparr>)
                  else s\<lparr>t_rng := g1\<rparr>)
        in s1\<lparr>next_burst_at_s := fl (next_burst_at_s s + burst_tick_s (t_params s))\<rparr>)"

partial_function (option) burst_loop :: "'g mathlib \<Rightarrow> real \<Rightarrow> 'g TrafficModel \<Rightarrow> 'g TrafficModel option" where
  "burst_loop M t s =
     (if t \<ge> next_burst_at_s s then burst_loop M t (burst_tick M t s) else Some s)"

definition rate_at :: "'g mathlib \<Rightarrow> real \<Rightarrow> 'g TrafficModel \<Rightarrow> real" where
  "rate_at M t s =
     (let p = t_params s;
          burst = (if t < burst_until_s s then burst_mult s else 1);
          sinmod = fl (1 + fl (sin_amp p *
                     csin M (fl (fl (fl (fl (2 * fl pi) * t) / sin_period_s p) + sin_phase p))));
          raw = fl (fl (cur_level s * sinmod) * burst);
          lam = fl (fl (base_rate p * raw) / mean_correction s)
      in if lam < 1 then 1 else lam)"

definition lambda_at :: "'g mathlib \<Rightarrow> real \<Rightarrow> 'g TrafficModel \<Rightarrow> ('g TrafficModel \<times> real) option" where
  "lambda_at M t s =
     (case level_loop M t s of None \<Rightarrow> None
      | Some s1 \<Rightarrow>
          (case burst_loop M t s1 of None \<Rightarrow> None | Some s2 \<Rightarrow> Some (s2, rate_at M t s2)))"

subsection \<open>The loops end\<close>

definition step_ok :: "real \<Rightarrow> real \<Rightarrow> bool" where
  "step_ok d t \<longleftrightarrow> 2 powi (-1021) \<le> d \<and> t + d \<le> 2 ^ 52 * d"

lemma step_ok_pos: "step_ok d t \<Longrightarrow> 0 < d"
  unfolding step_ok_def by (rule order.strict_trans2 [of _ "2 powi (-1021)"]) simp_all

lemma step_progress: "step_ok d t \<Longrightarrow> 0 \<le> x \<Longrightarrow> x \<le> t \<Longrightarrow> x + d / 2 \<le> fl (x + d)"
  by (rule fl_step) (simp_all add: step_ok_def)

lemma steps_left:
  assumes "step_ok d t" "0 \<le> x" "x \<le> t" "t - x < real (Suc k) * (d / 2)"
  shows "t - fl (x + d) < real k * (d / 2)" "0 \<le> fl (x + d)"
proof -
  from step_progress [OF assms(1-3)] show "0 \<le> fl (x + d)" using assms(2) step_ok_pos [OF assms(1)] by linarith
  from step_progress [OF assms(1-3)] assms(4) show "t - fl (x + d) < real k * (d / 2)"
    by (simp add: algebra_simps)
qed

lemma enough_steps: "0 < d \<Longrightarrow> \<exists>k. r < real k * (d / 2)"
  using ex_less_of_nat_mult [of "d / 2" r] by simp

text \<open>What the loops leave alone.\<close>

definition level_frame :: "'g TrafficModel \<Rightarrow> 'g TrafficModel \<Rightarrow> bool" where
  "level_frame s s' \<longleftrightarrow> t_params s' = t_params s \<and> burst_until_s s' = burst_until_s s \<and>
     burst_mult s' = burst_mult s \<and> next_burst_at_s s' = next_burst_at_s s \<and>
     mean_correction s' = mean_correction s"

definition burst_frame :: "'g TrafficModel \<Rightarrow> 'g TrafficModel \<Rightarrow> bool" where
  "burst_frame s s' \<longleftrightarrow> t_params s' = t_params s \<and> cur_level s' = cur_level s \<and>
     next_level_at_s s' = next_level_at_s s \<and> mean_correction s' = mean_correction s"

lemma level_loop_stop: "t < next_level_at_s s \<Longrightarrow> level_loop M t s = Some s"
  by (subst level_loop.simps) simp

lemma burst_loop_stop: "t < next_burst_at_s s \<Longrightarrow> burst_loop M t s = Some s"
  by (subst burst_loop.simps) simp

lemma level_loop_ends:
  assumes "step_ok (level_period_s (t_params s)) t" "0 \<le> next_level_at_s s"
    "t - next_level_at_s s < real k * (level_period_s (t_params s) / 2)"
  shows "\<exists>s'. level_loop M t s = Some s' \<and> level_frame s s' \<and> t < next_level_at_s s' \<and> 0 \<le> next_level_at_s s'"
  using assms
proof (induction k arbitrary: s)
  case 0
  then show ?case by (auto simp: level_loop_stop level_frame_def)
next
  case (Suc k)
  show ?case
  proof (cases "t < next_level_at_s s")
    case True
    then show ?thesis using Suc.prems(2) by (auto simp: level_loop_stop level_frame_def)
  next
    case False
    let ?d = "level_period_s (t_params s)"
    obtain lvl g' where lg: "sample_level M (t_params s) (t_rng s) = (lvl, g')" by fastforce
    define s1 where "s1 = s\<lparr>cur_level := lvl, t_rng := g', next_level_at_s := fl (next_level_at_s s + ?d)\<rparr>"
    have "level_loop M t s = level_loop M t s1" using False lg by (subst level_loop.simps) (simp add: s1_def)
    moreover have "t - next_level_at_s s1 < real k * (?d / 2)" "0 \<le> next_level_at_s s1"
      using steps_left [OF Suc.prems(1,2) _ Suc.prems(3)] False by (auto simp: s1_def)
    ultimately show ?thesis using Suc.IH [of s1] Suc.prems(1) by (auto simp: s1_def level_frame_def)
  qed
qed

lemma burst_tick_frame:
  "burst_frame s (burst_tick M t s)"
  "next_burst_at_s (burst_tick M t s) = fl (next_burst_at_s s + burst_tick_s (t_params s))"
  by (auto simp: burst_tick_def burst_frame_def Let_def split: prod.split)

lemma burst_frame_trans: "burst_frame a b \<Longrightarrow> burst_frame b c \<Longrightarrow> burst_frame a c"
  by (simp add: burst_frame_def)

lemma burst_loop_ends:
  assumes "step_ok (burst_tick_s (t_params s)) t" "0 \<le> next_burst_at_s s"
    "t - next_burst_at_s s < real k * (burst_tick_s (t_params s) / 2)"
  shows "\<exists>s'. burst_loop M t s = Some s' \<and> burst_frame s s' \<and> t < next_burst_at_s s' \<and> 0 \<le> next_burst_at_s s'"
  using assms
proof (induction k arbitrary: s)
  case 0
  then show ?case by (auto simp: burst_loop_stop burst_frame_def)
next
  case (Suc k)
  show ?case
  proof (cases "t < next_burst_at_s s")
    case True
    then show ?thesis using Suc.prems(2) by (auto simp: burst_loop_stop burst_frame_def)
  next
    case False
    let ?d = "burst_tick_s (t_params s)" and ?s = "burst_tick M t s"
    have "burst_loop M t s = burst_loop M t ?s" using False by (subst burst_loop.simps) simp
    moreover have p: "t_params ?s = t_params s" using burst_tick_frame(1) [of s M t] by (simp add: burst_frame_def)
    moreover have "t - next_burst_at_s ?s < real k * (?d / 2)" "0 \<le> next_burst_at_s ?s"
      using steps_left [OF Suc.prems(1,2) _ Suc.prems(3)] False by (auto simp: burst_tick_frame)
    ultimately show ?thesis using Suc.IH [of ?s] Suc.prems(1) burst_frame_trans [OF burst_tick_frame(1)]
      by fastforce
  qed
qed

subsection \<open>Any sequence of times\<close>

fun lambdas :: "'g mathlib \<Rightarrow> real list \<Rightarrow> 'g TrafficModel \<Rightarrow> ('g TrafficModel \<times> real list) option" where
  "lambdas M [] s = Some (s, [])"
| "lambdas M (t # ts) s =
     (case lambda_at M t s of None \<Rightarrow> None
      | Some (s', l) \<Rightarrow> map_option (\<lambda>(s'', ls). (s'', l # ls)) (lambdas M ts s'))"

definition shape_ok :: "TrafficParams \<Rightarrow> real \<Rightarrow> bool" where
  "shape_ok p t \<longleftrightarrow> (if level_period_s p > 0 then step_ok (level_period_s p) t else t < 10 ^ 18) \<and>
     (if burst_prob p > 0 then step_ok (burst_tick_s p) t else t < 10 ^ 18)"

definition tm_inv :: "TrafficParams \<Rightarrow> 'g TrafficModel \<Rightarrow> bool" where
  "tm_inv p s \<longleftrightarrow> t_params s = p \<and> 0 < mean_correction s \<and>
     (if level_period_s p > 0 then 0 \<le> next_level_at_s s else next_level_at_s s = 10 ^ 18) \<and>
     (if burst_prob p > 0 then 0 \<le> next_burst_at_s s else next_burst_at_s s = 10 ^ 18)"

lemma level_loop_inv:
  assumes "tm_inv p s" "shape_ok p t"
  shows "\<exists>s'. level_loop M t s = Some s' \<and> tm_inv p s' \<and> level_frame s s' \<and> t < next_level_at_s s'"
proof (cases "level_period_s p > 0")
  case False
  then have "t < next_level_at_s s" using assms by (auto simp: tm_inv_def shape_ok_def)
  then show ?thesis using assms(1) by (auto simp: level_loop_stop level_frame_def)
next
  case True
  with assms have d: "step_ok (level_period_s (t_params s)) t" "0 \<le> next_level_at_s s"
    by (auto simp: tm_inv_def shape_ok_def)
  from enough_steps [OF step_ok_pos [OF d(1)]] obtain k where
    "t - next_level_at_s s < real k * (level_period_s (t_params s) / 2)" by blast
  from level_loop_ends [OF d this, of M] obtain s' where
    s': "level_loop M t s = Some s'" "level_frame s s'" "t < next_level_at_s s'" "0 \<le> next_level_at_s s'"
    by blast
  with assms(1) True show ?thesis by (auto simp: tm_inv_def level_frame_def)
qed

lemma burst_loop_inv:
  assumes "tm_inv p s" "shape_ok p t"
  shows "\<exists>s'. burst_loop M t s = Some s' \<and> tm_inv p s' \<and> burst_frame s s' \<and> t < next_burst_at_s s'"
proof (cases "burst_prob p > 0")
  case False
  then have "t < next_burst_at_s s" using assms by (auto simp: tm_inv_def shape_ok_def)
  then show ?thesis using assms(1) by (auto simp: burst_loop_stop burst_frame_def)
next
  case True
  with assms have d: "step_ok (burst_tick_s (t_params s)) t" "0 \<le> next_burst_at_s s"
    by (auto simp: tm_inv_def shape_ok_def)
  from enough_steps [OF step_ok_pos [OF d(1)]] obtain k where
    "t - next_burst_at_s s < real k * (burst_tick_s (t_params s) / 2)" by blast
  from burst_loop_ends [OF d this, of M] obtain s' where
    s': "burst_loop M t s = Some s'" "burst_frame s s'" "t < next_burst_at_s s'" "0 \<le> next_burst_at_s s'"
    by blast
  with assms(1) True show ?thesis by (auto simp: tm_inv_def burst_frame_def)
qed

lemma lambda_at_inv:
  assumes "tm_inv p s" "shape_ok p t"
  shows "\<exists>s' l. lambda_at M t s = Some (s', l) \<and> tm_inv p s' \<and> 1 \<le> l"
proof -
  from level_loop_inv [OF assms] obtain s1 where s1: "level_loop M t s = Some s1" "tm_inv p s1" by blast
  from burst_loop_inv [OF s1(2) assms(2)] obtain s2 where s2: "burst_loop M t s1 = Some s2" "tm_inv p s2" by blast
  have "1 \<le> rate_at M t s2" by (simp add: rate_at_def Let_def)
  with s1 s2 show ?thesis by (simp add: lambda_at_def)
qed

lemma lambdas_inv:
  assumes "tm_inv p s" "\<forall>t \<in> set ts. shape_ok p t"
  shows "\<exists>s' ls. lambdas M ts s = Some (s', ls) \<and> tm_inv p s' \<and> length ls = length ts \<and> (\<forall>l \<in> set ls. 1 \<le> l)"
  using assms
proof (induction ts arbitrary: s)
  case (Cons t ts)
  then obtain s1 l where s1: "lambda_at M t s = Some (s1, l)" "tm_inv p s1" "1 \<le> l"
    using lambda_at_inv [of p s t M] by auto
  with Cons.IH [OF s1(2)] Cons.prems(2) show ?case by auto
qed simp

lemma fl_pos_const: "0 < fl (1 / 10 ^ 9)"
proof -
  have "fl (2 powi (-30)) \<le> fl (1 / 10 ^ 9)" by (intro fl_mono) (simp add: power_int_minus field_simps)
  moreover have "(0 :: real) < 2 powi (-30)" by simp
  ultimately show ?thesis by (simp only: fl_pow)
qed

lemma TrafficModel_new_inv:
  assumes "0 \<le> burst_tick_s p"
  shows "tm_inv p (TrafficModel_new M p g)"
  using assms fl_pos_const by (auto simp: tm_inv_def TrafficModel_new_def Let_def split: prod.split)

subsection \<open>Properties\<close>

text \<open>As long as every period that is switched on is a normal positive double and the times stay
  below \<open>2^52 - 1\<close> periods, every query of the rate ends, at any sequence of times, and the rate it
  returns is at least one.\<close>

theorem traffic_rates_total:
  assumes "0 \<le> burst_tick_s p" "\<forall>t \<in> set ts. shape_ok p t"
  shows "\<exists>s ls. lambdas M ts (TrafficModel_new M p g) = Some (s, ls) \<and> length ls = length ts \<and> (\<forall>l \<in> set ls. 1 \<le> l)"
  using lambdas_inv [OF TrafficModel_new_inv [OF assms(1), of M g] assms(2), of M] by blast

definition demo_math :: "nat mathlib" where
  "demo_math = \<lparr>uni = (\<lambda>g. (0, Suc g)), expd = (\<lambda>g. (1, Suc g)), csin = (\<lambda>_. 0), ccos = (\<lambda>_. 1), cpow = (\<lambda>_ _. 1)\<rparr>"

definition demo_params :: TrafficParams where
  "demo_params = \<lparr>base_rate = 1000, sin_amp = 0, sin_period_s = 1, sin_phase = 0, level_period_s = 2,
     level_lo = 1, level_hi = 1, burst_prob = 1, burst_tick_s = 1, burst_dur_mean_s = 1,
     burst_pareto_alpha = 2, total_duration_s = 10\<rparr>"

theorem traffic_rates_total_witness:
  "\<exists>s ls. lambdas demo_math [0, 5, 3] (TrafficModel_new demo_math demo_params 0) = Some (s, ls) \<and> length ls = Suc (Suc (Suc 0))"
proof -
  have "(2 :: real) powi (-1021) \<le> 2 powi 0" by (rule power_int_increasing) simp_all
  then have "(2 :: real) powi (-1021) \<le> 1" "(2 :: real) powi (-1021) \<le> 2" by simp_all
  then have "\<forall>t \<in> set [0, 5, 3]. shape_ok demo_params t"
    by (simp add: shape_ok_def step_ok_def demo_params_def)
  moreover have "0 \<le> burst_tick_s demo_params" by (simp add: demo_params_def)
  ultimately show ?thesis
    using traffic_rates_total [of demo_params "[0, 5, 3]" demo_math 0] by (fastforce simp del: lambdas.simps)
qed

definition flat :: "TrafficParams \<Rightarrow> bool" where
  "flat p \<longleftrightarrow> sin_amp p = 0 \<and> level_period_s p = 0 \<and> level_lo p = 1 \<and> level_hi p = 1 \<and> burst_prob p = 0"

definition flat_state :: "TrafficParams \<Rightarrow> 'g TrafficModel \<Rightarrow> bool" where
  "flat_state p s \<longleftrightarrow> t_params s = p \<and> cur_level s = 1 \<and> next_level_at_s s = 10 ^ 18 \<and>
     next_burst_at_s s = 10 ^ 18 \<and> burst_mult s = 1 \<and> mean_correction s = 1"

lemma flat_new:
  assumes "flat p"
  shows "flat_state p (TrafficModel_new M p g)"
proof -
  have "fl (1 / 10 ^ 9) \<le> of_int 1" by (intro fl_le_of_int) simp_all
  with assms show ?thesis
    by (simp add: flat_def flat_state_def TrafficModel_new_def sample_level_def mean_level_def
        mean_sinmod_def mean_burst_def Let_def)
qed

lemma flat_lambda:
  assumes "flat p" "flat_state p s" "t < 10 ^ 18" "1 \<le> base_rate p" "fl (base_rate p) = base_rate p"
  shows "lambda_at M t s = Some (s, base_rate p)"
proof -
  have "level_loop M t s = Some s" "burst_loop M t s = Some s"
    using assms by (simp_all add: flat_state_def level_loop_stop burst_loop_stop)
  moreover have "rate_at M t s = base_rate p"
    using assms by (simp add: rate_at_def Let_def flat_def flat_state_def)
  ultimately show ?thesis by (simp add: lambda_at_def)
qed

text \<open>Without a shape (no sine, one level, no bursts) the rate is the base rate, exactly and at every
  time below \<open>10^18\<close> seconds: the mean correction changes nothing.\<close>

theorem flat_traffic_rate:
  assumes "flat p" "1 \<le> base_rate p" "fl (base_rate p) = base_rate p" "\<forall>t \<in> set ts. t < 10 ^ 18"
  shows "lambdas M ts (TrafficModel_new M p g) =
    Some (TrafficModel_new M p g, replicate (length ts) (base_rate p))"
proof -
  have "lambdas M ts s = Some (s, replicate (length ts) (base_rate p))" if "flat_state p s" for s :: "'a TrafficModel"
    using assms(4) by (induction ts) (simp_all add: flat_lambda [OF assms(1) that _ assms(2,3)])
  from this [OF flat_new [OF assms(1)]] show ?thesis .
qed

theorem flat_traffic_rate_witness:
  "lambdas demo_math [0, 7] (TrafficModel_new demo_math (demo_params\<lparr>level_period_s := 0, burst_prob := 0\<rparr>) 0) =
    Some (TrafficModel_new demo_math (demo_params\<lparr>level_period_s := 0, burst_prob := 0\<rparr>) 0, [1000, 1000])"
  using flat_traffic_rate [of "demo_params\<lparr>level_period_s := 0, burst_prob := 0\<rparr>" "[0, 7]" demo_math 0]
  by (simp add: flat_def demo_params_def del: lambdas.simps)

lemma burst_loop_diverges:
  assumes "burst_loop M t s = Some s'"
  shows "burst_tick_s (t_params s) = 0 \<and> fl (next_burst_at_s s) = next_burst_at_s s \<longrightarrow> t < next_burst_at_s s"
proof (rule burst_loop.raw_induct [OF _ assms])
  fix f :: "'a mathlib \<Rightarrow> real \<Rightarrow> 'a TrafficModel \<Rightarrow> 'a TrafficModel option" and M t s s'
  assume IH: "\<And>M t s y. f M t s = Some y \<Longrightarrow>
      burst_tick_s (t_params s) = 0 \<and> fl (next_burst_at_s s) = next_burst_at_s s \<longrightarrow> t < next_burst_at_s s"
    and f: "(if t \<ge> next_burst_at_s s then f M t (burst_tick M t s) else Some s) = Some s'"
  show "burst_tick_s (t_params s) = 0 \<and> fl (next_burst_at_s s) = next_burst_at_s s \<longrightarrow> t < next_burst_at_s s"
    using IH [of M t "burst_tick M t s" s'] f burst_tick_frame [where s = s and M = M and t = t]
    by (cases "t \<ge> next_burst_at_s s") (auto simp: burst_frame_def)
qed

text \<open>C40. A burst tick of zero with bursts switched on makes the very first query of the rate loop
  forever, although the constructor accepts it and the mean correction guards against it.\<close>

theorem zero_burst_tick_diverges:
  assumes "0 < burst_prob p" "burst_tick_s p = 0" "level_period_s p \<le> 0" "0 \<le> t" "t < 10 ^ 18"
  shows "lambda_at M t (TrafficModel_new M p g) = None"
proof -
  let ?s = "TrafficModel_new M p g"
  have s: "t_params ?s = p" "next_level_at_s ?s = 10 ^ 18" "next_burst_at_s ?s = 0"
    using assms by (auto simp: TrafficModel_new_def Let_def split: prod.split)
  have "burst_loop M t ?s = None"
    using burst_loop_diverges [of M t ?s] s assms by (cases "burst_loop M t ?s") auto
  then show ?thesis using s assms by (simp add: lambda_at_def level_loop_stop)
qed

theorem zero_burst_tick_diverges_witness:
  "lambda_at demo_math 1 (TrafficModel_new demo_math (demo_params\<lparr>level_period_s := 0, burst_tick_s := 0\<rparr>) 0) = None"
  by (rule zero_burst_tick_diverges) (simp_all add: demo_params_def)

text \<open>C28. In exact arithmetic, with the mathematical cosine, the correction of the sine factor is the
  time average of that factor over the run: it is the increment of an antiderivative of
  \<open>1 + a sin(2 pi t / P + phi)\<close> divided by the duration, also for a part of a period.\<close>

theorem sine_mean_exact:
  assumes "1 / 10 ^ 9 < sin_period_s p" "1 / 10 ^ 9 < total_duration_s p"
  shows "\<exists>F. (\<forall>t. (F has_real_derivative
        1 + sin_amp p * sin (2 * pi * t / sin_period_s p + sin_phase p)) (at t)) \<and>
    mean_sinmod (\<lambda>x. x) cos pi p = (F (total_duration_s p) - F 0) / total_duration_s p"
proof -
  let ?P = "sin_period_s p" and ?T = "total_duration_s p" and ?a = "sin_amp p" and ?f = "sin_phase p"
  have P: "0 < ?P" and T: "0 < ?T" using assms by (auto intro: order.strict_trans [of 0 "1 / 10 ^ 9"])
  define F where "F t = t - ?a * ?P / (2 * pi) * cos (2 * pi * t / ?P + ?f)" for t
  have "(F has_real_derivative 1 + ?a * sin (2 * pi * t / ?P + ?f)) (at t)" for t
    unfolding F_def using P by (auto intro!: derivative_eq_intros)
  moreover have "mean_sinmod (\<lambda>x. x) cos pi p = (F ?T - F 0) / ?T"
    using assms P T unfolding F_def by (simp add: mean_sinmod_def Let_def field_simps)
  ultimately show ?thesis by blast
qed

theorem sine_mean_exact_witness:
  "\<exists>F. (\<forall>t. (F has_real_derivative 1 + 1 / 2 * sin (2 * pi * t / 1 + 0)) (at t)) \<and>
    mean_sinmod (\<lambda>x. x) cos pi (demo_params\<lparr>sin_amp := 1 / 2\<rparr>) = (F 10 - F 0) / 10"
  using sine_mean_exact [of "demo_params\<lparr>sin_amp := 1 / 2\<rparr>"] by (simp add: demo_params_def)

end
