(* ===== verification/Perf_Ctr.thy ===== *)
theory Perf_Ctr
  imports Prelude
begin

text \<open>
  The group of hardware counters (\<^verbatim>\<open>perfctr.hpp\<close>). The system calls are the kernel's: what
  \<^verbatim>\<open>perf_event_open\<close> and the identifier request return for a new counter, and the words a \<^verbatim>\<open>read\<close> of
  the group leader delivers, are arguments of the operations. The attributes passed to the kernel
  are kept, since they depend on the state. Closing the descriptors in the destructor and the
  enabling and resetting of the group have no effect on the object; \<open>perf_start\<close> and \<open>perf_close\<close> give the
  requests they make.
\<close>

record PerfCounter =
  fd :: int
  pc_id :: u64
  pc_value :: u64

record PerfGroup =
  group_leader :: int
  available_flag :: bool
  counters :: "PerfCounter list"

record perf_attr =
  attr_type :: u32
  attr_config :: u64
  attr_disabled :: bool

definition PerfGroup_new :: PerfGroup where
  "PerfGroup_new = \<lparr>group_leader = -1, available_flag = True, counters = []\<rparr>"

definition perf_attr_of :: "u32 \<Rightarrow> u64 \<Rightarrow> PerfGroup \<Rightarrow> perf_attr" where
  "perf_attr_of type config p =
     \<lparr>attr_type = type, attr_config = config, attr_disabled = (group_leader p = -1)\<rparr>"

text \<open>\<open>open'\<close>: attributes and leader to a descriptor; \<open>id_of\<close>: a descriptor to its identifier.\<close>

definition perf_add ::
  "(perf_attr \<Rightarrow> int \<Rightarrow> int) \<Rightarrow> (int \<Rightarrow> u64) \<Rightarrow> u32 \<Rightarrow> u64 \<Rightarrow> PerfGroup \<Rightarrow> PerfGroup \<times> int" where
  "perf_add open' id_of type config p =
     (let f = open' (perf_attr_of type config p) (group_leader p)
      in if f < 0
         then let p' = p\<lparr>available_flag := False, counters := counters p @ [\<lparr>fd = -1, pc_id = 0, pc_value = 0\<rparr>]\<rparr>
              in (p', int (length (counters p')) - 1)
         else let p' = p\<lparr>group_leader := (if group_leader p = -1 then f else group_leader p),
                         counters := counters p @ [\<lparr>fd = f, pc_id = id_of f, pc_value = 0\<rparr>]\<rparr>
              in (p', int (length (counters p')) - 1))"

datatype perf_request = IocReset int | IocEnable int | Close int

definition perf_start :: "PerfGroup \<Rightarrow> perf_request list" where
  "perf_start p = (if group_leader p < 0 then [] else [IocReset (group_leader p), IocEnable (group_leader p)])"

definition perf_close :: "PerfGroup \<Rightarrow> perf_request list" where
  "perf_close p = map (\<lambda>c. Close (fd c)) (filter (\<lambda>c. fd c \<ge> 0) (counters p))"

definition set_value :: "u64 \<Rightarrow> u64 \<Rightarrow> PerfCounter list \<Rightarrow> PerfCounter list" where
  "set_value ident value cs = map (\<lambda>c. if pc_id c = ident then c\<lparr>pc_value := value\<rparr> else c) cs"

text \<open>The loop over the \<open>nr\<close> entries of the buffer; \<open>None\<close> is a read past its end.\<close>

fun report_loop :: "u64 list \<Rightarrow> nat list \<Rightarrow> PerfCounter list \<Rightarrow> PerfCounter list option" where
  "report_loop buf [] cs = Some cs"
| "report_loop buf (i # is) cs =
     (if 1 + 2 * i + 1 < length buf
      then report_loop buf is (set_value (buf ! (1 + 2 * i + 1)) (buf ! (1 + 2 * i)) cs)
      else None)"

text \<open>\<open>r\<close> and \<open>buf\<close>: the result of \<^verbatim>\<open>read\<close> and the buffer of \<open>1 + 2 * n\<close> words afterwards.\<close>

definition perf_stop :: "int \<Rightarrow> u64 list \<Rightarrow> PerfGroup \<Rightarrow> PerfGroup option" where
  "perf_stop r buf p =
     (if group_leader p < 0 then Some p
      else if r < 0 then Some p
      else map_option (\<lambda>cs. p\<lparr>counters := cs\<rparr>) (report_loop buf [0..<unat (buf ! 0)] (counters p)))"

definition read_idx :: "int \<Rightarrow> PerfGroup \<Rightarrow> u64" where
  "read_idx idx p = (if idx < 0 \<or> idx \<ge> int (length (counters p)) then 0 else pc_value (counters p ! nat idx))"

definition available :: "PerfGroup \<Rightarrow> bool" where
  "available p \<longleftrightarrow> available_flag p \<and> group_leader p \<ge> 0"

subsection \<open>Reading the report\<close>

text \<open>The buffer of a report of pairs (value, identifier), as the kernel lays it out.\<close>

definition report_buf :: "(u64 \<times> u64) list \<Rightarrow> u64 list" where
  "report_buf rs = of_nat (length rs) # concat (map (\<lambda>(v, i). [v, i]) rs)"

lemma report_nth:
  "i < length rs \<Longrightarrow> concat (map (\<lambda>(v, i). [v, i]) rs) ! (2 * i) = fst (rs ! i) \<and>
    concat (map (\<lambda>(v, i). [v, i]) rs) ! (2 * i + 1) = snd (rs ! i)"
proof (induction rs arbitrary: i)
  case (Cons r rs)
  then show ?case by (cases i; cases r) simp_all
qed simp

lemma length_report: "length (concat (map (\<lambda>(v, i). [v, i]) rs)) = 2 * length rs"
  by (induction rs) auto

lemma report_loop_pairs:
  assumes "\<forall>i \<in> set is. i < length rs"
  shows "report_loop (report_buf rs) is cs = Some (fold (\<lambda>i. set_value (snd (rs ! i)) (fst (rs ! i))) is cs)"
  using assms
proof (induction "is" arbitrary: cs)
  case (Cons i "is")
  then show ?case using report_nth [of i rs] by (simp add: report_buf_def length_report)
qed simp

lemma fold_nth: "fold (\<lambda>i. f (xs ! i)) [0..<length xs] s = fold f xs s"
proof -
  have "fold (f \<circ> (!) xs) [0..<length xs] s = fold f (map ((!) xs) [0..<length xs]) s" by (simp only: fold_map)
  then show ?thesis by (simp only: map_nth comp_def)
qed

lemma fold_set_value:
  "length (fold (\<lambda>r. set_value (snd r) (fst r)) rs cs) = length cs"
  "j < length cs \<Longrightarrow> fold (\<lambda>r. set_value (snd r) (fst r)) rs cs ! j =
     (cs ! j)\<lparr>pc_value := (case map_of (rev (map (\<lambda>(v, i). (i, v)) rs)) (pc_id (cs ! j)) of
        None \<Rightarrow> pc_value (cs ! j) | Some v \<Rightarrow> v)\<rparr>"
proof -
  show len: "length (fold (\<lambda>r. set_value (snd r) (fst r)) rs cs) = length cs" for rs cs
    by (induction rs arbitrary: cs) (simp_all add: set_value_def)
  show "j < length cs \<Longrightarrow> fold (\<lambda>r. set_value (snd r) (fst r)) rs cs ! j =
     (cs ! j)\<lparr>pc_value := (case map_of (rev (map (\<lambda>(v, i). (i, v)) rs)) (pc_id (cs ! j)) of
        None \<Rightarrow> pc_value (cs ! j) | Some v \<Rightarrow> v)\<rparr>"
    by (induction rs rule: rev_induct) (auto simp: set_value_def len split_def split: option.split)
qed

subsection \<open>Properties\<close>

text \<open>After a stop whose read delivers a report of pairs, reading a counter by its index gives the
  last value reported under that counter's identifier, or its former value when there is none; the
  number of entries the kernel announces is followed and never read past.\<close>

theorem perf_stop_report:
  assumes "0 \<le> group_leader p" "0 \<le> r" "length rs < 2 ^ 64" "j < length (counters p)"
  shows "\<exists>p'. perf_stop r (report_buf rs) p = Some p' \<and>
    read_idx (int j) p' = (case map_of (rev (map (\<lambda>(v, i). (i, v)) rs)) (pc_id (counters p ! j)) of
        None \<Rightarrow> pc_value (counters p ! j) | Some v \<Rightarrow> v)"
proof -
  have n: "unat (report_buf rs ! 0) = length rs"
    using assms(3) by (simp add: report_buf_def unat_of_nat_u64)
  let ?cs = "fold (\<lambda>r. set_value (snd r) (fst r)) rs (counters p)"
  have "report_loop (report_buf rs) [0..<length rs] (counters p) = Some ?cs"
    using report_loop_pairs [of "[0..<length rs]" rs "counters p"] fold_nth [of "\<lambda>r. set_value (snd r) (fst r)" rs]
    by simp
  with assms(1,2) n have "perf_stop r (report_buf rs) p = Some (p\<lparr>counters := ?cs\<rparr>)"
    by (simp add: perf_stop_def)
  with fold_set_value [where rs = rs and cs = "counters p"] assms(4) show ?thesis by (simp add: read_idx_def)
qed

theorem perf_stop_report_witness:
  "\<exists>p'. perf_stop 24 (report_buf [(500, 7)])
      \<lparr>group_leader = 3, available_flag = True, counters = [\<lparr>fd = 3, pc_id = 7, pc_value = 0\<rparr>]\<rparr> = Some p' \<and>
    read_idx 0 p' = 500"
  using perf_stop_report [of "\<lparr>group_leader = 3, available_flag = True, counters = [\<lparr>fd = 3, pc_id = 7, pc_value = 0\<rparr>]\<rparr>"
      24 "[(500, 7)]" 0] by simp

text \<open>Adding a counter returns the index of the new last entry whether or not the kernel grants it,
  keeps every earlier counter, and a refusal is remembered: the group is never available again.\<close>

theorem perf_add_index:
  "(\<exists>p' c. perf_add open' id_of type config p = (p', int (length (counters p))) \<and>
     counters p' = counters p @ [c] \<and> (available p' \<longrightarrow> available_flag p \<and> 0 \<le> fd c))"
  by (auto simp: perf_add_def Let_def available_def)

theorem perf_add_index_witness:
  "\<exists>p' c. perf_add (\<lambda>a l. -1) (\<lambda>f. 0) 0 0 PerfGroup_new = (p', 0) \<and> counters p' = [c] \<and> \<not> available p'"
  using perf_add_index [of "\<lambda>a l. -1" "\<lambda>f. 0" 0 0 PerfGroup_new]
  by (auto simp: PerfGroup_new_def perf_add_def Let_def available_def)

subsection \<open>Descriptors\<close>

text \<open>Groups built by \<^verbatim>\<open>add\<close> calls, with the descriptors the kernel handed out; a kernel does not hand out an
  open descriptor again.\<close>

inductive perf_group :: "int list \<Rightarrow> PerfGroup \<Rightarrow> bool" where
  new: "perf_group [] PerfGroup_new"
| failed: "perf_group fds p \<Longrightarrow> open' (perf_attr_of ty cf p) (group_leader p) < 0 \<Longrightarrow>
    perf_group fds (fst (perf_add open' id_of ty cf p))"
| opened: "perf_group fds p \<Longrightarrow> open' (perf_attr_of ty cf p) (group_leader p) = f \<Longrightarrow> 0 \<le> f \<Longrightarrow> f \<notin> set fds \<Longrightarrow>
    perf_group (fds @ [f]) (fst (perf_add open' id_of ty cf p))"

lemma perf_group_fds:
  assumes "perf_group fds p"
  shows "filter (\<lambda>x. 0 \<le> x) (map fd (counters p)) = fds \<and> distinct fds \<and> (\<forall>f \<in> set fds. 0 \<le> f) \<and>
    group_leader p = (case fds of [] \<Rightarrow> -1 | f # _ \<Rightarrow> f)"
  using assms
proof (induction rule: perf_group.induct)
  case (failed fds p open' ty cf id_of)
  then show ?case by (simp add: perf_add_def Let_def)
next
  case (opened fds p open' ty cf f id_of)
  then show ?case by (auto simp: perf_add_def Let_def split: list.split)
qed (simp add: PerfGroup_new_def)

text \<open>The destructor closes every descriptor that was opened, once, in the order of opening; \<^verbatim>\<open>start\<close> resets and
  enables the group through its first descriptor, and does nothing when none could be opened.\<close>

lemma perf_descriptors:
  assumes "perf_group fds p"
  shows "perf_close p = map Close fds \<and> distinct fds \<and>
    perf_start p = (case fds of [] \<Rightarrow> [] | f # _ \<Rightarrow> [IocReset f, IocEnable f])"
proof -
  note g = perf_group_fds [OF assms]
  have "map (\<lambda>c. Close (fd c)) (filter (\<lambda>c. 0 \<le> fd c) cs) = map Close (filter (\<lambda>x. 0 \<le> x) (map fd cs))" for cs
    by (simp add: filter_map o_def)
  then have "perf_close p = map Close fds" unfolding perf_close_def g [THEN conjunct1, symmetric] .
  with g show ?thesis by (cases fds) (auto simp: perf_start_def)
qed

end
