(* ===== verification/Bench_Args.thy ===== *)
theory Bench_Args
  imports Hash_Index Workload Traffic_Model Op_Mix MPMC_Queue
begin

text \<open>
  The command line of the driver (\<^verbatim>\<open>bench.cpp\<close>, from the enumerations to \<^verbatim>\<open>parse_args\<close>) and the
  resolution of the queue capacity in \<^verbatim>\<open>main\<close>. The C library's number parsers are parameters. Parsing
  ends with the arguments, with an exit code, or not at all (\<open>Stuck\<close>: here the rounding of a size above
  \<open>2^63\<close> to a power of two, which does not end; later also a call that fails or is undefined).
\<close>

datatype Arrival = Batch | Poisson

datatype 'a outcome = Done 'a | Exit int | Stuck

record clib =
  c_strtoull :: "string \<Rightarrow> u64"
  c_strtod :: strtod
  c_atoi :: "string \<Rightarrow> int"

record Args =
  keys_n :: u64
  queries :: u64
  workload :: WorkloadKind
  bytes_n :: u64
  universe :: u64
  dist :: string
  theta :: real
  repeats :: int
  seed :: u64
  arrival :: Arrival
  rate :: real
  cv2 :: real
  clients :: int
  workers :: int
  queue_capacity :: u64
  op_mix_str :: string
  scan_len :: int
  traffic :: TrafficParams
  index_name :: string
  hash_buckets :: u64
  hash_intervals :: int
  hash_sigma :: real
  hash_dom_fixed :: bool
  csv_output :: bool
  human_output :: bool

text \<open>The member initialisers, with the traffic fields as \<^verbatim>\<open>parse_args\<close> sets them first.\<close>

definition Args_default :: Args where
  "Args_default = \<lparr>keys_n = 1000000, queries = 1000000, workload = None', bytes_n = 0,
     universe = 256 * 1024 * 1024, dist = ''uniform'', theta = fl (99 / 100), repeats = 3,
     seed = 0xC0FFEE, arrival = Batch, rate = 0, cv2 = 1, clients = 1, workers = 1,
     queue_capacity = push_bit 16 1, op_mix_str = ''search'', scan_len = 16,
     traffic = \<lparr>base_rate = 0, sin_amp = 0, sin_period_s = 1, sin_phase = 0, level_period_s = 0,
       level_lo = 1, level_hi = 1, burst_prob = 0, burst_tick_s = fl (1 / 10),
       burst_dur_mean_s = fl (1 / 20), burst_pareto_alpha = fl (3 / 2), total_duration_s = 0\<rparr>,
     index_name = ''btree'', hash_buckets = push_bit 18 1, hash_intervals = 8,
     hash_sigma = fl (2 / 5), hash_dom_fixed = True, csv_output = False, human_output = True\<rparr>"

definition parse_workload :: "string \<Rightarrow> WorkloadKind outcome" where
  "parse_workload s =
     (if s = ''none'' then Done None' else if s = ''polluter'' then Done Polluter
      else if s = ''object'' then Done ObjectAccess else if s = ''storage'' then Done StorageStack
      else Exit 2)"

definition workload_name :: "WorkloadKind \<Rightarrow> string" where
  "workload_name w = (case w of None' \<Rightarrow> ''none'' | Polluter \<Rightarrow> ''polluter''
     | ObjectAccess \<Rightarrow> ''object'' | StorageStack \<Rightarrow> ''storage'')"

definition parse_arrival :: "string \<Rightarrow> Arrival outcome" where
  "parse_arrival s = (if s = ''batch'' then Done Batch else if s = ''poisson'' then Done Poisson else Exit 2)"

definition arrival_name :: "Arrival \<Rightarrow> string" where
  "arrival_name a = (if a = Batch then ''batch'' else ''poisson'')"

definition pow2_ceil :: "u64 \<Rightarrow> u64 option" where
  "pow2_ceil x = pow2_loop x 1"

fun bind_outcome :: "'a outcome \<Rightarrow> ('a \<Rightarrow> 'b) \<Rightarrow> 'b outcome" where
  "bind_outcome (Done x) f = Done (f x)"
| "bind_outcome (Exit c) f = Exit c"
| "bind_outcome Stuck f = Stuck"

definition of_pow2 :: "u64 option \<Rightarrow> (u64 \<Rightarrow> Args) \<Rightarrow> Args outcome" where
  "of_pow2 r f = (case r of None \<Rightarrow> Stuck | Some x \<Rightarrow> Done (f x))"

text \<open>The options with a value, in the order of the chain of tests; \<open>None\<close> when the flag is not one
  of them.\<close>

definition value_flag :: "clib \<Rightarrow> string \<Rightarrow> string \<Rightarrow> Args \<Rightarrow> Args outcome option" where
  "value_flag C f v a =
     (let ull = c_strtoull C v; dbl = fst (c_strtod C v); i = c_atoi C v; tr = traffic a
      in if f = ''--keys'' then Some (Done (a\<lparr>keys_n := ull\<rparr>))
         else if f = ''--queries'' then Some (Done (a\<lparr>queries := ull\<rparr>))
         else if f = ''--workload'' then Some (bind_outcome (parse_workload v) (\<lambda>w. a\<lparr>workload := w\<rparr>))
         else if f = ''--bytes'' then Some (Done (a\<lparr>bytes_n := ull\<rparr>))
         else if f = ''--universe'' then Some (Done (a\<lparr>universe := ull\<rparr>))
         else if f = ''--dist'' then Some (Done (a\<lparr>dist := v\<rparr>))
         else if f = ''--theta'' then Some (Done (a\<lparr>theta := dbl\<rparr>))
         else if f = ''--repeats'' then Some (Done (a\<lparr>repeats := i\<rparr>))
         else if f = ''--seed'' then Some (Done (a\<lparr>seed := ull\<rparr>))
         else if f = ''--arrival'' then Some (bind_outcome (parse_arrival v) (\<lambda>r. a\<lparr>arrival := r\<rparr>))
         else if f = ''--rate'' then Some (Done (a\<lparr>rate := dbl\<rparr>))
         else if f = ''--cv2'' then Some (Done (a\<lparr>cv2 := dbl\<rparr>))
         else if f = ''--clients'' then Some (Done (a\<lparr>clients := i\<rparr>))
         else if f = ''--workers'' then Some (Done (a\<lparr>workers := i\<rparr>))
         else if f = ''--queue-capacity''
           then Some (if ull = 0 then Done (a\<lparr>queue_capacity := 0\<rparr>)
                      else of_pow2 (pow2_ceil ull) (\<lambda>c. a\<lparr>queue_capacity := c\<rparr>))
         else if f = ''--op-mix'' then Some (Done (a\<lparr>op_mix_str := v\<rparr>))
         else if f = ''--scan-len'' then Some (Done (a\<lparr>scan_len := i\<rparr>))
         else if f = ''--sin-amp'' then Some (Done (a\<lparr>traffic := tr\<lparr>sin_amp := dbl\<rparr>\<rparr>))
         else if f = ''--sin-period'' then Some (Done (a\<lparr>traffic := tr\<lparr>sin_period_s := dbl\<rparr>\<rparr>))
         else if f = ''--level-period'' then Some (Done (a\<lparr>traffic := tr\<lparr>level_period_s := dbl\<rparr>\<rparr>))
         else if f = ''--level-lo'' then Some (Done (a\<lparr>traffic := tr\<lparr>level_lo := dbl\<rparr>\<rparr>))
         else if f = ''--level-hi'' then Some (Done (a\<lparr>traffic := tr\<lparr>level_hi := dbl\<rparr>\<rparr>))
         else if f = ''--burst-prob'' then Some (Done (a\<lparr>traffic := tr\<lparr>burst_prob := dbl\<rparr>\<rparr>))
         else if f = ''--burst-tick'' then Some (Done (a\<lparr>traffic := tr\<lparr>burst_tick_s := dbl\<rparr>\<rparr>))
         else if f = ''--burst-dur-mean'' then Some (Done (a\<lparr>traffic := tr\<lparr>burst_dur_mean_s := dbl\<rparr>\<rparr>))
         else if f = ''--burst-pareto'' then Some (Done (a\<lparr>traffic := tr\<lparr>burst_pareto_alpha := dbl\<rparr>\<rparr>))
         else if f = ''--index'' then Some (Done (a\<lparr>index_name := v\<rparr>))
         else if f = ''--hash-buckets'' then Some (of_pow2 (pow2_ceil ull) (\<lambda>b. a\<lparr>hash_buckets := b\<rparr>))
         else if f = ''--hash-intervals'' then Some (Done (a\<lparr>hash_intervals := i\<rparr>))
         else if f = ''--hash-sigma'' then Some (Done (a\<lparr>hash_sigma := dbl\<rparr>))
         else None)"

definition bare_flag :: "string \<Rightarrow> Args \<Rightarrow> Args outcome" where
  "bare_flag f a =
     (if f = ''--hash-dom-resample'' then Done (a\<lparr>hash_dom_fixed := False\<rparr>)
      else if f = ''--csv'' then Done (a\<lparr>csv_output := True\<rparr>)
      else if f = ''--no-human'' then Done (a\<lparr>human_output := False\<rparr>)
      else Exit 2)"

text \<open>The loop over the arguments after the program's name; a flag with a value needs a next
  argument.\<close>

fun parse_loop :: "clib \<Rightarrow> string list \<Rightarrow> Args \<Rightarrow> Args outcome" where
  "parse_loop C [] a = Done a"
| "parse_loop C [f] a = bare_flag f a"
| "parse_loop C (f # v # rest) a =
     (case value_flag C f v a of
        Some (Done a') \<Rightarrow> parse_loop C rest a'
      | Some (Exit c) \<Rightarrow> Exit c
      | Some Stuck \<Rightarrow> Stuck
      | None \<Rightarrow>
          (case bare_flag f a of Done a' \<Rightarrow> parse_loop C (v # rest) a' | Exit c \<Rightarrow> Exit c | Stuck \<Rightarrow> Stuck))"

definition parse_args :: "clib \<Rightarrow> string list \<Rightarrow> Args outcome" where
  "parse_args C argv = parse_loop C (tl argv) Args_default"

text \<open>\<^verbatim>\<open>main\<close>: the capacity 0 stands for a queue that holds all queries in Poisson mode (capped), and for
  the default in batch mode.\<close>

definition resolve_capacity :: "Args \<Rightarrow> Args option" where
  "resolve_capacity a =
     (if arrival a = Poisson \<and> queue_capacity a = 0
      then map_option (\<lambda>want. a\<lparr>queue_capacity := min want (push_bit 24 1)\<rparr>) (pow2_ceil (queries a))
      else if queue_capacity a = 0 then Some (a\<lparr>queue_capacity := push_bit 16 1\<rparr>)
      else Some a)"

subsection \<open>Sizes are powers of two\<close>

definition pow2 :: "u64 \<Rightarrow> bool" where
  "pow2 x \<longleftrightarrow> (\<exists>p \<le> 63. unat x = 2 ^ p)"

lemma pow2_ceil_Some:
  assumes "unat x \<le> 2 ^ 63"
  shows "\<exists>y. pow2_ceil x = Some y \<and> pow2 y \<and> unat x \<le> unat y \<and> (unat y = 1 \<or> unat y < 2 * unat x)"
proof -
  from pow2_loop_ends [OF assms, of 0] obtain p where p: "p \<le> 63" "pow2_loop x 1 = Some (push_bit p 1)"
    "unat x \<le> 2 ^ p" "p = 0 \<or> 2 ^ p < 2 * unat x" by auto
  have "unat (push_bit p 1 :: u64) = 2 ^ p" using p(1) by (simp only: unat_push_bit_1)
  with p show ?thesis unfolding pow2_ceil_def pow2_def by (intro exI [of _ "push_bit p 1"]) auto
qed

lemma pow2_ceil_pow2: "pow2_ceil x = Some y \<Longrightarrow> pow2 y"
  using pow2_ceil_Some [of x] pow2_loop_diverges [of x] by (cases "unat x \<le> 2 ^ 63") (auto simp: pow2_ceil_def)

lemma pow2_push_bit: "p \<le> 63 \<Longrightarrow> pow2 (push_bit p 1)"
  unfolding pow2_def by (rule exI [of _ p]) (simp only: unat_push_bit_1)

definition args_ok :: "Args \<Rightarrow> bool" where
  "args_ok a \<longleftrightarrow> (queue_capacity a = 0 \<or> pow2 (queue_capacity a)) \<and> pow2 (hash_buckets a)"

lemma bind_outcome_Done: "bind_outcome r f = Done a' \<longleftrightarrow> (\<exists>x. r = Done x \<and> a' = f x)"
  by (cases r) auto

lemma of_pow2_Done: "of_pow2 r f = Done a' \<longleftrightarrow> (\<exists>x. r = Some x \<and> a' = f x)"
  by (auto simp: of_pow2_def split: option.splits)

lemma args_ok_default: "args_ok Args_default"
  using pow2_push_bit [of 16] pow2_push_bit [of 18] by (simp add: args_ok_def Args_default_def)

lemma value_flag_ok:
  assumes "value_flag C f v a = Some (Done a')" "args_ok a"
  shows "args_ok a'"
  using assms pow2_ceil_pow2
  by (simp add: value_flag_def Let_def args_ok_def split: if_split_asm)
    (auto simp: bind_outcome_Done of_pow2_Done)

lemma bare_flag_ok: "bare_flag f a = Done a' \<Longrightarrow> args_ok a \<Longrightarrow> args_ok a'"
  by (auto simp: bare_flag_def args_ok_def split: if_splits)

lemma parse_loop_ok: "parse_loop C argv a = Done a' \<Longrightarrow> args_ok a \<Longrightarrow> args_ok a'"
proof (induction C argv a rule: parse_loop.induct)
  case (3 C f v rest a)
  then show ?case
    by (auto split: option.splits outcome.splits dest: value_flag_ok bare_flag_ok)
qed (auto dest: bare_flag_ok)

subsection \<open>How parsing ends\<close>

lemma value_flag_ends:
  assumes "unat (c_strtoull C v) \<le> 2 ^ 63"
  shows "value_flag C f v a \<noteq> Some Stuck \<and> (\<forall>c. value_flag C f v a = Some (Exit c) \<longrightarrow> c = 2)"
proof -
  have w: "bind_outcome (parse_workload v) g \<noteq> Stuck" "bind_outcome (parse_workload v) g = Exit c \<Longrightarrow> c = 2" for g :: "WorkloadKind \<Rightarrow> Args" and c
    by (auto simp: parse_workload_def split: if_splits)
  have r: "bind_outcome (parse_arrival v) g \<noteq> Stuck" "bind_outcome (parse_arrival v) g = Exit c \<Longrightarrow> c = 2" for g :: "Arrival \<Rightarrow> Args" and c
    by (auto simp: parse_arrival_def split: if_splits)
  have p: "\<exists>b. of_pow2 (pow2_ceil (c_strtoull C v)) g = Done b" for g
    using pow2_ceil_Some [OF assms] by (auto simp: of_pow2_def)
  then have p': "of_pow2 (pow2_ceil (c_strtoull C v)) g \<noteq> Stuck" "of_pow2 (pow2_ceil (c_strtoull C v)) g \<noteq> Exit c" for g c
    by (metis outcome.distinct)+
  show ?thesis unfolding value_flag_def Let_def by (simp add: w r p' split: if_split)
qed

lemma bare_flag_ends: "bare_flag f a \<noteq> Stuck \<and> (\<forall>c. bare_flag f a = Exit c \<longrightarrow> c = 2)"
  by (auto simp: bare_flag_def)

lemma parse_loop_ends:
  assumes "\<forall>v \<in> set argv. unat (c_strtoull C v) \<le> 2 ^ 63"
  shows "parse_loop C argv a = Exit 2 \<or> (\<exists>a'. parse_loop C argv a = Done a')"
  using assms
proof (induction C argv a rule: parse_loop.induct)
  case (2 C f a)
  then show ?case using bare_flag_ends [of f a] by (cases "bare_flag f a") auto
next
  case (3 C f v rest a)
  then show ?case using value_flag_ends [of C v f a] bare_flag_ends [of f a]
    by (auto split: option.splits outcome.splits)
qed simp


text \<open>C37. Parsing the command line comes to an end, with the arguments or with exit code 2, as long as
  no argument reads as a number above \<open>2^63\<close>: no combination of flags makes the driver hang or leave
  with another code. When it yields arguments, the sizes that must be powers of two (the hash table's
  buckets, and the queue capacity unless it is 0) are powers of two.\<close>

theorem parse_args_ends:
  assumes "\<forall>v \<in> set (tl argv). unat (c_strtoull C v) \<le> 2 ^ 63"
  shows "parse_args C argv = Exit 2 \<or>
    (\<exists>a. parse_args C argv = Done a \<and> (queue_capacity a = 0 \<or> pow2 (queue_capacity a)) \<and>
      pow2 (hash_buckets a))"
proof (cases "parse_args C argv = Exit 2")
  case False
  then obtain a where a: "parse_args C argv = Done a"
    using parse_loop_ends [OF assms] unfolding parse_args_def by metis
  then have "args_ok a" using parse_loop_ok args_ok_default unfolding parse_args_def by blast
  with a show ?thesis by (auto simp: args_ok_def)
qed simp

text \<open>Number parsers that know a few literals, for the examples.\<close>

definition demo_clib :: clib where
  "demo_clib = \<lparr>c_strtoull = (\<lambda>s. if s = ''1000'' then 1000 else 0),
     c_strtod = (\<lambda>s. (if s = ''0.5'' then 1 / 2 else 0, length s)), c_atoi = (\<lambda>s. if s = ''8'' then 8 else 0)\<rparr>"

theorem parse_args_ends_witness:
  "\<exists>a. parse_args demo_clib [''bench'', ''--queue-capacity'', ''1000'', ''--csv''] = Done a \<and> pow2 (queue_capacity a)"
proof -
  have p: "pow2_ceil 1000 = Some 1024"
    unfolding pow2_ceil_def by (simp add: pow2_loop.simps)
  have "parse_args demo_clib [''bench'', ''--queue-capacity'', ''1000'', ''--csv''] =
    Done (Args_default\<lparr>queue_capacity := 1024, csv_output := True\<rparr>)"
    unfolding parse_args_def by (simp add: value_flag_def bare_flag_def demo_clib_def of_pow2_def p)
  then show ?thesis
    using parse_args_ends [of "[''bench'', ''--queue-capacity'', ''1000'', ''--csv'']" demo_clib]
    by (simp add: demo_clib_def)
qed

lemma and_pred_pow2: "pow2 x \<Longrightarrow> x AND (x - 1) = 0"
proof -
  assume "pow2 x"
  then obtain p where p: "p \<le> 63" "unat x = 2 ^ p" unfolding pow2_def by blast
  have "x = push_bit p 1" using p by (intro word_unat_eq_iff [THEN iffD2]) (simp only: unat_push_bit_1)
  then have x: "x = 2 ^ p" by (simp add: push_bit_eq_mult)
  have "x AND (x - 1) = x AND mask p" unfolding x mask_eq_exp_minus_1 ..
  also have "\<dots> = take_bit p x" by (simp add: take_bit_eq_mask)
  also have "\<dots> = 0" unfolding x by (rule bit_eqI) (auto simp: bit_take_bit_iff bit_exp_iff)
  finally show ?thesis .
qed

lemma min_pow2: "pow2 x \<Longrightarrow> pow2 y \<Longrightarrow> pow2 (min x y)"
  by (simp add: min_def)

lemma resolve_capacity_pow2:
  assumes "args_ok a" "resolve_capacity a = Some a'"
  shows "pow2 (queue_capacity a')"
  using assms pow2_push_bit [of 16] min_pow2 [OF pow2_ceil_pow2 pow2_push_bit [of 24]]
  by (auto simp: resolve_capacity_def args_ok_def split: if_splits)

text \<open>The queue the driver builds from a parsed command line never trips the assertion of its
  constructor: the capacity is a power of two, given or resolved. A capacity of 0 in Poisson mode is
  resolved to a queue that holds all queries when there are at most \<open>2^24\<close> of them, and to \<open>2^24\<close>
  entries otherwise.\<close>

theorem resolved_queue_constructs:
  assumes "parse_args C argv = Done a" "unat (queries a) \<le> 2 ^ 63"
  shows "\<exists>a' q. resolve_capacity a = Some a' \<and> MPMCQueue_new dflt (queue_capacity a') = Some q \<and>
    (arrival a = Poisson \<and> queue_capacity a = 0 \<longrightarrow>
      (if unat (queries a) \<le> 2 ^ 24 then unat (queries a) \<le> unat (queue_capacity a')
       else unat (queue_capacity a') = 2 ^ 24))"
proof -
  have ok: "args_ok a" using assms(1) parse_loop_ok args_ok_default unfolding parse_args_def by blast
  obtain y where y: "pow2_ceil (queries a) = Some y" "unat (queries a) \<le> unat y"
    using pow2_ceil_Some [OF assms(2)] by blast
  then have "resolve_capacity a \<noteq> None" by (auto simp: resolve_capacity_def)
  then obtain a' where a': "resolve_capacity a = Some a'" by blast
  have "MPMCQueue_new dflt (queue_capacity a') \<noteq> None"
    using and_pred_pow2 [OF resolve_capacity_pow2 [OF ok a']] by (simp add: MPMCQueue_new_def)
  moreover have "unat (min y (push_bit 24 1)) = min (unat y) (2 ^ 24)"
    by (simp add: min_def word_le_nat_alt)
  then have "arrival a = Poisson \<and> queue_capacity a = 0 \<longrightarrow>
      (if unat (queries a) \<le> 2 ^ 24 then unat (queries a) \<le> unat (queue_capacity a')
       else unat (queue_capacity a') = 2 ^ 24)"
    using a' y by (auto simp: resolve_capacity_def)
  ultimately show ?thesis using a' by blast
qed

theorem resolved_queue_constructs_witness:
  "\<exists>a a' q. parse_args demo_clib [''bench'', ''--queries'', ''1000''] = Done a \<and>
    resolve_capacity a = Some a' \<and> MPMCQueue_new (0::nat) (queue_capacity a') = Some q"
proof -
  have d: "parse_args demo_clib [''bench'', ''--queries'', ''1000''] = Done (Args_default\<lparr>queries := 1000\<rparr>)"
    unfolding parse_args_def by (simp add: value_flag_def demo_clib_def)
  show ?thesis using resolved_queue_constructs [OF d, of "0::nat"] d by auto
qed

text \<open>The names printed for a workload and an arrival mode are the ones the parsers accept, and
  each reads back as itself; every other word is refused with exit code 2.\<close>

theorem names_round_trip:
  "(parse_workload s = Done w \<longleftrightarrow> s = workload_name w) \<and>
   (parse_arrival s = Done r \<longleftrightarrow> s = arrival_name r) \<and>
   (parse_workload s = Exit 2 \<longleftrightarrow> s \<notin> range workload_name) \<and>
   (parse_arrival s = Exit 2 \<longleftrightarrow> s \<notin> range arrival_name)"
proof -
  have w: "parse_workload s = Done w \<longleftrightarrow> s = workload_name w" for w
    by (cases w) (auto simp: parse_workload_def workload_name_def)
  have r: "parse_arrival s = Done r \<longleftrightarrow> s = arrival_name r" for r
    by (cases r) (auto simp: parse_arrival_def arrival_name_def)
  have "parse_workload s = Exit 2 \<longleftrightarrow> (\<forall>w. parse_workload s \<noteq> Done w)" by (auto simp: parse_workload_def)
  moreover have "parse_arrival s = Exit 2 \<longleftrightarrow> (\<forall>r. parse_arrival s \<noteq> Done r)" by (auto simp: parse_arrival_def)
  ultimately show ?thesis unfolding w r by auto
qed

end
