(* ===== verification/Bench_Ops.thy ===== *)
theory Bench_Ops
  imports Index_Iface Histogram Op_Mix Workload
begin

text \<open>
  What the two drivers of \<^verbatim>\<open>bench.cpp\<close> share: the reader-writer lock around the index, the operation a
  thread performs on the index (the \<^verbatim>\<open>switch\<close> of \<^verbatim>\<open>batch_worker\<close> and \<^verbatim>\<open>client_thread\<close>), the latency
  histograms a thread fills and their merge. The clock is not modelled: the instants read by
  \<^verbatim>\<open>now_ns\<close> are arguments.
\<close>

subsection \<open>The lock around the index\<close>

datatype lock_mode = Shared | Exclusive

text \<open>A \<^verbatim>\<open>std::shared_mutex\<close>: the threads inside with a \<^verbatim>\<open>shared_lock\<close>, and the one with a
  \<^verbatim>\<open>unique_lock\<close>. Acquiring blocks (\<open>None\<close>) while the lock is held in a conflicting mode.\<close>

record shared_mutex =
  readers :: "nat set"
  writer :: "nat option"

definition mutex_init :: shared_mutex where
  "mutex_init = \<lparr>readers = {}, writer = None\<rparr>"

fun acquire :: "lock_mode option \<Rightarrow> nat \<Rightarrow> shared_mutex \<Rightarrow> shared_mutex option" where
  "acquire None t mx = Some mx"
| "acquire (Some Shared) t mx =
     (if writer mx = None then Some (mx\<lparr>readers := insert t (readers mx)\<rparr>) else None)"
| "acquire (Some Exclusive) t mx =
     (if writer mx = None \<and> readers mx = {} then Some (mx\<lparr>writer := Some t\<rparr>) else None)"

fun release :: "lock_mode option \<Rightarrow> nat \<Rightarrow> shared_mutex \<Rightarrow> shared_mutex" where
  "release None t mx = mx"
| "release (Some Shared) t mx = mx\<lparr>readers := readers mx - {t}\<rparr>"
| "release (Some Exclusive) t mx = mx\<lparr>writer := None\<rparr>"

text \<open>The lock a batch worker takes for an operation, and the one a Poisson client takes.\<close>

definition batch_lock :: "bool \<Rightarrow> Op \<Rightarrow> lock_mode option" where
  "batch_lock use_lock op =
     (if use_lock then Some (case op of Search \<Rightarrow> Shared | Scan \<Rightarrow> Shared | _ \<Rightarrow> Exclusive) else None)"

definition client_lock :: "bool \<Rightarrow> Op \<Rightarrow> lock_mode option" where
  "client_lock needs_lock op =
     (case op of Search \<Rightarrow> if needs_lock then Some Shared else None
      | Update \<Rightarrow> Some Exclusive | Insert \<Rightarrow> Some Exclusive | Delete \<Rightarrow> Some Exclusive
      | Scan \<Rightarrow> Some Shared)"

subsection \<open>One operation on the index\<close>

definition do_op :: "'s IIndex \<Rightarrow> Op \<Rightarrow> idx_key_t \<Rightarrow> int \<Rightarrow> 's \<Rightarrow> ('s \<times> u64) option" where
  "do_op ix op k scan_len s =
     (case op of
        Search \<Rightarrow> map_option (Pair s) (ii_lookup ix s k)
      | Update \<Rightarrow> map_option (\<lambda>(s', _). (s', k)) (ii_update ix k (k XOR 0xA5A5A5A5) s)
      | Insert \<Rightarrow> map_option (\<lambda>(s', _). (s', k)) (ii_update ix k (k XOR 0xA5A5A5A5) s)
      | Delete \<Rightarrow> map_option (\<lambda>(s', _). (s', k)) (ii_remove ix k s)
      | Scan \<Rightarrow> map_option (\<lambda>(_, sink). (s, sink)) (ii_scan ix s k scan_len 0))"

definition writes :: "Op \<Rightarrow> bool" where
  "writes op \<longleftrightarrow> op = Update \<or> op = Insert \<or> op = Delete"

subsection \<open>The histograms of a thread\<close>

record OpHists =
  per_op :: "Histogram list"
  total :: Histogram
  total_queue :: Histogram
  total_e2e :: Histogram
  total_lookup :: Histogram
  total_poll :: Histogram

definition OpHists_init :: OpHists where
  "OpHists_init = \<lparr>per_op = replicate 5 Histogram_init, total = Histogram_init,
     total_queue = Histogram_init, total_e2e = Histogram_init, total_lookup = Histogram_init,
     total_poll = Histogram_init\<rparr>"

definition merge_hists :: "OpHists \<Rightarrow> OpHists \<Rightarrow> OpHists" where
  "merge_hists h o' = \<lparr>per_op = map (\<lambda>i. merge (per_op h ! i) (per_op o' ! i)) [0..<5],
     total = merge (total h) (total o'), total_queue = merge (total_queue h) (total_queue o'),
     total_e2e = merge (total_e2e h) (total_e2e o'), total_lookup = merge (total_lookup h) (total_lookup o'),
     total_poll = merge (total_poll h) (total_poll o')\<rparr>"

definition add_op :: "Op \<Rightarrow> u64 \<Rightarrow> OpHists \<Rightarrow> OpHists" where
  "add_op op ns h = h\<lparr>per_op := (per_op h)[nat_of_op op := add ns (per_op h ! nat_of_op op)]\<rparr>"

text \<open>The calls to \<^verbatim>\<open>add\<close> at the end of an operation of a batch worker, and of a Poisson client.\<close>

definition batch_record :: "Op \<Rightarrow> u64 \<Rightarrow> u64 \<Rightarrow> u64 \<Rightarrow> OpHists \<Rightarrow> OpHists" where
  "batch_record op t_start t_lookup t_end h =
     (add_op op (t_end - t_start) h)
       \<lparr>total := add (t_end - t_start) (total h), total_e2e := add (t_end - t_start) (total_e2e h),
        total_lookup := add (t_lookup - t_start) (total_lookup h),
        total_poll := add (t_end - t_lookup) (total_poll h)\<rparr>"

definition client_record :: "Op \<Rightarrow> u64 \<Rightarrow> u64 \<Rightarrow> u64 \<Rightarrow> u64 \<Rightarrow> OpHists \<Rightarrow> OpHists" where
  "client_record op t_enqueue t_start t_lookup t_end h =
     (add_op op (t_end - t_start) h)
       \<lparr>total := add (t_end - t_start) (total h), total_lookup := add (t_lookup - t_start) (total_lookup h),
        total_poll := add (t_end - t_lookup) (total_poll h),
        total_queue := add (t_start - t_enqueue) (total_queue h),
        total_e2e := add (t_end - t_enqueue) (total_e2e h)\<rparr>"

definition lcg_next :: "u32 \<Rightarrow> u32" where
  "lcg_next x = x * 1664525 + 1013904223"

subsection \<open>An operation keeps what the index represents\<close>

text \<open>What an operation leaves of the represented map.\<close>

definition op_effect :: "Op \<Rightarrow> idx_key_t \<Rightarrow> idx_map \<Rightarrow> idx_map" where
  "op_effect op k m =
     (case op of Update \<Rightarrow> overwrite k (k XOR 0xA5A5A5A5) m | Insert \<Rightarrow> overwrite k (k XOR 0xA5A5A5A5) m
      | Delete \<Rightarrow> overwrite k 0 m | _ \<Rightarrow> m)"

lemma dom_op_effect [simp]: "dom (op_effect op k m) = dom m"
  by (simp add: op_effect_def split: Op.split)

context point_index
begin

lemma do_op_rel:
  assumes "rel s m"
  shows "\<exists>s' v. do_op ix op k n s = Some (s', v) \<and> rel s' (op_effect op k m)"
  using lookup_law [OF assms, of k] update_law [OF assms, of k "k XOR 0xA5A5A5A5"]
    remove_law [OF assms, of k] scan_law [OF assms, of k n 0] assms
  by (cases op) (auto simp: do_op_def op_effect_def)

end

subsection \<open>Mutual exclusion\<close>

text \<open>The lock's state agrees with the modes in which the threads hold it, and a writer is alone.\<close>

definition mutex_ok :: "shared_mutex \<Rightarrow> (nat \<Rightarrow> lock_mode option) \<Rightarrow> bool" where
  "mutex_ok mx held \<longleftrightarrow> readers mx = {t. held t = Some Shared} \<and>
     (\<forall>t. writer mx = Some t \<longleftrightarrow> held t = Some Exclusive) \<and>
     (writer mx \<noteq> None \<longrightarrow> readers mx = {})"

lemma mutex_ok_init: "mutex_ok mutex_init (\<lambda>_. None)"
  by (simp add: mutex_ok_def mutex_init_def)

lemma mutex_ok_acquire:
  assumes "mutex_ok mx held" "held t = None" "acquire md t mx = Some mx'"
  shows "mutex_ok mx' (held(t := md))"
proof (cases md)
  case None
  then show ?thesis using assms by (simp add: fun_upd_idem)
next
  case (Some l)
  then show ?thesis using assms by (cases l) (auto simp: mutex_ok_def split: if_splits)
qed

lemma mutex_okD:
  assumes "mutex_ok mx held"
  shows "held t = Some Shared \<longleftrightarrow> t \<in> readers mx" "held t = Some Exclusive \<longleftrightarrow> writer mx = Some t"
    "writer mx = Some t \<Longrightarrow> readers mx = {}"
  using assms by (auto simp: mutex_ok_def)

lemma mutex_ok_release:
  assumes "mutex_ok mx held" "held t = md"
  shows "mutex_ok (release md t mx) (held(t := None))"
proof (cases "(md, t, mx)" rule: release.cases)
  case 1
  then show ?thesis using assms by (simp add: fun_upd_idem)
next
  case 2
  then have "writer mx = None" using assms mutex_okD [OF assms(1)] by (cases "writer mx") auto
  with 2 show ?thesis by (auto simp: mutex_ok_def mutex_okD [OF assms(1)])
next
  case 3
  then have "writer mx = Some t" "readers mx = {}" using assms mutex_okD [OF assms(1)] by auto
  with 3 show ?thesis by (auto simp: mutex_ok_def mutex_okD [OF assms(1)])
qed

lemma mutex_exclusive:
  assumes "mutex_ok mx held" "held t = Some Exclusive" "t \<noteq> u"
  shows "held u = None"
proof (rule ccontr)
  assume "held u \<noteq> None"
  then obtain l where l: "held u = Some l" by blast
  have "l \<noteq> Exclusive" using assms l unfolding mutex_ok_def by (metis option.inject)
  then have "l = Shared" by (cases l) simp_all
  then show False using assms l by (auto simp: mutex_ok_def)
qed

text \<open>A lock that nobody holds can be acquired in either mode.\<close>

lemma acquire_free: "mutex_ok mx (\<lambda>_. None) \<Longrightarrow> \<exists>mx'. acquire md t mx = Some mx'"
  by (cases "(md, t, mx)" rule: acquire.cases) (auto simp: mutex_ok_def)

subsection \<open>Histogram totals\<close>

lemma h_total_add [simp]: "h_total (add ns h) = h_total h + 1"
  by (simp add: add_def Let_def)

lemma h_total_merge [simp]: "h_total (merge h o') = h_total h + h_total o'"
  by (simp add: merge_def)

lemma h_total_init [simp]: "h_total Histogram_init = 0"
  by (simp add: Histogram_init_def)

definition op_total :: "Op \<Rightarrow> OpHists \<Rightarrow> u64" where
  "op_total op h = h_total (per_op h ! nat_of_op op)"

lemma nat_of_op_less [simp]: "nat_of_op op < 5"
  by (cases op) (simp_all add: nat_of_op_def)

lemma nat_of_op_eq [simp]: "nat_of_op a = nat_of_op b \<longleftrightarrow> a = b"
  by (cases a; cases b) (simp_all add: nat_of_op_def)

lemma op_total_init [simp]: "op_total op OpHists_init = 0" "h_total (total OpHists_init) = 0"
  by (simp_all add: op_total_def OpHists_init_def)

lemma op_total_merge [simp]:
  "op_total op (merge_hists h o') = op_total op h + op_total op o'"
  "h_total (total (merge_hists h o')) = h_total (total h) + h_total (total o')"
  by (simp_all add: op_total_def merge_hists_def)

lemma length_per_op [simp]:
  "length (per_op OpHists_init) = 5" "length (per_op (merge_hists h o')) = 5"
  "length (per_op (batch_record op a b c h)) = length (per_op h)"
  "length (per_op (client_record op q a b c h)) = length (per_op h)"
  by (simp_all add: OpHists_init_def merge_hists_def batch_record_def client_record_def add_op_def)

lemma op_total_record [simp]:
  assumes "length (per_op h) = 5"
  shows "op_total op (batch_record op' a b c h) = op_total op h + (if op = op' then 1 else 0)"
    "h_total (total (batch_record op' a b c h)) = h_total (total h) + 1"
    "op_total op (client_record op' q a b c h) = op_total op h + (if op = op' then 1 else 0)"
    "h_total (total (client_record op' q a b c h)) = h_total (total h) + 1"
  using assms
  by (simp_all add: op_total_def batch_record_def client_record_def add_op_def nth_list_update_if)

end
