(* ===== verification/Batch_Run.thy ===== *)
theory Batch_Run
  imports Bench_Ops BTree_Adapter Hash_Index
begin

text \<open>
  The closed-loop driver of \<^verbatim>\<open>bench.cpp\<close>: \<^verbatim>\<open>run_batch\<close> shards the query stream, starts one
  \<^verbatim>\<open>batch_worker\<close> per shard behind a spin barrier and merges their histograms. A state holds the
  index, the lock around it, the barrier and the workers; a step is one step of one worker, so that
  the reachable states are all interleavings of the workers. A worker is inside an index call from
  entering the call (after taking the lock, when it takes one) to its return; the call takes
  effect at once, which the absence of conflicting overlaps below justifies for every index that has
  no concurrency control of its own.
\<close>

subsection \<open>The driver\<close>

record 's batch_cfg =
  bc_ix :: "'s IIndex"
  bc_qkeys :: "idx_key_t list"
  bc_mix :: "Op list"
  bc_use_lock :: bool
  bc_scan_len :: int
  bc_workers :: nat
  bc_seed :: u64

definition batch_config ::
  "'s IIndex \<Rightarrow> idx_key_t list \<Rightarrow> Op list \<Rightarrow> bool \<Rightarrow> int \<Rightarrow> int \<Rightarrow> u64 \<Rightarrow> 's batch_cfg" where
  "batch_config ix qkeys mix use_lock scan_len workers seed = \<lparr>bc_ix = ix, bc_qkeys = qkeys, bc_mix = mix,
     bc_use_lock = use_lock, bc_scan_len = scan_len, bc_workers = nat (if workers < 1 then 1 else workers),
     bc_seed = seed\<rparr>"

datatype wpc =
    Arrive
  | Spin
  | Loop
  | Enter Op idx_key_t u64     \<comment> \<open>\<open>op\<close>, \<open>k\<close>, \<open>t_start\<close>: about to take the lock\<close>
  | Inside Op idx_key_t u64    \<comment> \<open>in the call on the index\<close>
  | Leave Op u64 u64           \<comment> \<open>\<open>op\<close>, \<open>v\<close>, \<open>t_start\<close>: about to drop the lock\<close>
  | Work Op u64 u64 u64        \<comment> \<open>\<open>op\<close>, \<open>v\<close>, \<open>t_start\<close>, \<open>t_lookup\<close>\<close>
  | Finished

record worker =
  bw_pc :: wpc
  bw_i :: nat
  bw_lcg :: u32
  bw_work :: Workload
  bw_h :: OpHists
  bw_sink :: u64

record 's batch =
  b_idx :: 's
  b_mutex :: shared_mutex
  b_gate :: int
  b_ws :: "nat \<Rightarrow> worker"

definition shard_begin :: "'s batch_cfg \<Rightarrow> nat \<Rightarrow> nat" where
  "shard_begin c w = w * (length (bc_qkeys c) div bc_workers c)"

definition shard_end :: "'s batch_cfg \<Rightarrow> nat \<Rightarrow> nat" where
  "shard_end c w =
     (if w = bc_workers c - 1 then length (bc_qkeys c)
      else shard_begin c w + length (bc_qkeys c) div bc_workers c)"

definition lcg_seed :: "'s batch_cfg \<Rightarrow> nat \<Rightarrow> u32" where
  "lcg_seed c w = ucast (bc_seed c XOR ucast (0xCAFEBABE + 0x9E37 * of_nat w :: u32))"

definition batch_init :: "'s batch_cfg \<Rightarrow> 's \<Rightarrow> (nat \<Rightarrow> Workload) \<Rightarrow> 's batch" where
  "batch_init c s works = \<lparr>b_idx = s, b_mutex = mutex_init, b_gate = int (bc_workers c),
     b_ws = (\<lambda>w. \<lparr>bw_pc = Arrive, bw_i = shard_begin c w, bw_lcg = lcg_seed c w, bw_work = works w,
               bw_h = OpHists_init, bw_sink = 0\<rparr>)\<rparr>"

text \<open>One step of worker \<open>w\<close>; \<open>now\<close> is what the clock shows. \<open>None\<close>: the worker waits for the lock,
  has finished, or called something that does not return.\<close>

definition worker_step :: "'s batch_cfg \<Rightarrow> nat \<Rightarrow> u64 \<Rightarrow> 's batch \<Rightarrow> 's batch option" where
  "worker_step c w now s =
     (let me = b_ws s w;
          upd = (\<lambda>s me'. s\<lparr>b_ws := (b_ws s)(w := me')\<rparr>)
      in case bw_pc me of
        Arrive \<Rightarrow> Some (upd (s\<lparr>b_gate := b_gate s - 1\<rparr>) (me\<lparr>bw_pc := Spin\<rparr>))
      | Spin \<Rightarrow> Some (if b_gate s > 0 then s else upd s (me\<lparr>bw_pc := Loop\<rparr>))
      | Loop \<Rightarrow>
          (if bw_i me < shard_end c w
           then let lcg = lcg_next (bw_lcg me)
                in Some (upd s (me\<lparr>bw_lcg := lcg,
                     bw_pc := Enter (sample (bc_mix c) lcg) (bc_qkeys c ! bw_i me) now\<rparr>))
           else Some (upd s (me\<lparr>bw_pc := Finished\<rparr>)))
      | Enter op k t_start \<Rightarrow>
          (case acquire (batch_lock (bc_use_lock c) op) w (b_mutex s) of
             None \<Rightarrow> None
           | Some mx \<Rightarrow> Some (upd (s\<lparr>b_mutex := mx\<rparr>) (me\<lparr>bw_pc := Inside op k t_start\<rparr>)))
      | Inside op k t_start \<Rightarrow>
          (case do_op (bc_ix c) op k (bc_scan_len c) (b_idx s) of
             None \<Rightarrow> None
           | Some (idx, v) \<Rightarrow> Some (upd (s\<lparr>b_idx := idx\<rparr>) (me\<lparr>bw_pc := Leave op v t_start\<rparr>)))
      | Leave op v t_start \<Rightarrow>
          Some (upd (s\<lparr>b_mutex := release (batch_lock (bc_use_lock c) op) w (b_mutex s)\<rparr>)
                    (me\<lparr>bw_pc := Work op v t_start now\<rparr>))
      | Work op v t_start t_lookup \<Rightarrow>
          (case run v (bw_work me) of
             None \<Rightarrow> None
           | Some (wl, v') \<Rightarrow>
               Some (upd s (me\<lparr>bw_work := wl, bw_h := batch_record op t_start t_lookup now (bw_h me),
                 bw_sink := bw_sink me XOR v', bw_i := bw_i me + 1, bw_pc := Loop\<rparr>)))
      | Finished \<Rightarrow> None)"

inductive batch_step :: "'s batch_cfg \<Rightarrow> 's batch \<Rightarrow> 's batch \<Rightarrow> bool" for c where
  step: "w < bc_workers c \<Longrightarrow> worker_step c w now s = Some s' \<Longrightarrow> batch_step c s s'"

inductive batch_reachable :: "'s batch_cfg \<Rightarrow> 's \<Rightarrow> (nat \<Rightarrow> Workload) \<Rightarrow> 's batch \<Rightarrow> bool" for c s0 works where
  start: "batch_reachable c s0 works (batch_init c s0 works)"
| step: "batch_reachable c s0 works s \<Longrightarrow> batch_step c s s' \<Longrightarrow> batch_reachable c s0 works s'"

definition batch_finished :: "'s batch_cfg \<Rightarrow> 's batch \<Rightarrow> bool" where
  "batch_finished c s \<longleftrightarrow> (\<forall>w < bc_workers c. bw_pc (b_ws s w) = Finished)"

text \<open>What \<^verbatim>\<open>run_batch\<close> returns after joining the workers.\<close>

record RunResult =
  wall_ns_total :: real
  r_h :: OpHists
  r_produced :: u64
  r_consumed :: u64
  producer_lag_ns_total :: u64
  lambda_mean :: real
  lambda_min :: real
  lambda_max :: real

definition batch_result :: "'s batch_cfg \<Rightarrow> real \<Rightarrow> 's batch \<Rightarrow> RunResult" where
  "batch_result c wall s = \<lparr>wall_ns_total = wall,
     r_h = foldl merge_hists OpHists_init (map (\<lambda>w. bw_h (b_ws s w)) [0..<bc_workers c]),
     r_produced = of_nat (length (bc_qkeys c)), r_consumed = of_nat (length (bc_qkeys c)),
     producer_lag_ns_total = 0, lambda_mean = 0, lambda_min = 0, lambda_max = 0\<rparr>"

text \<open>The lock policy of \<^verbatim>\<open>main\<close> (and of \<^verbatim>\<open>run_poisson\<close>, with the number of clients).\<close>

definition needs_lock :: "OpMix \<Rightarrow> int \<Rightarrow> 's IIndex \<Rightarrow> bool" where
  "needs_lock m threads ix \<longleftrightarrow>
     fl (fl (m_update m + m_insert m) + m_del m) > 0 \<and> threads > 1 \<and> \<not> ii_thread_safe ix"

subsection \<open>The shards\<close>

lemma shard_begin_0: "shard_begin c 0 = 0"
  by (simp add: shard_begin_def)

lemma shard_end_next:
  assumes "Suc w < bc_workers c"
  shows "shard_end c w = shard_begin c (Suc w)"
proof -
  have "w \<noteq> bc_workers c - 1" using assms by linarith
  then show ?thesis by (simp add: shard_end_def shard_begin_def)
qed

lemma shard_begin_le: "w \<le> bc_workers c \<Longrightarrow> shard_begin c w \<le> length (bc_qkeys c)"
  unfolding shard_begin_def
  by (metis div_times_less_eq_dividend le_trans mult.commute mult_le_mono1)

lemma shard_end_ge: "w < bc_workers c \<Longrightarrow> shard_begin c w \<le> shard_end c w"
  using shard_begin_le [of w c] by (auto simp: shard_end_def)

lemma shard_end_le: "w < bc_workers c \<Longrightarrow> shard_end c w \<le> length (bc_qkeys c)"
proof (cases "Suc w < bc_workers c")
  case True
  then show ?thesis using shard_end_next [OF True] shard_begin_le [of "Suc w" c] by simp
qed (auto simp: shard_end_def)

text \<open>The shards laid side by side are the query stream.\<close>

definition shard :: "'s batch_cfg \<Rightarrow> nat \<Rightarrow> nat list" where
  "shard c w = [shard_begin c w..<shard_end c w]"

lemma shards_prefix: "n < bc_workers c \<Longrightarrow> concat (map (shard c) [0..<n]) = [0..<shard_begin c n]"
proof (induction n)
  case (Suc n)
  then have "shard c n = [shard_begin c n..<shard_begin c (Suc n)]" by (simp add: shard_def shard_end_next)
  moreover have "shard_begin c n \<le> shard_begin c (Suc n)" by (simp add: shard_begin_def)
  ultimately show ?case using Suc by (simp add: upt_join)
qed (simp add: shard_begin_0)

lemma shards_concat:
  assumes "0 < bc_workers c"
  shows "concat (map (shard c) [0..<bc_workers c]) = [0..<length (bc_qkeys c)]"
proof -
  obtain n where n: "bc_workers c = Suc n" using assms by (cases "bc_workers c") auto
  have "shard c n = [shard_begin c n..<length (bc_qkeys c)]" by (simp add: shard_def shard_end_def n)
  then show ?thesis
    using shards_prefix [of n c] n shard_begin_le [of n c] by (simp add: upt_join)
qed


subsection \<open>One step at a time\<close>

text \<open>What a step leaves of the other workers, and the cases of the worker that moves.\<close>

definition set_worker :: "nat \<Rightarrow> worker \<Rightarrow> 's batch \<Rightarrow> 's batch" where
  "set_worker w me s = s\<lparr>b_ws := (b_ws s)(w := me)\<rparr>"

lemma set_worker_sel [simp]:
  "b_idx (set_worker w me s) = b_idx s" "b_mutex (set_worker w me s) = b_mutex s"
  "b_gate (set_worker w me s) = b_gate s" "b_ws (set_worker w me s) = (b_ws s)(w := me)"
  by (simp_all add: set_worker_def)

lemma worker_step_cases:
  assumes "worker_step c w now s = Some s'"
  obtains
    (arrive) "bw_pc (b_ws s w) = Arrive"
      "s' = set_worker w ((b_ws s w)\<lparr>bw_pc := Spin\<rparr>) (s\<lparr>b_gate := b_gate s - 1\<rparr>)"
  | (spin) "bw_pc (b_ws s w) = Spin" "b_gate s > 0" "s' = s"
  | (pass) "bw_pc (b_ws s w) = Spin" "b_gate s \<le> 0" "s' = set_worker w ((b_ws s w)\<lparr>bw_pc := Loop\<rparr>) s"
  | (take_query) lcg where "bw_pc (b_ws s w) = Loop" "bw_i (b_ws s w) < shard_end c w"
      "lcg = lcg_next (bw_lcg (b_ws s w))"
      "s' = set_worker w ((b_ws s w)\<lparr>bw_lcg := lcg,
         bw_pc := Enter (sample (bc_mix c) lcg) (bc_qkeys c ! bw_i (b_ws s w)) now\<rparr>) s"
  | (finish) "bw_pc (b_ws s w) = Loop" "shard_end c w \<le> bw_i (b_ws s w)"
      "s' = set_worker w ((b_ws s w)\<lparr>bw_pc := Finished\<rparr>) s"
  | (enter) op k ts mx where "bw_pc (b_ws s w) = Enter op k ts"
      "acquire (batch_lock (bc_use_lock c) op) w (b_mutex s) = Some mx"
      "s' = set_worker w ((b_ws s w)\<lparr>bw_pc := Inside op k ts\<rparr>) (s\<lparr>b_mutex := mx\<rparr>)"
  | (call) op k ts idx v where "bw_pc (b_ws s w) = Inside op k ts"
      "do_op (bc_ix c) op k (bc_scan_len c) (b_idx s) = Some (idx, v)"
      "s' = set_worker w ((b_ws s w)\<lparr>bw_pc := Leave op v ts\<rparr>) (s\<lparr>b_idx := idx\<rparr>)"
  | (leave) op v ts where "bw_pc (b_ws s w) = Leave op v ts"
      "s' = set_worker w ((b_ws s w)\<lparr>bw_pc := Work op v ts now\<rparr>)
         (s\<lparr>b_mutex := release (batch_lock (bc_use_lock c) op) w (b_mutex s)\<rparr>)"
  | (work) op v ts tl wl v' where "bw_pc (b_ws s w) = Work op v ts tl"
      "run v (bw_work (b_ws s w)) = Some (wl, v')"
      "s' = set_worker w ((b_ws s w)\<lparr>bw_work := wl, bw_h := batch_record op ts tl now (bw_h (b_ws s w)),
         bw_sink := bw_sink (b_ws s w) XOR v', bw_i := bw_i (b_ws s w) + 1, bw_pc := Loop\<rparr>) s"
proof (cases "bw_pc (b_ws s w)")
  case Arrive
  then show ?thesis using assms by (intro that(1)) (simp_all add: worker_step_def set_worker_def)
next
  case Spin
  show ?thesis
  proof (cases "b_gate s > 0")
    case True
    with Spin assms show ?thesis by (intro that(2)) (simp_all add: worker_step_def)
  next
    case False
    with Spin assms show ?thesis by (intro that(3)) (simp_all add: worker_step_def set_worker_def)
  qed
next
  case Loop
  show ?thesis
  proof (cases "bw_i (b_ws s w) < shard_end c w")
    case True
    with Loop assms show ?thesis by (intro that(4) [OF _ _ refl]) (simp_all add: worker_step_def set_worker_def Let_def)
  next
    case False
    with Loop assms show ?thesis by (intro that(5)) (simp_all add: worker_step_def set_worker_def Let_def)
  qed
next
  case (Enter op k ts)
  with assms obtain mx where r: "acquire (batch_lock (bc_use_lock c) op) w (b_mutex s) = Some mx"
    by (auto simp: worker_step_def split: option.splits)
  from r Enter assms show ?thesis by (intro that(6) [OF Enter r]) (simp_all add: worker_step_def set_worker_def)
next
  case (Inside op k ts)
  with assms obtain idx v where r: "do_op (bc_ix c) op k (bc_scan_len c) (b_idx s) = Some (idx, v)"
    by (auto simp: worker_step_def split: option.splits)
  from r Inside assms show ?thesis by (intro that(7) [OF Inside r]) (simp_all add: worker_step_def set_worker_def)
next
  case (Leave op v ts)
  with assms show ?thesis by (intro that(8) [OF Leave]) (simp_all add: worker_step_def set_worker_def)
next
  case (Work op v ts tl)
  with assms obtain wl v' where r: "run v (bw_work (b_ws s w)) = Some (wl, v')"
    by (auto simp: worker_step_def Let_def split: option.splits)
  from r Work assms show ?thesis by (intro that(9) [OF Work r]) (simp_all add: worker_step_def Let_def set_worker_def)
next
  case Finished
  with assms show ?thesis by (simp add: worker_step_def)
qed

subsection \<open>The lock and the barrier\<close>

definition held :: "'s batch_cfg \<Rightarrow> wpc \<Rightarrow> lock_mode option" where
  "held c pc = (case pc of Inside op k ts \<Rightarrow> batch_lock (bc_use_lock c) op
     | Leave op v ts \<Rightarrow> batch_lock (bc_use_lock c) op | _ \<Rightarrow> None)"

definition lock_inv :: "'s batch_cfg \<Rightarrow> 's batch \<Rightarrow> bool" where
  "lock_inv c s \<longleftrightarrow> mutex_ok (b_mutex s) (\<lambda>w. held c (bw_pc (b_ws s w)))"

lemma held_simps [simp]:
  "held c (Inside op k ts) = batch_lock (bc_use_lock c) op"
  "held c (Leave op v ts) = batch_lock (bc_use_lock c) op"
  "held c Arrive = None" "held c Spin = None" "held c Loop = None" "held c (Enter op k ts) = None"
  "held c (Work op v ts te) = None" "held c Finished = None"
  by (simp_all add: held_def)

lemma lock_inv_step:
  assumes "lock_inv c s" "worker_step c w now s = Some s'"
  shows "lock_inv c s'"
proof -
  let ?H = "\<lambda>w. held c (bw_pc (b_ws s w))"
  have ok: "mutex_ok (b_mutex s) ?H" using assms(1) by (simp add: lock_inv_def)
  have upd: "lock_inv c s' \<longleftrightarrow> mutex_ok (b_mutex s') (?H(w := held c (bw_pc (b_ws s' w))))"
    if "\<forall>u. u \<noteq> w \<longrightarrow> b_ws s' u = b_ws s u"
  proof -
    have "(\<lambda>u. held c (bw_pc (b_ws s' u))) = ?H(w := held c (bw_pc (b_ws s' w)))" using that by auto
    then show ?thesis by (simp add: lock_inv_def)
  qed
  have same: "lock_inv c s'" if "\<forall>u. u \<noteq> w \<longrightarrow> b_ws s' u = b_ws s u" "b_mutex s' = b_mutex s"
    "held c (bw_pc (b_ws s' w)) = ?H w"
    using ok unfolding upd [OF that(1)] that by (simp add: fun_upd_idem)
  show ?thesis using assms(2)
  proof (cases rule: worker_step_cases)
    case spin
    then show ?thesis using assms(1) by simp
  next
    case (enter op k ts mx)
    then have "mutex_ok mx (?H(w := batch_lock (bc_use_lock c) op))"
      by (intro mutex_ok_acquire [OF ok]) simp_all
    with enter show ?thesis by (subst upd, simp) simp
  next
    case (leave op v ts)
    then have "mutex_ok (release (batch_lock (bc_use_lock c) op) w (b_mutex s)) (?H(w := None))"
      by (intro mutex_ok_release [OF ok]) simp_all
    with leave show ?thesis by (subst upd, simp) simp
  qed (rule same; simp)+
qed

definition gate_inv :: "'s batch_cfg \<Rightarrow> 's batch \<Rightarrow> bool" where
  "gate_inv c s \<longleftrightarrow> b_gate s = int (card {w. w < bc_workers c \<and> bw_pc (b_ws s w) = Arrive})"

lemma gate_inv_step:
  assumes "gate_inv c s" "worker_step c w now s = Some s'" "w < bc_workers c"
  shows "gate_inv c s'"
proof -
  let ?A = "\<lambda>s. {w. w < bc_workers c \<and> bw_pc (b_ws s w) = Arrive}"
  have same: "b_gate s' = b_gate s \<Longrightarrow> ?A s' = ?A s \<Longrightarrow> gate_inv c s'"
    using assms(1) by (simp add: gate_inv_def)
  show ?thesis using assms(2)
  proof (cases rule: worker_step_cases)
    case arrive
    have "?A s = insert w (?A s')" "w \<notin> ?A s'" using arrive assms(3) by auto
    then have "card (?A s) = Suc (card (?A s'))" by simp
    then show ?thesis using assms(1) arrive by (simp add: gate_inv_def)
  qed (rule same; auto)+
qed


subsection \<open>What a worker has done\<close>

text \<open>The state of worker \<open>w\<close>'s generator, and its operation, at position \<open>i\<close> of the stream.\<close>

definition lcg_at :: "'s batch_cfg \<Rightarrow> nat \<Rightarrow> nat \<Rightarrow> u32" where
  "lcg_at c w i = (lcg_next ^^ (i - shard_begin c w)) (lcg_seed c w)"

definition op_at :: "'s batch_cfg \<Rightarrow> nat \<Rightarrow> nat \<Rightarrow> Op" where
  "op_at c w i = sample (bc_mix c) (lcg_at c w (Suc i))"

definition count_op :: "'s batch_cfg \<Rightarrow> nat \<Rightarrow> Op \<Rightarrow> nat list \<Rightarrow> nat" where
  "count_op c w op is = length (filter (\<lambda>i. op_at c w i = op) is)"

lemma lcg_at_Suc: "shard_begin c w \<le> i \<Longrightarrow> lcg_at c w (Suc i) = lcg_next (lcg_at c w i)"
  by (simp add: lcg_at_def Suc_diff_le)

fun pc_op :: "wpc \<Rightarrow> Op option" where
  "pc_op (Enter op k ts) = Some op"
| "pc_op (Inside op k ts) = Some op"
| "pc_op (Leave op v ts) = Some op"
| "pc_op (Work op v ts t') = Some op"
| "pc_op _ = None"

fun pc_key :: "wpc \<Rightarrow> idx_key_t option" where
  "pc_key (Enter op k ts) = Some k"
| "pc_key (Inside op k ts) = Some k"
| "pc_key _ = None"

definition worker_ok :: "'s batch_cfg \<Rightarrow> nat \<Rightarrow> worker \<Rightarrow> bool" where
  "worker_ok c w me \<longleftrightarrow>
     shard_begin c w \<le> bw_i me \<and> bw_i me \<le> shard_end c w \<and>
     bw_lcg me = lcg_at c w (if pc_op (bw_pc me) = None then bw_i me else Suc (bw_i me)) \<and>
     (\<forall>op. pc_op (bw_pc me) = Some op \<longrightarrow> bw_i me < shard_end c w \<and> op = op_at c w (bw_i me)) \<and>
     (\<forall>k. pc_key (bw_pc me) = Some k \<longrightarrow> k = bc_qkeys c ! bw_i me) \<and>
     (bw_pc me = Finished \<longrightarrow> bw_i me = shard_end c w) \<and>
     length (per_op (bw_h me)) = 5 \<and>
     (\<forall>op. op_total op (bw_h me) = of_nat (count_op c w op [shard_begin c w..<bw_i me])) \<and>
     h_total (total (bw_h me)) = of_nat (bw_i me - shard_begin c w)"

lemma worker_ok_init:
  "w < bc_workers c \<Longrightarrow> worker_ok c w (b_ws (batch_init c s works) w)"
  using shard_end_ge [of w c] by (simp add: worker_ok_def batch_init_def lcg_at_def count_op_def)

lemma worker_ok_step:
  assumes "worker_ok c w (b_ws s w)" "worker_step c w now s = Some s'"
  shows "worker_ok c w (b_ws s' w)"
  using assms(2)
proof (cases rule: worker_step_cases)
  case (take_query lcg)
  then show ?thesis using assms(1) by (simp add: worker_ok_def op_at_def lcg_at_Suc)
next
  case (work op v ts te wl v')
  let ?me = "b_ws s w"
  have b: "shard_begin c w \<le> bw_i ?me" and op: "op = op_at c w (bw_i ?me)" using assms(1) work(1) by (auto simp: worker_ok_def)
  have "count_op c w o' [shard_begin c w..<Suc (bw_i ?me)] =
    count_op c w o' [shard_begin c w..<bw_i ?me] + (if o' = op then 1 else 0)" for o'
    using b op by (simp add: count_op_def)
  then show ?thesis using assms(1) work b by (simp add: worker_ok_def Suc_diff_le)
qed (use assms(1) in \<open>simp_all add: worker_ok_def\<close>)

lemma step_frame:
  assumes "worker_step c w now s = Some s'" "u \<noteq> w"
  shows "b_ws s' u = b_ws s u"
  using assms(1) by (cases rule: worker_step_cases) (use assms(2) in auto)

text \<open>The invariant of the workers together.\<close>

definition batch_inv :: "'s batch_cfg \<Rightarrow> 's batch \<Rightarrow> bool" where
  "batch_inv c s \<longleftrightarrow> lock_inv c s \<and> gate_inv c s \<and> (\<forall>w < bc_workers c. worker_ok c w (b_ws s w)) \<and>
     (\<forall>w \<ge> bc_workers c. bw_pc (b_ws s w) = Arrive)"

lemma batch_inv_init: "batch_inv c (batch_init c s0 works)"
  using worker_ok_init [of _ c s0 works]
  by (simp add: batch_inv_def lock_inv_def gate_inv_def mutex_ok_init batch_init_def)

lemma batch_inv_step:
  assumes "batch_inv c s" "w < bc_workers c" "worker_step c w now s = Some s'"
  shows "batch_inv c s'"
proof -
  have "worker_ok c u (b_ws s' u)" if "u < bc_workers c" for u
    using worker_ok_step [OF _ assms(3)] step_frame [OF assms(3), of u] assms(1) that
    by (cases "u = w") (simp_all add: batch_inv_def)
  then show ?thesis
    using lock_inv_step [OF _ assms(3)] gate_inv_step [OF _ assms(3,2)] step_frame [OF assms(3)] assms(1,2)
    by (auto simp: batch_inv_def)
qed

lemma batch_reachable_inv: "batch_reachable c s0 works s \<Longrightarrow> batch_inv c s"
proof (induction rule: batch_reachable.induct)
  case (step s s')
  then show ?case by (auto elim!: batch_step.cases intro: batch_inv_step)
qed (rule batch_inv_init)


subsection \<open>The index under the workers\<close>

text \<open>What the operations can have made of the represented map: the same keys, each with its first
  value, the value an update writes, or the 0 a removal leaves.\<close>

definition drifted :: "idx_map \<Rightarrow> idx_map \<Rightarrow> bool" where
  "drifted m m' \<longleftrightarrow> dom m' = dom m \<and>
     (\<forall>k. m' k = m k \<or> m' k = Some (k XOR 0xA5A5A5A5) \<or> m' k = Some 0)"

lemma drifted_refl: "drifted m m"
  by (simp add: drifted_def)

lemma drifted_op: "drifted m m' \<Longrightarrow> drifted m (op_effect op k m')"
  by (auto simp: drifted_def op_effect_def overwrite_apply split: Op.splits)

lemma op_effect_read: "\<not> writes op \<Longrightarrow> op_effect op k m = m"
  by (cases op) (simp_all add: writes_def op_effect_def)

definition read_only :: "Op list \<Rightarrow> bool" where
  "read_only tbl \<longleftrightarrow> (\<forall>r. \<not> writes (sample tbl r))"

context point_index
begin

lemma batch_step_rel:
  assumes "bc_ix c = ix" "rel (b_idx s) m" "worker_step c w now s = Some s'"
  shows "rel (b_idx s') m \<or>
    (\<exists>op k ts. bw_pc (b_ws s w) = Inside op k ts \<and> rel (b_idx s') (op_effect op k m))"
  using assms(3)
proof (cases rule: worker_step_cases)
  case (call op k ts idx v)
  then show ?thesis using do_op_rel [OF assms(2), of op k "bc_scan_len c"] assms(1) by auto
qed (use assms(2) in simp_all)

lemma batch_rel:
  assumes "bc_ix c = ix" "rel s0 m" "batch_reachable c s0 works s"
  shows "\<exists>m'. rel (b_idx s) m' \<and> drifted m m' \<and> (read_only (bc_mix c) \<longrightarrow> m' = m)"
  using assms(3)
proof (induction rule: batch_reachable.induct)
  case start
  then show ?case using assms(2) drifted_refl by (auto simp: batch_init_def)
next
  case (step s s')
  from step.IH obtain m' where m': "rel (b_idx s) m'" "drifted m m'" "read_only (bc_mix c) \<longrightarrow> m' = m" by blast
  from step.hyps(2) obtain w now where w: "w < bc_workers c" "worker_step c w now s = Some s'"
    by (auto elim!: batch_step.cases)
  have "worker_ok c w (b_ws s w)" using batch_reachable_inv [OF step.hyps(1)] w(1) by (simp add: batch_inv_def)
  then have ro: "op_effect op k m' = m'" if "bw_pc (b_ws s w) = Inside op k ts" "read_only (bc_mix c)" for op k ts
    using that op_effect_read by (auto simp: worker_ok_def op_at_def read_only_def)
  from batch_step_rel [OF assms(1) m'(1) w(2)] show ?case
  proof
    assume "rel (b_idx s') m'"
    with m' show ?thesis by blast
  next
    assume "\<exists>op k ts. bw_pc (b_ws s w) = Inside op k ts \<and> rel (b_idx s') (op_effect op k m')"
    then obtain op k ts where o: "bw_pc (b_ws s w) = Inside op k ts" "rel (b_idx s') (op_effect op k m')" by blast
    with drifted_op [OF m'(2)] m'(3) ro [OF o(1)] show ?thesis by metis
  qed
qed

end

subsection \<open>Progress\<close>

text \<open>The steps a worker has left, counting six for a query.\<close>

definition todo :: "'s batch_cfg \<Rightarrow> nat \<Rightarrow> worker \<Rightarrow> nat" where
  "todo c w me = (let r = 6 * (shard_end c w - bw_i me)
     in case bw_pc me of Arrive \<Rightarrow> r + 3 | Spin \<Rightarrow> r + 2 | Loop \<Rightarrow> r + 1 | Enter op k ts \<Rightarrow> r
        | Inside op k ts \<Rightarrow> r - 1 | Leave op v ts \<Rightarrow> r - 2 | Work op v ts t' \<Rightarrow> r - 3 | Finished \<Rightarrow> 0)"

definition batch_todo :: "'s batch_cfg \<Rightarrow> 's batch \<Rightarrow> nat" where
  "batch_todo c s = (\<Sum>w < bc_workers c. todo c w (b_ws s w))"

lemma todo_step:
  assumes "worker_ok c w (b_ws s w)" "worker_step c w now s = Some s'"
  shows "s' = s \<and> b_gate s > 0 \<and> bw_pc (b_ws s w) = Spin \<or> todo c w (b_ws s' w) < todo c w (b_ws s w)"
  using assms(2)
proof (cases rule: worker_step_cases)
  case (work op v ts te wl v')
  then have "bw_i (b_ws s w) < shard_end c w" using assms(1) by (auto simp: worker_ok_def)
  with work show ?thesis by (simp add: todo_def)
qed (use assms(1) in \<open>auto simp: todo_def worker_ok_def\<close>)

lemma batch_todo_step:
  assumes "batch_inv c s" "w < bc_workers c" "worker_step c w now s = Some s'"
  shows "s' = s \<and> b_gate s > 0 \<and> bw_pc (b_ws s w) = Spin \<or> batch_todo c s' < batch_todo c s"
proof -
  have "worker_ok c w (b_ws s w)" using assms(1,2) by (simp add: batch_inv_def)
  from todo_step [OF this assms(3)] show ?thesis
  proof
    assume lt: "todo c w (b_ws s' w) < todo c w (b_ws s w)"
    have "batch_todo c s' < batch_todo c s"
      unfolding batch_todo_def
    proof (rule sum_strict_mono_ex1)
      show "\<forall>u \<in> {..<bc_workers c}. todo c u (b_ws s' u) \<le> todo c u (b_ws s u)"
        using step_frame [OF assms(3)] lt by (metis less_imp_le order_refl)
    qed (use lt assms(2) in auto)
    then show ?thesis ..
  qed blast
qed

context point_index
begin

text \<open>A worker can move unless it has finished or waits for the lock.\<close>

lemma worker_moves:
  assumes "bc_ix c = ix" "rel (b_idx s) m" "wl_ready (bw_work (b_ws s w))"
    and "bw_pc (b_ws s w) \<noteq> Finished"
    and "\<And>op k ts. bw_pc (b_ws s w) = Enter op k ts \<Longrightarrow>
      \<exists>mx. acquire (batch_lock (bc_use_lock c) op) w (b_mutex s) = Some mx"
  shows "\<exists>s'. worker_step c w now s = Some s'"
proof (cases "bw_pc (b_ws s w)")
  case (Inside op k ts)
  then show ?thesis using do_op_rel [OF assms(2), of op k "bc_scan_len c"] assms(1)
    by (auto simp: worker_step_def)
next
  case (Work op v ts te)
  then show ?thesis using run_ready [OF assms(3), of v] by (auto simp: worker_step_def Let_def)
qed (use assms(4,5) in \<open>auto simp: worker_step_def Let_def\<close>)

text \<open>Some worker can move on unless all have finished.\<close>

lemma batch_moves:
  assumes "bc_ix c = ix" "rel (b_idx s) m" "batch_inv c s" "\<not> batch_finished c s"
    and "\<forall>w < bc_workers c. wl_ready (bw_work (b_ws s w))"
  shows "\<exists>s'. batch_step c s s' \<and> batch_todo c s' < batch_todo c s"
proof -
  have go: ?thesis if w: "w < bc_workers c" "bw_pc (b_ws s w) \<noteq> Finished"
    "bw_pc (b_ws s w) = Spin \<longrightarrow> b_gate s \<le> 0"
    "\<And>op k ts. bw_pc (b_ws s w) = Enter op k ts \<Longrightarrow>
      \<exists>mx. acquire (batch_lock (bc_use_lock c) op) w (b_mutex s) = Some mx" for w
    using worker_moves [OF assms(1,2), of w] assms(5) w batch_todo_step [OF assms(3) w(1)]
    by (metis batch_step.step not_le)
  show ?thesis
  proof (cases "\<exists>w < bc_workers c. bw_pc (b_ws s w) \<noteq> Finished \<and> bw_pc (b_ws s w) \<noteq> Spin \<and>
      (\<forall>op k ts. bw_pc (b_ws s w) \<noteq> Enter op k ts)")
    case True
    then show ?thesis using go by blast
  next
    case False
    then have pcs: "bw_pc (b_ws s w) = Finished \<or> bw_pc (b_ws s w) = Spin \<or>
      (\<exists>op k ts. bw_pc (b_ws s w) = Enter op k ts)" if "w < bc_workers c" for w using that by blast
    then have "{w. w < bc_workers c \<and> bw_pc (b_ws s w) = Arrive} = {}" by fastforce
    then have gate: "b_gate s \<le> 0" using assms(3) by (simp add: batch_inv_def gate_inv_def)
    have "held c (bw_pc (b_ws s w)) = None" for w
      using pcs [of w] assms(3) by (cases "w < bc_workers c") (auto simp: batch_inv_def)
    then have "mutex_ok (b_mutex s) (\<lambda>_. None)" using assms(3) by (simp add: batch_inv_def lock_inv_def)
    then have free: "\<exists>mx. acquire md w (b_mutex s) = Some mx" for md w by (rule acquire_free)
    obtain w where "w < bc_workers c" "bw_pc (b_ws s w) \<noteq> Finished"
      using assms(4) by (auto simp: batch_finished_def)
    with go gate free show ?thesis by blast
  qed
qed

end

lemma worker_ready_step:
  assumes "wl_ready (bw_work (b_ws s w))" "worker_step c w now s = Some s'"
  shows "wl_ready (bw_work (b_ws s' w))"
  using assms(2)
proof (cases rule: worker_step_cases)
  case (work op v ts te wl v')
  then show ?thesis using run_ready [OF assms(1), of v] by auto
qed (use assms(1) in simp_all)

lemma batch_ready:
  assumes "batch_reachable c s0 works s" "\<forall>w < bc_workers c. wl_ready (works w)"
  shows "\<forall>w < bc_workers c. wl_ready (bw_work (b_ws s w))"
  using assms(1)
proof (induction rule: batch_reachable.induct)
  case (step s s')
  then obtain w now where w: "worker_step c w now s = Some s'" by (auto elim: batch_step.cases)
  show ?case using worker_ready_step [OF _ w] step_frame [OF w] step.IH by metis
qed (use assms(2) in \<open>simp add: batch_init_def\<close>)


subsection \<open>The merged histograms\<close>

lemma op_total_foldl:
  "op_total op (foldl merge_hists h hs) = op_total op h + (\<Sum>h \<leftarrow> hs. op_total op h)"
  "h_total (total (foldl merge_hists h hs)) = h_total (total h) + (\<Sum>h \<leftarrow> hs. h_total (total h))"
  by (induction hs arbitrary: h) (simp_all add: add.assoc)

text \<open>The operations of the whole run, by position in the stream.\<close>

definition stream_ops :: "'s batch_cfg \<Rightarrow> Op list" where
  "stream_ops c = concat (map (\<lambda>w. map (op_at c w) (shard c w)) [0..<bc_workers c])"

lemma length_stream_ops: "0 < bc_workers c \<Longrightarrow> length (stream_ops c) = length (bc_qkeys c)"
proof -
  assume w: "0 < bc_workers c"
  have "length (stream_ops c) = length (concat (map (shard c) [0..<bc_workers c]))"
    by (simp add: stream_ops_def length_concat comp_def)
  then show ?thesis using shards_concat [OF w] by simp
qed

lemma count_list_concat: "count_list (concat xss) x = (\<Sum>xs \<leftarrow> xss. count_list xs x)"
  by (induction xss) simp_all

lemma count_list_map: "count_list (map f xs) x = length (filter (\<lambda>y. f y = x) xs)"
  by (induction xs) auto

lemma count_stream_ops:
  "count_list (stream_ops c) op = (\<Sum>w \<leftarrow> [0..<bc_workers c]. count_op c w op (shard c w))"
  by (simp add: stream_ops_def count_list_concat comp_def count_list_map count_op_def)

lemma of_nat_sum_list: "(of_nat (\<Sum>x \<leftarrow> xs. f x) :: u64) = (\<Sum>x \<leftarrow> xs. of_nat (f x))"
  by (induction xs) simp_all

lemma finished_totals:
  assumes "0 < bc_workers c" "batch_inv c s" "batch_finished c s"
  shows "op_total op (r_h (batch_result c wall s)) = of_nat (count_list (stream_ops c) op)"
    and "h_total (total (r_h (batch_result c wall s))) = of_nat (length (bc_qkeys c))"
proof -
  have fin: "op_total op (bw_h (b_ws s w)) = of_nat (count_op c w op (shard c w))"
    "h_total (total (bw_h (b_ws s w))) = of_nat (length (shard c w))" if "w < bc_workers c" for w
    using assms(2,3) that by (auto simp: batch_inv_def batch_finished_def worker_ok_def shard_def)
  have "(\<Sum>w \<leftarrow> [0..<bc_workers c]. op_total op (bw_h (b_ws s w))) =
    (\<Sum>w \<leftarrow> [0..<bc_workers c]. of_nat (count_op c w op (shard c w)))"
    by (intro arg_cong [of _ _ sum_list] map_cong) (simp_all add: fin)
  then show "op_total op (r_h (batch_result c wall s)) = of_nat (count_list (stream_ops c) op)"
    by (simp add: batch_result_def op_total_foldl comp_def count_stream_ops of_nat_sum_list)
  have "(\<Sum>w \<leftarrow> [0..<bc_workers c]. h_total (total (bw_h (b_ws s w)))) =
    (\<Sum>w \<leftarrow> [0..<bc_workers c]. of_nat (length (shard c w)))"
    by (intro arg_cong [of _ _ sum_list] map_cong) (simp_all add: fin)
  also have "\<dots> = of_nat (length (concat (map (shard c) [0..<bc_workers c])))"
    by (simp add: length_concat of_nat_sum_list comp_def)
  finally show "h_total (total (r_h (batch_result c wall s))) = of_nat (length (bc_qkeys c))"
    using shards_concat [OF assms(1)] by (simp add: batch_result_def op_total_foldl comp_def)
qed

text \<open>From any reachable state the workers can run to the end.\<close>

context point_index
begin

lemma batch_can_finish:
  assumes "bc_ix c = ix" "rel s0 m" "\<forall>w < bc_workers c. wl_ready (works w)" "batch_reachable c s0 works s"
  shows "\<exists>s'. batch_reachable c s0 works s' \<and> batch_finished c s'"
  using assms(4)
proof (induction "batch_todo c s" arbitrary: s rule: less_induct)
  case less
  show ?case
  proof (cases "batch_finished c s")
    case False
    from batch_rel [OF assms(1,2) less.prems] obtain m' where "rel (b_idx s) m'" by blast
    from batch_moves [OF assms(1) this batch_reachable_inv [OF less.prems] False batch_ready [OF less.prems assms(3)]]
    obtain s' where "batch_step c s s'" "batch_todo c s' < batch_todo c s" by blast
    then show ?thesis using less.hyps batch_reachable.step [OF less.prems] by blast
  qed (use less.prems in blast)
qed

end


subsection \<open>Properties\<close>

text \<open>Two workers that look up one key each; both are admitted to the index.\<close>

fun run_workers :: "'s batch_cfg \<Rightarrow> (nat \<times> u64) list \<Rightarrow> 's batch \<Rightarrow> 's batch option" where
  "run_workers c [] s = Some s"
| "run_workers c ((w, now) # rest) s =
     (if w < bc_workers c then case worker_step c w now s of None \<Rightarrow> None | Some s' \<Rightarrow> run_workers c rest s'
      else None)"

lemma run_workers_reachable:
  "batch_reachable c s0 works s \<Longrightarrow> run_workers c ms s = Some s' \<Longrightarrow> batch_reachable c s0 works s'"
proof (induction c ms s rule: run_workers.induct)
  case (2 c w now rest s)
  then show ?case
    by (auto split: if_splits option.splits intro: batch_reachable.step batch_step.step)
qed simp

definition search_mix :: OpMix where
  "search_mix = \<lparr>m_search = 1, m_update = 0, m_insert = 0, m_del = 0, m_scan = 0\<rparr>"

lemma search_mix_ok: "shares_ok search_mix" "\<exists>tbl. OpMixSampler search_mix = Some tbl"
proof -
  show "shares_ok search_mix" by (simp add: search_mix_def shares_ok_def)
  then show "\<exists>tbl. OpMixSampler search_mix = Some tbl" using sampler_total by blast
qed

definition demo_cfg :: "Op list \<Rightarrow> BPlusTree batch_cfg" where
  "demo_cfg tbl = batch_config BuiltinBTreeAdapter [7, 9] tbl False 4 2 1"

definition demo_works :: "nat \<Rightarrow> Workload" where
  "demo_works w = Workload_new id id None' 0 0"

lemma demo_works_ready: "wl_ready (demo_works w)"
  by (simp add: demo_works_def wl_ready_def Workload_new_def Let_def)

lemma demo_two_inside:
  "\<exists>s op op'. batch_reachable (demo_cfg tbl) s0 demo_works s \<and>
    bw_pc (b_ws s 0) = Inside op 7 5 \<and> bw_pc (b_ws s 1) = Inside op' 9 6"
proof -
  let ?c = "demo_cfg tbl"
  have len: "run_workers ?c [(0, 0), (1, 0), (0, 0), (1, 0), (0, 5), (1, 6), (0, 0), (1, 0)]
      (batch_init ?c s0 demo_works) \<noteq> None \<and>
    (\<forall>s. run_workers ?c [(0, 0), (1, 0), (0, 0), (1, 0), (0, 5), (1, 6), (0, 0), (1, 0)]
      (batch_init ?c s0 demo_works) = Some s \<longrightarrow>
      (\<exists>op op'. bw_pc (b_ws s 0) = Inside op 7 5 \<and> bw_pc (b_ws s 1) = Inside op' 9 6))"
    by (simp add: demo_cfg_def batch_config_def batch_init_def worker_step_def Let_def shard_begin_def
        shard_end_def batch_lock_def)
  then show ?thesis using run_workers_reachable [OF batch_reachable.start] by (metis not_Some_eq)
qed

lemma batch_exclusion:
  assumes "shares_ok m" "OpMixSampler m = Some (bc_mix c)"
    and "bc_use_lock c = needs_lock m (int (bc_workers c)) (bc_ix c)"
    and "batch_reachable c s0 works s" "u < bc_workers c" "w < bc_workers c" "u \<noteq> w"
    and "bw_pc (b_ws s u) = Inside op k t" "bw_pc (b_ws s w) = Inside op' k' t'"
  shows "ii_thread_safe (bc_ix c) \<or> \<not> writes op \<and> \<not> writes op'"
proof (cases "bc_use_lock c")
  case True
  have ok: "mutex_ok (b_mutex s) (\<lambda>w. held c (bw_pc (b_ws s w)))"
    using batch_reachable_inv [OF assms(4)] by (simp add: batch_inv_def lock_inv_def)
  have "\<not> writes o'" if "v \<noteq> v'" "bw_pc (b_ws s v) = Inside o' kk tt" "bw_pc (b_ws s v') = Inside o'' kk' tt'"
    for v v' o' o'' kk kk' tt tt'
    using mutex_exclusive [OF ok, of v v'] that True by (cases o') (auto simp: writes_def batch_lock_def)
  with assms(7-9) show ?thesis by metis
next
  case False
  have wok: "op = op_at c u (bw_i (b_ws s u))" "op' = op_at c w (bw_i (b_ws s w))"
    using batch_reachable_inv [OF assms(4)] assms(5,6,8,9) by (auto simp: batch_inv_def worker_ok_def)
  have "1 < int (bc_workers c)" using assms(5-7) by linarith
  with False assms(3) have "ii_thread_safe (bc_ix c) \<or> \<not> 0 < fl (fl (m_update m + m_insert m) + m_del m)"
    unfolding needs_lock_def by blast
  then show ?thesis using read_only_sample [OF assms(1) _ assms(2)] unfolding wok op_at_def writes_def
    by (metis Op.distinct)
qed

text \<open>C6. The lock policy keeps conflicting index calls apart: when the driver decides whether to lock by
  the parsed mix, the number of workers and the index's claim of thread safety, then in every
  interleaving two workers that are inside an index call at the same time either both only read, or
  the index claims to be thread-safe.\<close>

theorem batch_no_conflict:
  assumes "shares_ok m" "OpMixSampler m = Some (bc_mix c)"
    and "bc_use_lock c = needs_lock m (int (bc_workers c)) (bc_ix c)"
    and "batch_reachable c s0 works s" "u < bc_workers c" "w < bc_workers c" "u \<noteq> w"
    and "bw_pc (b_ws s u) = Inside op k t" "bw_pc (b_ws s w) = Inside op' k' t'"
  shows "ii_thread_safe (bc_ix c) \<or> \<not> writes op \<and> \<not> writes op'"
  using assms by (rule batch_exclusion)

theorem batch_no_conflict_witness:
  "\<exists>tbl s op op'. OpMixSampler search_mix = Some tbl \<and> batch_reachable (demo_cfg tbl) BPlusTree_new demo_works s \<and>
    bw_pc (b_ws s 0) = Inside op 7 5 \<and> bw_pc (b_ws s 1) = Inside op' 9 6 \<and> \<not> writes op \<and> \<not> writes op'"
proof -
  from search_mix_ok(2) obtain tbl where tbl: "OpMixSampler search_mix = Some tbl" by blast
  from demo_two_inside [of tbl BPlusTree_new] obtain s op op' where
    s: "batch_reachable (demo_cfg tbl) BPlusTree_new demo_works s"
      "bw_pc (b_ws s 0) = Inside op 7 5" "bw_pc (b_ws s 1) = Inside op' 9 6" by blast
  have "ii_thread_safe (bc_ix (demo_cfg tbl)) \<or> \<not> writes op \<and> \<not> writes op'"
    by (rule batch_no_conflict [OF search_mix_ok(1) _ _ s(1) _ _ _ s(2,3)])
      (simp add: tbl demo_cfg_def batch_config_def,
       simp_all add: demo_cfg_def batch_config_def needs_lock_def search_mix_def)
  then show ?thesis using tbl s by (auto simp: demo_cfg_def batch_config_def BuiltinBTreeAdapter_def)
qed


lemma demo_loaded:
  "\<exists>t. bt_bulk_load [7, 3, 9] [70, 30, 90] BPlusTree_new = Some t \<and> bt_rel t [7 \<mapsto> 70, 3 \<mapsto> 30, 9 \<mapsto> 90]"
  using bt_load_law [of "[7, 3, 9]" "[70, 30, 90]" BPlusTree_new] by (auto simp: fun_upd_twist)


text \<open>No deadlock. Whatever the index, as long as it keeps the contract of the interface and the
  workloads stay inside their buffers, no interleaving gets stuck: a step of a worker that is not
  waiting at the barrier uses up one of finitely many steps that are left, and until all have
  finished some worker can take such a step.\<close>

theorem batch_never_stuck:
  assumes "point_index (bc_ix c) rel" "rel s0 m" "\<forall>w < bc_workers c. wl_ready (works w)"
    and "batch_reachable c s0 works s"
  shows "(\<forall>s'. batch_step c s s' \<longrightarrow> s' = s \<and> b_gate s > 0 \<or> batch_todo c s' < batch_todo c s) \<and>
    (batch_finished c s \<or> (\<exists>s'. batch_step c s s' \<and> batch_todo c s' < batch_todo c s))"
proof -
  note inv = batch_reachable_inv [OF assms(4)]
  from point_index.batch_rel [OF assms(1) refl assms(2,4)] obtain m' where "rel (b_idx s) m'" by blast
  with point_index.batch_moves [OF assms(1) refl _ inv _ batch_ready [OF assms(4,3)]]
  have "batch_finished c s \<or> (\<exists>s'. batch_step c s s' \<and> batch_todo c s' < batch_todo c s)" by blast
  moreover have "s' = s \<and> b_gate s > 0 \<or> batch_todo c s' < batch_todo c s" if "batch_step c s s'" for s'
    using that batch_todo_step [OF inv] by (auto elim!: batch_step.cases)
  ultimately show ?thesis by blast
qed

theorem batch_never_stuck_witness:
  "\<exists>t s'. batch_step (demo_cfg [Search]) (batch_init (demo_cfg [Search]) t demo_works) s' \<and>
    batch_todo (demo_cfg [Search]) s' < batch_todo (demo_cfg [Search]) (batch_init (demo_cfg [Search]) t demo_works)"
proof -
  from demo_loaded obtain t where t: "bt_rel t [7 \<mapsto> 70, 3 \<mapsto> 30, 9 \<mapsto> 90]" by blast
  have ix: "point_index (bc_ix (demo_cfg [Search])) bt_rel"
    using bt.point_index_axioms by (simp add: demo_cfg_def batch_config_def)
  have "\<not> batch_finished (demo_cfg [Search]) (batch_init (demo_cfg [Search]) t demo_works)"
    by (auto simp: batch_finished_def batch_init_def demo_cfg_def batch_config_def intro: exI [of _ 0])
  with batch_never_stuck [OF ix t _ batch_reachable.start] demo_works_ready show ?thesis by blast
qed

text \<open>Under any interleaving of the workers the index keeps representing a map with the keys it was
  loaded with; every key reads its loaded value, the value an update writes, or the 0 of a removal, and
  a mix without writes changes nothing.\<close>

theorem batch_keeps_keys:
  assumes "point_index (bc_ix c) rel" "rel s0 m" "batch_reachable c s0 works s"
  shows "\<exists>m'. rel (b_idx s) m' \<and> dom m' = dom m \<and>
    (\<forall>k. m' k = m k \<or> m' k = Some (k XOR 0xA5A5A5A5) \<or> m' k = Some 0) \<and>
    ((\<forall>r. \<not> writes (sample (bc_mix c) r)) \<longrightarrow> m' = m)"
  using point_index.batch_rel [OF assms(1) refl assms(2,3)] unfolding drifted_def read_only_def by blast

theorem batch_keeps_keys_witness:
  "\<exists>t s m'. batch_reachable (demo_cfg [Search]) t demo_works s \<and> batch_finished (demo_cfg [Search]) s \<and>
    bt_rel (b_idx s) m' \<and> dom m' = {3, 7, 9}"
proof -
  from demo_loaded obtain t where t: "bt_rel t [7 \<mapsto> 70, 3 \<mapsto> 30, 9 \<mapsto> 90]" by blast
  have ix: "bc_ix (demo_cfg [Search]) = BuiltinBTreeAdapter" by (simp add: demo_cfg_def batch_config_def)
  from bt.batch_can_finish [OF this t _ batch_reachable.start] demo_works_ready obtain s where
    s: "batch_reachable (demo_cfg [Search]) t demo_works s" "batch_finished (demo_cfg [Search]) s" by blast
  from bt.point_index_axioms ix have "point_index (bc_ix (demo_cfg [Search])) bt_rel" by simp
  from batch_keeps_keys [OF this t s(1)] obtain m' where "bt_rel (b_idx s) m'"
    "dom m' = dom [7 \<mapsto> 70, 3 \<mapsto> 30, 9 \<mapsto> 90 :: u64]" by blast
  then have "bt_rel (b_idx s) m' \<and> dom m' = {3, 7, 9}" by (auto simp: insert_commute)
  with s show ?thesis by blast
qed

end
