(* ===== verification/Poisson_Run.thy ===== *)
theory Poisson_Run
  imports Batch_Run MPMC_Queue
begin

text \<open>
  The open-loop driver of \<^verbatim>\<open>bench.cpp\<close>: \<^verbatim>\<open>run_poisson\<close>'s producer enqueues one entry per query at
  its scheduled time, the clients (\<^verbatim>\<open>client_thread\<close>) dequeue and perform them, and stop when the
  producer is done and the queue looks empty. The queue is the interleaving model of
  \<^verbatim>\<open>mpmc_queue.hpp\<close>: thread 0 is the producer, threads \<open>1\<close> to \<open>clients\<close> are the clients, and every
  atomic access of the queue is a step of its own, interleaved with the steps of the others. The
  schedule and the operations drawn before the clock starts are part of the configuration. The
  clients share one workload object without synchronisation, as in the code; a call on it is one
  step here.
\<close>

subsection \<open>The driver\<close>

record QueueEntry =
  e_key :: idx_key_t
  t_enqueue_ns :: u64
  e_op :: Op
  e_scan_len :: int

record 's poisson_cfg =
  pc_ix :: "'s IIndex"
  pc_qkeys :: "idx_key_t list"
  pc_sched :: "u64 list"
  pc_ops :: "Op list"
  pc_scan_len :: int
  pc_clients :: nat
  pc_needs_lock :: bool

datatype ppc =
    PNext                    \<comment> \<open>head of the loop, spinning until the deadline\<close>
  | PCall QueueEntry         \<comment> \<open>about to call \<open>try_enqueue\<close>\<close>
  | PWait QueueEntry         \<comment> \<open>inside \<open>try_enqueue\<close>\<close>
  | PInc                     \<comment> \<open>about to count the entry\<close>
  | PStop

datatype cpc =
    CLoop
  | CWait                          \<comment> \<open>inside \<open>try_dequeue\<close>\<close>
  | CDone                          \<comment> \<open>nothing dequeued, about to load \<open>done\<close>\<close>
  | CSize                          \<comment> \<open>in \<open>approx_size\<close>, about to load \<open>enq_pos_\<close>\<close>
  | CSize2 u64                     \<comment> \<open>in \<open>approx_size\<close>, about to load \<open>deq_pos_\<close>\<close>
  | CEnter QueueEntry u64          \<comment> \<open>entry, \<open>t_start\<close>\<close>
  | CIn QueueEntry u64             \<comment> \<open>in the call on the index\<close>
  | COut QueueEntry u64 u64        \<comment> \<open>entry, \<open>t_start\<close>, \<open>v\<close>\<close>
  | CWork QueueEntry u64 u64 u64   \<comment> \<open>entry, \<open>t_start\<close>, \<open>t_lookup\<close>, \<open>v\<close>\<close>
  | CExit

record 's SharedState =
  p_q :: "QueueEntry sys"
  p_idx :: 's
  p_work :: Workload
  p_mutex :: shared_mutex
  p_done :: bool
  p_produced :: u64
  p_consumed :: u64
  p_i :: nat
  p_lag :: u64
  p_pc :: ppc
  c_pc :: "nat \<Rightarrow> cpc"
  c_h :: "nat \<Rightarrow> OpHists"
  c_sink :: "nat \<Rightarrow> u64"

definition set_q_pc :: "nat \<Rightarrow> QueueEntry pc \<Rightarrow> 's SharedState \<Rightarrow> 's SharedState" where
  "set_q_pc t x s = s\<lparr>p_q := (p_q s)\<lparr>pcs := (pcs (p_q s))(t := x)\<rparr>\<rparr>"

definition set_c :: "nat \<Rightarrow> cpc \<Rightarrow> 's SharedState \<Rightarrow> 's SharedState" where
  "set_c t x s = s\<lparr>c_pc := (c_pc s)(t := x)\<rparr>"

text \<open>One step inside a call of the queue by thread \<open>t\<close>.\<close>

definition queue_run :: "nat \<Rightarrow> bool \<Rightarrow> 's SharedState \<Rightarrow> 's SharedState option" where
  "queue_run t b s =
     map_option (\<lambda>(q', c'). s\<lparr>p_q := \<lparr>queue = q', pcs = (pcs (p_q s))(t := c'),
        enq_log = enq_log (p_q s) @ logged_enq (pcs (p_q s) t) c',
        deq_log = deq_log (p_q s) @ logged_deq (pcs (p_q s) t) c'\<rparr>\<rparr>)
       (thread_step b (queue (p_q s)) (pcs (p_q s) t))"

definition poisson_init :: "QueueEntry MPMCQueue \<Rightarrow> 's \<Rightarrow> Workload \<Rightarrow> 's SharedState" where
  "poisson_init q s0 work = \<lparr>p_q = mpmc_init q, p_idx = s0, p_work = work, p_mutex = mutex_init,
     p_done = False, p_produced = 0, p_consumed = 0, p_i = 0, p_lag = 0, p_pc = PNext,
     c_pc = (\<lambda>_. CLoop), c_h = (\<lambda>_. OpHists_init), c_sink = (\<lambda>_. 0)\<rparr>"

text \<open>A step of the producer; \<open>now\<close> is what the clock shows, \<open>b\<close> whether a weak compare-exchange fails
  spuriously.\<close>

definition producer_step :: "'s poisson_cfg \<Rightarrow> bool \<Rightarrow> u64 \<Rightarrow> 's SharedState \<Rightarrow> 's SharedState option" where
  "producer_step c b now s =
     (case p_pc s of
        PNext \<Rightarrow>
          (if p_i s < length (pc_qkeys c)
           then if now \<ge> pc_sched c ! p_i s
                then let e = \<lparr>e_key = pc_qkeys c ! p_i s, t_enqueue_ns = now, e_op = pc_ops c ! p_i s,
                              e_scan_len = pc_scan_len c\<rparr>
                     in Some (s\<lparr>p_lag := p_lag s + (t_enqueue_ns e - pc_sched c ! p_i s), p_pc := PCall e\<rparr>)
                else Some s
           else Some (s\<lparr>p_done := True, p_pc := PStop\<rparr>))
      | PCall e \<Rightarrow> Some (set_q_pc 0 (EnqLoad e) (s\<lparr>p_pc := PWait e\<rparr>))
      | PWait e \<Rightarrow>
          (case pcs (p_q s) 0 of
             EnqRet True \<Rightarrow> Some (set_q_pc 0 Ready (s\<lparr>p_pc := PInc\<rparr>))
           | EnqRet False \<Rightarrow> Some (set_q_pc 0 Ready (s\<lparr>p_pc := PCall (e\<lparr>t_enqueue_ns := now\<rparr>)\<rparr>))
           | _ \<Rightarrow> queue_run 0 b s)
      | PInc \<Rightarrow> Some (s\<lparr>p_produced := p_produced s + 1, p_i := p_i s + 1, p_pc := PNext\<rparr>)
      | PStop \<Rightarrow> None)"

text \<open>A step of client \<open>t\<close>.\<close>

definition client_step :: "'s poisson_cfg \<Rightarrow> nat \<Rightarrow> bool \<Rightarrow> u64 \<Rightarrow> 's SharedState \<Rightarrow> 's SharedState option" where
  "client_step c t b now s =
     (case c_pc s t of
        CLoop \<Rightarrow> Some (set_q_pc t DeqLoad (set_c t CWait s))
      | CWait \<Rightarrow>
          (case pcs (p_q s) t of
             DeqRet None \<Rightarrow> Some (set_q_pc t Ready (set_c t CDone s))
           | DeqRet (Some e) \<Rightarrow> Some (set_q_pc t Ready (set_c t (CEnter e now) s))
           | _ \<Rightarrow> queue_run t b s)
      | CDone \<Rightarrow> Some (set_c t (if p_done s then CSize else CLoop) s)
      | CSize \<Rightarrow> Some (set_c t (CSize2 (enq_pos (queue (p_q s)))) s)
      | CSize2 e \<Rightarrow>
          (let d = deq_pos (queue (p_q s))
           in Some (set_c t (if (if e \<ge> d then e - d else 0) = 0 then CExit else CLoop) s))
      | CEnter e t_start \<Rightarrow>
          map_option (\<lambda>mx. set_c t (CIn e t_start) (s\<lparr>p_mutex := mx\<rparr>))
            (acquire (client_lock (pc_needs_lock c) (e_op e)) t (p_mutex s))
      | CIn e t_start \<Rightarrow>
          map_option (\<lambda>(idx, v). set_c t (COut e t_start v) (s\<lparr>p_idx := idx\<rparr>))
            (do_op (pc_ix c) (e_op e) (e_key e) (e_scan_len e) (p_idx s))
      | COut e t_start v \<Rightarrow>
          Some (set_c t (CWork e t_start now v)
            (s\<lparr>p_mutex := release (client_lock (pc_needs_lock c) (e_op e)) t (p_mutex s)\<rparr>))
      | CWork e t_start t_lookup v \<Rightarrow>
          map_option (\<lambda>(wl, v'). set_c t CLoop
            (s\<lparr>p_work := wl,
               c_h := (c_h s)(t := client_record (e_op e) (t_enqueue_ns e) t_start t_lookup now (c_h s t)),
               c_sink := (c_sink s)(t := c_sink s t XOR v'), p_consumed := p_consumed s + 1\<rparr>))
            (run v (p_work s))
      | CExit \<Rightarrow> None)"

inductive poisson_step :: "'s poisson_cfg \<Rightarrow> 's SharedState \<Rightarrow> 's SharedState \<Rightarrow> bool" for c where
  producer: "producer_step c b now s = Some s' \<Longrightarrow> poisson_step c s s'"
| client: "1 \<le> t \<Longrightarrow> t \<le> pc_clients c \<Longrightarrow> client_step c t b now s = Some s' \<Longrightarrow> poisson_step c s s'"

inductive poisson_reachable ::
  "'s poisson_cfg \<Rightarrow> QueueEntry MPMCQueue \<Rightarrow> 's \<Rightarrow> Workload \<Rightarrow> 's SharedState \<Rightarrow> bool" for c q s0 work where
  start: "poisson_reachable c q s0 work (poisson_init q s0 work)"
| step: "poisson_reachable c q s0 work s \<Longrightarrow> poisson_step c s s' \<Longrightarrow> poisson_reachable c q s0 work s'"

definition poisson_finished :: "'s poisson_cfg \<Rightarrow> 's SharedState \<Rightarrow> bool" where
  "poisson_finished c s \<longleftrightarrow> p_pc s = PStop \<and> (\<forall>t. 1 \<le> t \<and> t \<le> pc_clients c \<longrightarrow> c_pc s t = CExit)"

text \<open>What \<^verbatim>\<open>run_poisson\<close> returns after joining the clients; the three rates come from the schedule.\<close>

definition poisson_result ::
  "'s poisson_cfg \<Rightarrow> real \<Rightarrow> real \<times> real \<times> real \<Rightarrow> 's SharedState \<Rightarrow> RunResult" where
  "poisson_result c wall lams s = \<lparr>wall_ns_total = wall,
     r_h = foldl merge_hists OpHists_init (map (\<lambda>t. c_h s (Suc t)) [0..<pc_clients c]),
     r_produced = p_produced s, r_consumed = p_consumed s, producer_lag_ns_total = p_lag s,
     lambda_mean = fst lams, lambda_min = fst (snd lams), lambda_max = snd (snd lams)\<rparr>"


subsection \<open>Calls of the queue\<close>

text \<open>A thread inside \<open>try_enqueue e\<close>, whether it has won its position; a thread inside
  \<open>try_dequeue\<close>, the value it has taken out.\<close>

fun in_enq :: "'a \<Rightarrow> 'a pc \<Rightarrow> bool" where
  "in_enq e (EnqLoad v) = (v = e)"
| "in_enq e (EnqSeq v p) = (v = e)"
| "in_enq e (EnqCas v p) = (v = e)"
| "in_enq e (EnqWrite v p) = (v = e)"
| "in_enq e (EnqStore v p) = (v = e)"
| "in_enq e (EnqRet b) = True"
| "in_enq e _ = False"

fun won :: "'a pc \<Rightarrow> bool" where
  "won (EnqWrite v p) = True"
| "won (EnqStore v p) = True"
| "won (EnqRet b) = b"
| "won _ = False"

fun in_deq :: "'a pc \<Rightarrow> bool" where
  "in_deq DeqLoad = True"
| "in_deq (DeqSeq p) = True"
| "in_deq (DeqCas p) = True"
| "in_deq (DeqRead p) = True"
| "in_deq (DeqStore p x) = True"
| "in_deq (DeqRet r) = True"
| "in_deq _ = False"

fun taken :: "'a pc \<Rightarrow> 'a option" where
  "taken (DeqStore p x) = Some x"
| "taken (DeqRet r) = r"
| "taken _ = None"

lemma enq_thread_step:
  assumes "thread_step b q pc = Some (q', pc')" "in_enq e pc"
  shows "in_enq e pc' \<and> logged_deq pc pc' = [] \<and> deq_pos q' = deq_pos q \<and>
    logged_enq pc pc' = (if won pc' \<and> \<not> won pc then [e] else []) \<and> (won pc \<longrightarrow> won pc')"
  using assms by (cases pc) (auto simp: Let_def split: if_splits)

lemma deq_thread_step:
  assumes "thread_step b q pc = Some (q', pc')" "in_deq pc"
  shows "in_deq pc' \<and> logged_enq pc pc' = [] \<and> enq_pos q' = enq_pos q \<and>
    map snd (logged_deq pc pc') = (case taken pc' of None \<Rightarrow> [] | Some x \<Rightarrow> if taken pc = None then [x] else []) \<and>
    (taken pc \<noteq> None \<longrightarrow> taken pc' = taken pc)"
  using assms by (cases pc) (auto simp: Let_def split: if_splits)

lemma queue_run_cases:
  assumes "queue_run t b s = Some s'"
  obtains q' pc' where "thread_step b (queue (p_q s)) (pcs (p_q s) t) = Some (q', pc')"
    "s' = s\<lparr>p_q := \<lparr>queue = q', pcs = (pcs (p_q s))(t := pc'),
        enq_log = enq_log (p_q s) @ logged_enq (pcs (p_q s) t) pc',
        deq_log = deq_log (p_q s) @ logged_deq (pcs (p_q s) t) pc'\<rparr>\<rparr>"
  using assms by (auto simp: queue_run_def)

lemma set_q_pc_sel [simp]:
  "p_q (set_q_pc t x s) = (p_q s)\<lparr>pcs := (pcs (p_q s))(t := x)\<rparr>" "p_idx (set_q_pc t x s) = p_idx s"
  "p_work (set_q_pc t x s) = p_work s" "p_mutex (set_q_pc t x s) = p_mutex s" "p_done (set_q_pc t x s) = p_done s"
  "p_produced (set_q_pc t x s) = p_produced s" "p_consumed (set_q_pc t x s) = p_consumed s"
  "p_i (set_q_pc t x s) = p_i s" "p_pc (set_q_pc t x s) = p_pc s" "c_pc (set_q_pc t x s) = c_pc s"
  "c_h (set_q_pc t x s) = c_h s"
  by (simp_all add: set_q_pc_def)

lemma set_c_sel [simp]:
  "p_q (set_c t x s) = p_q s" "p_idx (set_c t x s) = p_idx s" "p_work (set_c t x s) = p_work s"
  "p_mutex (set_c t x s) = p_mutex s" "p_done (set_c t x s) = p_done s" "p_produced (set_c t x s) = p_produced s"
  "p_consumed (set_c t x s) = p_consumed s" "p_i (set_c t x s) = p_i s" "p_pc (set_c t x s) = p_pc s"
  "c_pc (set_c t x s) = (c_pc s)(t := x)" "c_h (set_c t x s) = c_h s"
  by (simp_all add: set_c_def)

subsection \<open>The steps, case by case\<close>

lemma producer_step_cases:
  assumes "producer_step c b now s = Some s'"
  obtains
    (spin) "p_pc s = PNext" "s' = s"
  | (start) e where "p_pc s = PNext" "p_i s < length (pc_qkeys c)" "e_key e = pc_qkeys c ! p_i s"
      "e_op e = pc_ops c ! p_i s" "t_enqueue_ns e = now"
      "s' = s\<lparr>p_lag := p_lag s + (now - pc_sched c ! p_i s), p_pc := PCall e\<rparr>"
  | (stop) "p_pc s = PNext" "length (pc_qkeys c) \<le> p_i s" "s' = s\<lparr>p_done := True, p_pc := PStop\<rparr>"
  | (call) e where "p_pc s = PCall e" "s' = set_q_pc 0 (EnqLoad e) (s\<lparr>p_pc := PWait e\<rparr>)"
  | (success) e where "p_pc s = PWait e" "pcs (p_q s) 0 = EnqRet True" "s' = set_q_pc 0 Ready (s\<lparr>p_pc := PInc\<rparr>)"
  | (full) e where "p_pc s = PWait e" "pcs (p_q s) 0 = EnqRet False"
      "s' = set_q_pc 0 Ready (s\<lparr>p_pc := PCall (e\<lparr>t_enqueue_ns := now\<rparr>)\<rparr>)"
  | (run) e where "p_pc s = PWait e" "queue_run 0 b s = Some s'"
  | (count) "p_pc s = PInc" "s' = s\<lparr>p_produced := p_produced s + 1, p_i := p_i s + 1, p_pc := PNext\<rparr>"
proof (cases "p_pc s")
  case PNext
  then consider "length (pc_qkeys c) \<le> p_i s" | "p_i s < length (pc_qkeys c)" "now \<ge> pc_sched c ! p_i s" |
    "p_i s < length (pc_qkeys c)" "\<not> now \<ge> pc_sched c ! p_i s" by linarith
  then show ?thesis
  proof cases
    case 1
    with PNext assms show ?thesis by (intro stop) (simp_all add: producer_step_def)
  next
    case 2
    with PNext assms show ?thesis
      by (intro start [of "\<lparr>e_key = pc_qkeys c ! p_i s, t_enqueue_ns = now, e_op = pc_ops c ! p_i s,
          e_scan_len = pc_scan_len c\<rparr>"]) (simp_all add: producer_step_def Let_def)
  next
    case 3
    with PNext assms show ?thesis by (intro spin) (simp_all add: producer_step_def)
  qed
next
  case (PCall e)
  with assms show ?thesis by (intro call [OF PCall]) (simp add: producer_step_def)
next
  case (PWait e)
  show ?thesis
  proof (cases "pcs (p_q s) 0")
    case (EnqRet r)
    show ?thesis
    proof (cases r)
      case True
      with PWait EnqRet assms show ?thesis by (intro success [OF PWait]) (simp_all add: producer_step_def)
    next
      case False
      with PWait EnqRet assms show ?thesis by (intro full [OF PWait]) (simp_all add: producer_step_def)
    qed
  qed (use PWait assms in \<open>intro run [OF PWait], simp add: producer_step_def\<close>)+
next
  case PInc
  with assms show ?thesis by (intro count) (simp_all add: producer_step_def)
next
  case PStop
  with assms show ?thesis by (simp add: producer_step_def)
qed

lemma client_step_cases:
  assumes "client_step c t b now s = Some s'"
  obtains
    (call) "c_pc s t = CLoop" "s' = set_q_pc t DeqLoad (set_c t CWait s)"
  | (empty) "c_pc s t = CWait" "pcs (p_q s) t = DeqRet None" "s' = set_q_pc t Ready (set_c t CDone s)"
  | (got) e where "c_pc s t = CWait" "pcs (p_q s) t = DeqRet (Some e)"
      "s' = set_q_pc t Ready (set_c t (CEnter e now) s)"
  | (run) "c_pc s t = CWait" "queue_run t b s = Some s'"
  | (finished) "c_pc s t = CDone" "s' = set_c t (if p_done s then CSize else CLoop) s"
  | (size) "c_pc s t = CSize" "s' = set_c t (CSize2 (enq_pos (queue (p_q s)))) s"
  | (size2) e where "c_pc s t = CSize2 e"
      "s' = set_c t (if e \<le> deq_pos (queue (p_q s)) then CExit else CLoop) s"
  | (enter) e ts mx where "c_pc s t = CEnter e ts"
      "acquire (client_lock (pc_needs_lock c) (e_op e)) t (p_mutex s) = Some mx"
      "s' = set_c t (CIn e ts) (s\<lparr>p_mutex := mx\<rparr>)"
  | (op) e ts idx v where "c_pc s t = CIn e ts"
      "do_op (pc_ix c) (e_op e) (e_key e) (e_scan_len e) (p_idx s) = Some (idx, v)"
      "s' = set_c t (COut e ts v) (s\<lparr>p_idx := idx\<rparr>)"
  | (leave) e ts v where "c_pc s t = COut e ts v"
      "s' = set_c t (CWork e ts now v)
         (s\<lparr>p_mutex := release (client_lock (pc_needs_lock c) (e_op e)) t (p_mutex s)\<rparr>)"
  | (work) e ts te v wl v' where "c_pc s t = CWork e ts te v" "Workload.run v (p_work s) = Some (wl, v')"
      "s' = set_c t CLoop (s\<lparr>p_work := wl,
         c_h := (c_h s)(t := client_record (e_op e) (t_enqueue_ns e) ts te now (c_h s t)),
         c_sink := (c_sink s)(t := c_sink s t XOR v'), p_consumed := p_consumed s + 1\<rparr>)"
proof (cases "c_pc s t")
  case CLoop
  with assms show ?thesis by (intro call) (simp_all add: client_step_def)
next
  case CWait
  show ?thesis
  proof (cases "pcs (p_q s) t")
    case (DeqRet r)
    show ?thesis
    proof (cases r)
      case None
      with CWait DeqRet assms show ?thesis by (intro empty) (simp_all add: client_step_def)
    next
      case (Some e)
      with CWait DeqRet assms show ?thesis by (intro got [of e]) (simp_all add: client_step_def)
    qed
  qed (use CWait assms in \<open>intro run [OF CWait], simp add: client_step_def\<close>)+
next
  case CDone
  with assms show ?thesis by (intro finished) (simp_all add: client_step_def)
next
  case CSize
  with assms show ?thesis by (intro size) (simp_all add: client_step_def)
next
  case (CSize2 e)
  have "(if e \<ge> d then e - d else 0) = 0 \<longleftrightarrow> e \<le> d" for d :: u64 by auto
  with CSize2 assms show ?thesis by (intro size2 [OF CSize2]) (simp add: client_step_def Let_def)
next
  case (CEnter e ts)
  with assms obtain mx where r: "acquire (client_lock (pc_needs_lock c) (e_op e)) t (p_mutex s) = Some mx"
    by (auto simp: client_step_def)
  with CEnter assms show ?thesis by (intro enter [OF CEnter r]) (simp add: client_step_def)
next
  case (CIn e ts)
  with assms obtain idx v where r: "do_op (pc_ix c) (e_op e) (e_key e) (e_scan_len e) (p_idx s) = Some (idx, v)"
    by (auto simp: client_step_def)
  with CIn assms show ?thesis by (intro op [OF CIn r]) (simp add: client_step_def)
next
  case (COut e ts v)
  with assms show ?thesis by (intro leave [OF COut]) (simp add: client_step_def)
next
  case (CWork e ts te v)
  with assms obtain wl v' where r: "Workload.run v (p_work s) = Some (wl, v')"
    by (auto simp: client_step_def)
  with CWork assms show ?thesis by (intro work [OF CWork r]) (simp add: client_step_def)
next
  case CExit
  with assms show ?thesis by (simp add: client_step_def)
qed


subsection \<open>The producer\<close>

definition entry_ok :: "'s poisson_cfg \<Rightarrow> nat \<Rightarrow> QueueEntry \<Rightarrow> bool" where
  "entry_ok c i e \<longleftrightarrow> e_key e = pc_qkeys c ! i \<and> e_op e = pc_ops c ! i"

definition producer_ok :: "'s poisson_cfg \<Rightarrow> 's SharedState \<Rightarrow> bool" where
  "producer_ok c s \<longleftrightarrow>
     (let n = length (enq_log (p_q s)); i = p_i s; pc = pcs (p_q s) 0 in
       i \<le> length (pc_qkeys c) \<and> p_produced s = of_nat i \<and> (p_done s \<longleftrightarrow> p_pc s = PStop) \<and>
       (\<forall>j < n. entry_ok c j (enq_log (p_q s) ! j)) \<and>
       (case p_pc s of
          PNext \<Rightarrow> pc = Ready \<and> n = i
        | PCall e \<Rightarrow> pc = Ready \<and> n = i \<and> i < length (pc_qkeys c) \<and> entry_ok c i e
        | PWait e \<Rightarrow> in_enq e pc \<and> n = (if won pc then Suc i else i) \<and> i < length (pc_qkeys c) \<and> entry_ok c i e
        | PInc \<Rightarrow> pc = Ready \<and> n = Suc i \<and> i < length (pc_qkeys c)
        | PStop \<Rightarrow> pc = Ready \<and> n = i \<and> i = length (pc_qkeys c)))"

lemma producer_log_le: "producer_ok c s \<Longrightarrow> length (enq_log (p_q s)) \<le> length (pc_qkeys c)"
  by (auto simp: producer_ok_def Let_def split: ppc.splits if_splits)

lemma nth_snoc_all:
  "(\<forall>j < Suc (length xs). P j ((xs @ [y]) ! j)) \<longleftrightarrow> (\<forall>j < length xs. P j (xs ! j)) \<and> P (length xs) y"
  by (simp add: less_Suc_eq all_conj_distrib nth_append cong: conj_cong)

lemma producer_ok_run:
  assumes "producer_ok c s" "p_pc s = PWait e" "queue_run 0 b s = Some s'"
  shows "producer_ok c s'"
proof -
  from assms(3) obtain q' pc' where st: "thread_step b (queue (p_q s)) (pcs (p_q s) 0) = Some (q', pc')"
    and s': "s' = s\<lparr>p_q := \<lparr>queue = q', pcs = (pcs (p_q s))(0 := pc'),
        enq_log = enq_log (p_q s) @ logged_enq (pcs (p_q s) 0) pc',
        deq_log = deq_log (p_q s) @ logged_deq (pcs (p_q s) 0) pc'\<rparr>\<rparr>"
    by (rule queue_run_cases)
  have "in_enq e (pcs (p_q s) 0)" using assms(1,2) by (simp add: producer_ok_def Let_def)
  note st = enq_thread_step [OF st this]
  show ?thesis using assms(1,2) st nth_snoc_all [of "enq_log (p_q s)" "entry_ok c" e]
    unfolding s' producer_ok_def Let_def
    by (cases "won pc'"; cases "won (pcs (p_q s) 0)") simp_all
qed

lemma producer_ok_step:
  assumes "producer_ok c s" "producer_step c b now s = Some s'"
  shows "producer_ok c s'"
  using assms(2)
proof (cases rule: producer_step_cases)
  case (run e)
  then show ?thesis using producer_ok_run assms(1) by blast
next
  case (full e)
  then show ?thesis using assms(1) by (simp add: producer_ok_def Let_def entry_ok_def)
qed (use assms(1) in \<open>auto simp: producer_ok_def Let_def entry_ok_def\<close>)

text \<open>What a client changes of what the producer looks at.\<close>

lemma client_frame:
  assumes "client_step c t b now s = Some s'"
    and "c_pc s t = CWait \<Longrightarrow> in_deq (pcs (p_q s) t)"
  shows "p_pc s' = p_pc s \<and> p_i s' = p_i s \<and> p_produced s' = p_produced s \<and> p_done s' = p_done s \<and>
    enq_log (p_q s') = enq_log (p_q s) \<and> (\<forall>u. u \<noteq> t \<longrightarrow> pcs (p_q s') u = pcs (p_q s) u \<and>
    c_pc s' u = c_pc s u \<and> c_h s' u = c_h s u)"
  using assms(1)
proof (cases rule: client_step_cases)
  case run
  from run(2) obtain q' pc' where st: "thread_step b (queue (p_q s)) (pcs (p_q s) t) = Some (q', pc')"
    and s': "s' = s\<lparr>p_q := \<lparr>queue = q', pcs = (pcs (p_q s))(t := pc'),
        enq_log = enq_log (p_q s) @ logged_enq (pcs (p_q s) t) pc',
        deq_log = deq_log (p_q s) @ logged_deq (pcs (p_q s) t) pc'\<rparr>\<rparr>"
    by (rule queue_run_cases)
  from deq_thread_step [OF st assms(2) [OF run(1)]] show ?thesis by (simp add: s')
qed simp_all

lemma producer_frame:
  assumes "producer_step c b now s = Some s'" "producer_ok c s"
  shows "c_pc s' = c_pc s \<and> c_h s' = c_h s \<and> p_mutex s' = p_mutex s \<and> p_idx s' = p_idx s \<and> p_work s' = p_work s \<and>
    p_consumed s' = p_consumed s \<and> deq_log (p_q s') = deq_log (p_q s) \<and>
    deq_pos (queue (p_q s')) = deq_pos (queue (p_q s)) \<and> (\<forall>t \<ge> 1. pcs (p_q s') t = pcs (p_q s) t) \<and>
    (p_done s \<longrightarrow> p_done s')"
  using assms(1)
proof (cases rule: producer_step_cases)
  case (run e)
  from run(2) obtain q' pc' where st: "thread_step b (queue (p_q s)) (pcs (p_q s) 0) = Some (q', pc')"
    and s': "s' = s\<lparr>p_q := \<lparr>queue = q', pcs = (pcs (p_q s))(0 := pc'),
        enq_log = enq_log (p_q s) @ logged_enq (pcs (p_q s) 0) pc',
        deq_log = deq_log (p_q s) @ logged_deq (pcs (p_q s) 0) pc'\<rparr>\<rparr>"
    by (rule queue_run_cases)
  have "in_enq e (pcs (p_q s) 0)" using assms(2) run(1) by (simp add: producer_ok_def Let_def)
  from enq_thread_step [OF st this] show ?thesis by (simp add: s')
qed simp_all

lemma producer_ok_client:
  assumes "producer_ok c s" "client_step c t b now s = Some s'" "1 \<le> t"
    and "c_pc s t = CWait \<Longrightarrow> in_deq (pcs (p_q s) t)"
  shows "producer_ok c s'"
  using client_frame [OF assms(2,4)] assms(1,3) by (simp add: producer_ok_def Let_def)


subsection \<open>The clients\<close>

definition client_ok :: "'s poisson_cfg \<Rightarrow> 's SharedState \<Rightarrow> nat \<Rightarrow> bool" where
  "client_ok c s t \<longleftrightarrow>
     (if c_pc s t = CWait then in_deq (pcs (p_q s) t) else pcs (p_q s) t = Ready) \<and>
     (pc_clients c < t \<longrightarrow> c_pc s t = CLoop) \<and> length (per_op (c_h s t)) = 5 \<and>
     (case c_pc s t of
        CSize \<Rightarrow> p_done s
      | CSize2 e \<Rightarrow> p_done s \<and> e = of_nat (length (pc_qkeys c))
      | CExit \<Rightarrow> p_done s \<and> deq_pos (queue (p_q s)) = of_nat (length (pc_qkeys c))
      | _ \<Rightarrow> True)"

text \<open>What the queue's own invariant gives here.\<close>

definition queue_ok :: "'s poisson_cfg \<Rightarrow> 's SharedState \<Rightarrow> bool" where
  "queue_ok c s \<longleftrightarrow> enq_pos (queue (p_q s)) = of_nat (length (enq_log (p_q s))) \<and>
     unat (deq_pos (queue (p_q s))) \<le> length (enq_log (p_q s)) \<and> length (pc_qkeys c) < 2 ^ 63"

lemma thread_step_deq_pos:
  "thread_step b q pc = Some (q', pc') \<Longrightarrow> deq_pos q' = deq_pos q \<or> deq_pos q' = deq_pos q + 1"
  by (cases pc) (auto simp: Let_def split: if_splits)

lemma client_deq_pos:
  assumes "client_step c t b now s = Some s'"
  shows "deq_pos (queue (p_q s')) = deq_pos (queue (p_q s)) \<or> deq_pos (queue (p_q s')) = deq_pos (queue (p_q s)) + 1"
  using assms
proof (cases rule: client_step_cases)
  case run
  from run(2) show ?thesis by (rule queue_run_cases) (auto dest: thread_step_deq_pos)
qed simp_all

lemma all_dequeued_stays:
  assumes "client_step c t b now s = Some s'" "queue_ok c s'" "length (enq_log (p_q s')) \<le> length (pc_qkeys c)"
    and "deq_pos (queue (p_q s)) = of_nat (length (pc_qkeys c))"
  shows "deq_pos (queue (p_q s')) = of_nat (length (pc_qkeys c))"
proof (rule ccontr)
  let ?N = "length (pc_qkeys c)"
  assume "deq_pos (queue (p_q s')) \<noteq> of_nat ?N"
  then have "deq_pos (queue (p_q s')) = of_nat (Suc ?N)" using client_deq_pos [OF assms(1)] assms(4) by (auto simp: add.commute)
  moreover have "unat (of_nat (Suc ?N) :: u64) = Suc ?N" using assms(2) by (intro unat_of_nat_u64) (simp add: queue_ok_def)
  ultimately show False using assms(2,3) by (simp add: queue_ok_def)
qed

lemma client_ok_self:
  assumes ok: "client_ok c s t" and st: "client_step c t b now s = Some s'" and t: "t \<le> pc_clients c"
    and q: "queue_ok c s" "queue_ok c s'" and p: "producer_ok c s"
  shows "client_ok c s' t"
  using st
proof (cases rule: client_step_cases)
  case run
  have "in_deq (pcs (p_q s) t)" using ok run(1) by (simp add: client_ok_def)
  note d = deq_thread_step [OF _ this]
  from run(2) obtain q' pc' where "thread_step b (queue (p_q s)) (pcs (p_q s) t) = Some (q', pc')"
    "s' = s\<lparr>p_q := \<lparr>queue = q', pcs = (pcs (p_q s))(t := pc'),
        enq_log = enq_log (p_q s) @ logged_enq (pcs (p_q s) t) pc',
        deq_log = deq_log (p_q s) @ logged_deq (pcs (p_q s) t) pc'\<rparr>\<rparr>" by (rule queue_run_cases)
  then show ?thesis using d ok run(1) t by (simp add: client_ok_def)
next
  case size
  then have "p_pc s = PStop" using ok p by (auto simp: client_ok_def producer_ok_def Let_def)
  then have "length (enq_log (p_q s)) = length (pc_qkeys c)" using p by (simp add: producer_ok_def Let_def)
  with size q(1) ok t show ?thesis by (simp add: client_ok_def queue_ok_def)
next
  case (size2 e)
  have e: "e = of_nat (length (pc_qkeys c))" "p_done s" using ok size2 by (simp_all add: client_ok_def)
  have "deq_pos (queue (p_q s)) = of_nat (length (pc_qkeys c))" if "e \<le> deq_pos (queue (p_q s))"
  proof -
    have "unat (of_nat (length (pc_qkeys c)) :: u64) = length (pc_qkeys c)"
      using q(1) by (intro unat_of_nat_u64) (simp add: queue_ok_def)
    then show ?thesis using that q(1) producer_log_le [OF p] e(1)
      by (simp add: queue_ok_def word_le_nat_alt word_eq_iff_unat)
  qed
  with size2 e ok t show ?thesis by (simp add: client_ok_def)
qed (use ok t in \<open>simp_all add: client_ok_def\<close>)

lemma client_ok_other:
  assumes ok: "client_ok c s u" "client_ok c s t" and st: "client_step c t b now s = Some s'" and u: "u \<noteq> t"
    and q: "queue_ok c s'" and p: "producer_ok c s"
  shows "client_ok c s' u"
proof -
  note f = client_frame [OF st]
  have "c_pc s t = CWait \<Longrightarrow> in_deq (pcs (p_q s) t)" using ok(2) by (simp add: client_ok_def)
  note f = f [OF this]
  have le: "length (enq_log (p_q s')) \<le> length (pc_qkeys c)" using f producer_log_le [OF p] by simp
  show ?thesis using ok(1) f u all_dequeued_stays [OF st q le]
    by (cases "c_pc s u") (simp_all add: client_ok_def)
qed

lemma client_ok_producer:
  assumes "client_ok c s t" "producer_step c b now s = Some s'" "producer_ok c s" "1 \<le> t"
  shows "client_ok c s' t"
  using producer_frame [OF assms(2,3)] assms(1,4) by (cases "c_pc s t") (simp_all add: client_ok_def)

subsection \<open>The lock\<close>

definition cheld :: "'s poisson_cfg \<Rightarrow> cpc \<Rightarrow> lock_mode option" where
  "cheld c pc = (case pc of CIn e ts \<Rightarrow> client_lock (pc_needs_lock c) (e_op e)
     | COut e ts v \<Rightarrow> client_lock (pc_needs_lock c) (e_op e) | _ \<Rightarrow> None)"

lemma cheld_simps [simp]:
  "cheld c (CIn e ts) = client_lock (pc_needs_lock c) (e_op e)"
  "cheld c (COut e ts v) = client_lock (pc_needs_lock c) (e_op e)"
  "cheld c CLoop = None" "cheld c CWait = None" "cheld c CDone = None" "cheld c CSize = None"
  "cheld c (CSize2 x) = None" "cheld c (CEnter e ts) = None" "cheld c (CWork e ts te v) = None" "cheld c CExit = None"
  by (simp_all add: cheld_def)

definition clock_inv :: "'s poisson_cfg \<Rightarrow> 's SharedState \<Rightarrow> bool" where
  "clock_inv c s \<longleftrightarrow> mutex_ok (p_mutex s) (\<lambda>t. cheld c (c_pc s t))"

lemma clock_inv_client:
  assumes "clock_inv c s" "client_step c t b now s = Some s'"
  shows "clock_inv c s'"
proof -
  let ?H = "\<lambda>t. cheld c (c_pc s t)"
  have ok: "mutex_ok (p_mutex s) ?H" using assms(1) by (simp add: clock_inv_def)
  have upd: "clock_inv c s' \<longleftrightarrow> mutex_ok (p_mutex s') (?H(t := cheld c (c_pc s' t)))"
    if "\<forall>u. u \<noteq> t \<longrightarrow> c_pc s' u = c_pc s u"
  proof -
    have "(\<lambda>u. cheld c (c_pc s' u)) = ?H(t := cheld c (c_pc s' t))" using that by auto
    then show ?thesis by (simp add: clock_inv_def)
  qed
  have same: "clock_inv c s'" if "\<forall>u. u \<noteq> t \<longrightarrow> c_pc s' u = c_pc s u" "p_mutex s' = p_mutex s"
    "cheld c (c_pc s' t) = ?H t"
    using ok unfolding upd [OF that(1)] that by (simp add: fun_upd_idem)
  show ?thesis using assms(2)
  proof (cases rule: client_step_cases)
    case run
    from run(2) show ?thesis by (rule queue_run_cases) (use assms(1) in \<open>simp add: clock_inv_def\<close>)
  next
    case (enter e ts mx)
    then have "mutex_ok mx (?H(t := client_lock (pc_needs_lock c) (e_op e)))"
      by (intro mutex_ok_acquire [OF ok]) simp_all
    with enter show ?thesis by (subst upd, simp) simp
  next
    case (leave e ts v)
    then have "mutex_ok (release (client_lock (pc_needs_lock c) (e_op e)) t (p_mutex s)) (?H(t := None))"
      by (intro mutex_ok_release [OF ok]) simp_all
    with leave show ?thesis by (subst upd, simp) simp
  qed (rule same; simp)+
qed


subsection \<open>Counting the entries\<close>

text \<open>The entry a client has taken out of the queue and not yet recorded.\<close>

definition in_hand :: "'s SharedState \<Rightarrow> nat \<Rightarrow> QueueEntry option" where
  "in_hand s t = (case c_pc s t of CWait \<Rightarrow> taken (pcs (p_q s) t) | CEnter e ts \<Rightarrow> Some e | CIn e ts \<Rightarrow> Some e
     | COut e ts v \<Rightarrow> Some e | CWork e ts te v \<Rightarrow> Some e | _ \<Rightarrow> None)"

text \<open>A measure of histograms that grows by the weight of an entry when it is recorded.\<close>

definition counts :: "(QueueEntry \<Rightarrow> u64) \<Rightarrow> (OpHists \<Rightarrow> u64) \<Rightarrow> bool" where
  "counts wt cnt \<longleftrightarrow> cnt OpHists_init = 0 \<and> (\<forall>e q a b d h. length (per_op h) = 5 \<longrightarrow>
     cnt (client_record (e_op e) q a b d h) = cnt h + wt e)"

definition share :: "(QueueEntry \<Rightarrow> u64) \<Rightarrow> (OpHists \<Rightarrow> u64) \<Rightarrow> 's SharedState \<Rightarrow> nat \<Rightarrow> u64" where
  "share wt cnt s t = cnt (c_h s t) + (case in_hand s t of None \<Rightarrow> 0 | Some e \<Rightarrow> wt e)"

lemma share_client:
  assumes "client_step c t b now s = Some s'" "client_ok c s t" "counts wt cnt"
  shows "\<exists>es. map snd (deq_log (p_q s')) = map snd (deq_log (p_q s)) @ es \<and>
    share wt cnt s' t = share wt cnt s t + sum_list (map wt es)"
  using assms(1)
proof (cases rule: client_step_cases)
  case run
  have "in_deq (pcs (p_q s) t)" using assms(2) run(1) by (simp add: client_ok_def)
  note d = deq_thread_step [OF _ this]
  from run(2) obtain q' pc' where "thread_step b (queue (p_q s)) (pcs (p_q s) t) = Some (q', pc')"
    "s' = s\<lparr>p_q := \<lparr>queue = q', pcs = (pcs (p_q s))(t := pc'),
        enq_log = enq_log (p_q s) @ logged_enq (pcs (p_q s) t) pc',
        deq_log = deq_log (p_q s) @ logged_deq (pcs (p_q s) t) pc'\<rparr>\<rparr>" by (rule queue_run_cases)
  then show ?thesis using d [of b] run(1) by (auto simp: share_def in_hand_def split: option.splits)
next
  case (work e ts te v wl v')
  then show ?thesis using assms(2,3) by (auto simp: share_def in_hand_def counts_def client_ok_def)
qed (use assms(2) in \<open>simp_all add: share_def in_hand_def client_ok_def split: option.split\<close>)

definition shares :: "(QueueEntry \<Rightarrow> u64) \<Rightarrow> (OpHists \<Rightarrow> u64) \<Rightarrow> 's poisson_cfg \<Rightarrow> 's SharedState \<Rightarrow> u64" where
  "shares wt cnt c s = (\<Sum>t \<in> {1..pc_clients c}. share wt cnt s t)"

definition accounted :: "'s poisson_cfg \<Rightarrow> 's SharedState \<Rightarrow> bool" where
  "accounted c s \<longleftrightarrow> (\<forall>wt cnt. counts wt cnt \<longrightarrow>
     shares wt cnt c s = (\<Sum>x \<leftarrow> deq_log (p_q s). wt (snd x))) \<and>
     p_consumed s = (\<Sum>t \<in> {1..pc_clients c}. h_total (total (c_h s t)))"

lemma sum_change:
  fixes f g :: "nat \<Rightarrow> u64"
  assumes "finite A" "t \<in> A" "\<forall>u. u \<noteq> t \<longrightarrow> g u = f u" "g t = f t + d"
  shows "sum g A = sum f A + d"
proof -
  have "sum g (A - {t}) = sum f (A - {t})" using assms(3) by (intro sum.cong) auto
  then show ?thesis using assms by (simp add: sum.remove [of A t])
qed

lemma accounted_client:
  assumes "accounted c s" "client_step c t b now s = Some s'" "client_ok c s t" "1 \<le> t" "t \<le> pc_clients c"
  shows "accounted c s'"
proof -
  have "c_pc s t = CWait \<Longrightarrow> in_deq (pcs (p_q s) t)" using assms(3) by (simp add: client_ok_def)
  note f = client_frame [OF assms(2) this]
  have t: "t \<in> {1..pc_clients c}" using assms(4,5) by simp
  have "shares wt cnt c s' = (\<Sum>x \<leftarrow> deq_log (p_q s'). wt (snd x))" if cw: "counts wt cnt" for wt cnt
  proof -
    from share_client [OF assms(2,3) cw] obtain es where
      es: "map snd (deq_log (p_q s')) = map snd (deq_log (p_q s)) @ es"
      "share wt cnt s' t = share wt cnt s t + sum_list (map wt es)" by blast
    have "\<forall>u. u \<noteq> t \<longrightarrow> share wt cnt s' u = share wt cnt s u"
      using f by (simp add: share_def in_hand_def cong: cpc.case_cong)
    from sum_change [OF _ t this es(2)] have
      "shares wt cnt c s' = shares wt cnt c s + sum_list (map wt es)" by (simp add: shares_def)
    also have "shares wt cnt c s = sum_list (map wt (map snd (deq_log (p_q s))))"
      using assms(1) cw by (simp add: accounted_def comp_def)
    finally have "shares wt cnt c s' = sum_list (map wt (map snd (deq_log (p_q s'))))" unfolding es(1) by simp
    then show ?thesis by (simp add: comp_def)
  qed
  moreover have "\<exists>d. h_total (total (c_h s' t)) = h_total (total (c_h s t)) + d \<and> p_consumed s' = p_consumed s + d"
    using assms(2)
  proof (cases rule: client_step_cases)
    case run
    from run(2) show ?thesis by (rule queue_run_cases) simp
  qed (use assms(3) in \<open>simp_all add: client_ok_def\<close>)
  then have "p_consumed s' = (\<Sum>t \<in> {1..pc_clients c}. h_total (total (c_h s' t)))"
    using sum_change [OF _ t, of "\<lambda>t. h_total (total (c_h s' t))" "\<lambda>t. h_total (total (c_h s t))"] f assms(1)
    by (auto simp: accounted_def)
  ultimately show ?thesis by (simp add: accounted_def)
qed

lemma accounted_producer:
  assumes "accounted c s" "producer_step c b now s = Some s'" "producer_ok c s"
  shows "accounted c s'"
proof -
  note f = producer_frame [OF assms(2,3)]
  have "share wt cnt s' t = share wt cnt s t" if "t \<in> {1..pc_clients c}" for wt cnt t
  proof -
    have "pcs (p_q s') t = pcs (p_q s) t" using f that by simp
    with f show ?thesis by (simp add: share_def in_hand_def cong: cpc.case_cong)
  qed
  then have "shares wt cnt c s' = shares wt cnt c s" for wt cnt by (simp add: shares_def)
  with assms(1) f show ?thesis by (simp add: accounted_def)
qed


subsection \<open>The whole system\<close>

lemma queue_run_mpmc: "queue_run t b s = Some s' \<Longrightarrow> mpmc_step (p_q s) (p_q s')"
  by (erule queue_run_cases) (auto intro: mpmc_step.run)

lemma producer_mpmc:
  assumes "producer_step c b now s = Some s'" "producer_ok c s"
  shows "p_q s' = p_q s \<or> mpmc_step (p_q s) (p_q s')"
  using assms(1)
proof (cases rule: producer_step_cases)
  case (call e)
  then have "pcs (p_q s) 0 = Ready" using assms(2) by (simp add: producer_ok_def Let_def)
  from mpmc_step.call_enqueue [OF this, of e] call show ?thesis by simp
qed (auto dest: queue_run_mpmc intro: mpmc_step.return_enqueue)

lemma client_mpmc:
  assumes "client_step c t b now s = Some s'" "client_ok c s t"
  shows "p_q s' = p_q s \<or> mpmc_step (p_q s) (p_q s')"
  using assms(1)
proof (cases rule: client_step_cases)
  case call
  then have "pcs (p_q s) t = Ready" using assms(2) by (simp add: client_ok_def)
  from mpmc_step.call_dequeue [OF this] call show ?thesis by simp
qed (auto dest: queue_run_mpmc intro: mpmc_step.return_dequeue)

definition poisson_inv :: "'s poisson_cfg \<Rightarrow> QueueEntry MPMCQueue \<Rightarrow> 's SharedState \<Rightarrow> bool" where
  "poisson_inv c q s \<longleftrightarrow> mpmc_reachable q (p_q s) \<and> producer_ok c s \<and> (\<forall>t \<ge> 1. client_ok c s t) \<and>
     clock_inv c s \<and> accounted c s \<and> c_pc s 0 = CLoop"

lemma poisson_inv_init: "poisson_inv c q (poisson_init q s0 work)"
proof -
  have "share wt cnt (poisson_init q s0 work) t = 0" if "counts wt cnt" for wt cnt t
    using that by (simp add: share_def in_hand_def poisson_init_def counts_def)
  then have "accounted c (poisson_init q s0 work)"
    by (simp add: accounted_def shares_def poisson_init_def mpmc_init_def)
  moreover have "mpmc_reachable q (p_q (poisson_init q s0 work))"
    by (simp add: poisson_init_def mpmc_reachable.init)
  ultimately show ?thesis
    by (simp add: poisson_inv_def producer_ok_def client_ok_def clock_inv_def poisson_init_def mpmc_init_def
        mutex_ok_init)
qed

text \<open>The queue fits the run: its constructor succeeded with room for at least two entries, and the
  positions do not wrap around.\<close>

definition queue_fits :: "'s poisson_cfg \<Rightarrow> QueueEntry MPMCQueue \<Rightarrow> bool" where
  "queue_fits c q \<longleftrightarrow> (\<exists>dflt cap. MPMCQueue_new dflt cap = Some q \<and> 2 \<le> unat cap \<and>
     length (pc_qkeys c) + unat cap < 2 ^ 63)"

lemma queue_ok_reachable:
  assumes "queue_fits c q" "mpmc_reachable q (p_q s)" "length (enq_log (p_q s)) \<le> length (pc_qkeys c)"
  shows "queue_ok c s"
proof -
  from assms(1) obtain dflt cap where n: "MPMCQueue_new dflt cap = Some q" "2 \<le> unat cap"
    "length (pc_qkeys c) + unat cap < 2 ^ 63" by (auto simp: queue_fits_def)
  then have "length (enq_log (p_q s)) + unat cap < 2 ^ 63" using assms(3) by linarith
  with n assms(2) obtain k tk full where "mpmc_inv (p_q s) k tk full" by (metis reachable_facts)
  then show ?thesis using n(3) by (simp add: queue_ok_def mpmc_inv_def)
qed

lemma poisson_inv_step:
  assumes "poisson_inv c q s" "poisson_step c s s'" "queue_fits c q"
  shows "poisson_inv c q s'"
  using assms(2)
proof cases
  case (producer b now)
  have p: "producer_ok c s" using assms(1) by (simp add: poisson_inv_def)
  have "mpmc_reachable q (p_q s')"
    using producer_mpmc [OF producer p] assms(1) by (metis mpmc_reachable.step poisson_inv_def)
  moreover have "clock_inv c s'" using producer_frame [OF producer p] assms(1) by (simp add: poisson_inv_def clock_inv_def)
  ultimately show ?thesis
    using producer_ok_step [OF p producer] client_ok_producer [OF _ producer p] accounted_producer [OF _ producer p]
      producer_frame [OF producer p] assms(1) by (simp add: poisson_inv_def)
next
  case (client t b now)
  have p: "producer_ok c s" and ok: "client_ok c s u" if "1 \<le> u" for u using assms(1) that by (simp_all add: poisson_inv_def)
  have w: "c_pc s t = CWait \<Longrightarrow> in_deq (pcs (p_q s) t)" using ok [OF client(1)] by (simp add: client_ok_def)
  note f = client_frame [OF client(3) w]
  have p: "producer_ok c s" using assms(1) by (simp add: poisson_inv_def)
  have p': "producer_ok c s'" by (rule producer_ok_client [OF p client(3,1) w])
  have r: "mpmc_reachable q (p_q s')"
    using client_mpmc [OF client(3) ok [OF client(1)]] assms(1) by (metis mpmc_reachable.step poisson_inv_def)
  have q: "queue_ok c s" "queue_ok c s'"
    using queue_ok_reachable [OF assms(3)] assms(1) r producer_log_le [OF p] producer_log_le [OF p']
    by (auto simp: poisson_inv_def)
  have "client_ok c s' u" if "1 \<le> u" for u
    using client_ok_self [OF ok [OF client(1)] client(3,2) q p]
      client_ok_other [OF ok [OF that] ok [OF client(1)] client(3) _ q(2) p] by (cases "u = t") simp_all
  then show ?thesis
    using p' r clock_inv_client [OF _ client(3)] accounted_client [OF _ client(3) ok [OF client(1)] client(1,2)]
      f client(1) assms(1) by (simp add: poisson_inv_def)
qed

lemma poisson_reachable_inv:
  assumes "poisson_reachable c q s0 work s" "queue_fits c q"
  shows "poisson_inv c q s"
  using assms(1)
proof (induction rule: poisson_reachable.induct)
  case (step s s')
  then show ?case using poisson_inv_step assms(2) by blast
qed (rule poisson_inv_init)

subsection \<open>The end of a run\<close>

lemma mset_enumerate: "mset (map snd (enumerate n xs)) = mset xs"
  by simp

lemma finished_log:
  assumes inv: "poisson_inv c q s" and q: "queue_fits c q" and fin: "poisson_finished c s" and n: "1 \<le> pc_clients c"
  shows "mset (map snd (deq_log (p_q s))) = mset (enq_log (p_q s))"
    and "length (enq_log (p_q s)) = length (pc_qkeys c)" "p_i s = length (pc_qkeys c)"
proof -
  let ?Q = "p_q s" let ?N = "length (pc_qkeys c)"
  have p: "producer_ok c s" and cl: "\<And>t. 1 \<le> t \<Longrightarrow> client_ok c s t" using inv by (simp_all add: poisson_inv_def)
  show len: "length (enq_log ?Q) = ?N" "p_i s = ?N" using p fin by (simp_all add: producer_ok_def poisson_finished_def Let_def)
  have ready: "\<forall>t. pcs ?Q t = Ready"
  proof
    fix t show "pcs ?Q t = Ready"
    proof (cases "t = 0")
      case True
      then show ?thesis using p fin by (simp add: producer_ok_def poisson_finished_def Let_def)
    next
      case False
      then have "c_pc s t = CExit \<or> c_pc s t = CLoop" using cl [of t] fin
        by (cases "t \<le> pc_clients c") (simp_all add: poisson_finished_def client_ok_def)
      then show ?thesis using cl [of t] False by (auto simp: client_ok_def)
    qed
  qed
  from q obtain dflt cap where nw: "MPMCQueue_new dflt cap = Some q" "2 \<le> unat cap" "?N + unat cap < 2 ^ 63"
    by (auto simp: queue_fits_def)
  have r: "mpmc_reachable q ?Q" using inv by (simp add: poisson_inv_def)
  have "length (enq_log ?Q) + unat cap < 2 ^ 63" using nw(3) len by simp
  from reachable_facts [OF nw(1,2) r this] obtain k tk full where
    k: "mpmc_inv ?Q k tk full" "log_ok ?Q" "length (enq_log ?Q) + 2 ^ k < 2 ^ 63" .
  have "c_pc s 1 = CExit" using fin n by (simp add: poisson_finished_def)
  then have "deq_pos (queue ?Q) = of_nat ?N" using cl [of 1] by (simp add: client_ok_def)
  then have d: "unat (deq_pos (queue ?Q)) = ?N" using nw(3) by (simp add: unat_of_nat_u64)
  from quiescent_log [OF k(1,2) _ k(3)] ready d len(1)
  have "set (deq_log ?Q) = set (enumerate 0 (enq_log ?Q))" by simp
  moreover have "distinct (deq_log ?Q)" using k(2) by (simp add: log_ok_def distinct_map)
  moreover have "distinct (enumerate 0 (enq_log ?Q))" by (rule distinct_enumerate)
  ultimately have "mset (deq_log ?Q) = mset (enumerate 0 (enq_log ?Q))" by (simp add: set_eq_iff_mset_eq_distinct)
  then have "image_mset snd (mset (deq_log ?Q)) = image_mset snd (mset (enumerate 0 (enq_log ?Q)))" by simp
  then show "mset (map snd (deq_log ?Q)) = mset (enq_log ?Q)" by (metis mset_map mset_enumerate)
qed


text \<open>An entry in a client's hand has been taken out of the queue, so it is one of the queries.\<close>

definition hands_ok :: "'s SharedState \<Rightarrow> bool" where
  "hands_ok s \<longleftrightarrow> (\<forall>t \<ge> 1. \<forall>e. in_hand s t = Some e \<longrightarrow> e \<in> snd ` set (deq_log (p_q s)))"

lemma hands_ok_client:
  assumes "hands_ok s" "client_step c t b now s = Some s'" "client_ok c s t" "1 \<le> t"
  shows "hands_ok s'"
proof -
  have w: "c_pc s t = CWait \<Longrightarrow> in_deq (pcs (p_q s) t)" using assms(3) by (simp add: client_ok_def)
  note f = client_frame [OF assms(2) w]
  have "(in_hand s' t = in_hand s t \<or> in_hand s' t = None \<or> (\<exists>e. in_hand s' t = Some e \<and> e \<in> snd ` set (deq_log (p_q s')))) \<and>
    set (deq_log (p_q s)) \<subseteq> set (deq_log (p_q s'))"
    using assms(2)
  proof (cases rule: client_step_cases)
    case run
    from run(2) obtain q' pc' where st: "thread_step b (queue (p_q s)) (pcs (p_q s) t) = Some (q', pc')"
      and s': "s' = s\<lparr>p_q := \<lparr>queue = q', pcs = (pcs (p_q s))(t := pc'),
        enq_log = enq_log (p_q s) @ logged_enq (pcs (p_q s) t) pc',
        deq_log = deq_log (p_q s) @ logged_deq (pcs (p_q s) t) pc'\<rparr>\<rparr>" by (rule queue_run_cases)
    have d: "map snd (logged_deq (pcs (p_q s) t) pc') =
        (case taken pc' of None \<Rightarrow> [] | Some x \<Rightarrow> if taken (pcs (p_q s) t) = None then [x] else [])"
      "taken (pcs (p_q s) t) \<noteq> None \<longrightarrow> taken pc' = taken (pcs (p_q s) t)"
      using deq_thread_step [OF st w [OF run(1)]] by blast+
    have "e \<in> snd ` set (deq_log (p_q s'))" if "taken pc' = Some e" "taken (pcs (p_q s) t) = None" for e
    proof -
      have "set (map snd (logged_deq (pcs (p_q s) t) pc')) = {e}" using d(1) that by simp
      then show ?thesis unfolding s' by (simp add: image_Un)
    qed
    with d(2) run(1) show ?thesis by (cases "taken pc'"; cases "taken (pcs (p_q s) t)") (auto simp: in_hand_def s')
  qed (simp_all add: in_hand_def split: if_split)
  moreover have "in_hand s' u = in_hand s u" if "u \<noteq> t" for u using f that by (simp add: in_hand_def cong: cpc.case_cong)
  ultimately show ?thesis using assms(1,4) unfolding hands_ok_def
    by (metis (no_types, lifting) image_mono option.distinct(1) option.inject subsetD)
qed

lemma hands_ok_producer:
  assumes "hands_ok s" "producer_step c b now s = Some s'" "producer_ok c s"
  shows "hands_ok s'"
proof -
  note f = producer_frame [OF assms(2,3)]
  have "in_hand s' t = in_hand s t" if "1 \<le> t" for t
  proof -
    have "pcs (p_q s') t = pcs (p_q s) t" using f that by blast
    with f show ?thesis by (simp add: in_hand_def cong: cpc.case_cong)
  qed
  with f assms(1) show ?thesis by (simp add: hands_ok_def)
qed

lemma poisson_hands_ok:
  assumes "poisson_reachable c q s0 work s" "queue_fits c q"
  shows "hands_ok s"
  using assms(1)
proof (induction rule: poisson_reachable.induct)
  case start
  then show ?case by (simp add: hands_ok_def in_hand_def poisson_init_def)
next
  case (step s s')
  have inv: "poisson_inv c q s" by (rule poisson_reachable_inv [OF step.hyps(1) assms(2)])
  from step.hyps(2) show ?case
  proof cases
    case (producer b now)
    then show ?thesis using hands_ok_producer [OF step.IH] inv by (auto simp: poisson_inv_def)
  next
    case (client t b now)
    then show ?thesis using hands_ok_client [OF step.IH client(3)] inv by (auto simp: poisson_inv_def)
  qed
qed

lemma in_hand_query:
  assumes "poisson_reachable c q s0 work s" "queue_fits c q" "1 \<le> t" "in_hand s t = Some e"
  shows "\<exists>i < length (pc_qkeys c). e_key e = pc_qkeys c ! i \<and> e_op e = pc_ops c ! i"
proof -
  have inv: "poisson_inv c q s" by (rule poisson_reachable_inv [OF assms(1,2)])
  then have p: "producer_ok c s" and r: "mpmc_reachable q (p_q s)" by (simp_all add: poisson_inv_def)
  from assms(2) obtain dflt cap where nw: "MPMCQueue_new dflt cap = Some q" "2 \<le> unat cap"
    "length (pc_qkeys c) + unat cap < 2 ^ 63" by (auto simp: queue_fits_def)
  have "length (enq_log (p_q s)) + unat cap < 2 ^ 63" using nw(3) producer_log_le [OF p] by linarith
  from reachable_facts [OF nw(1,2) r this] obtain k tk full where
    k: "mpmc_inv (p_q s) k tk full" "log_ok (p_q s)" by blast
  have "e \<in> snd ` set (deq_log (p_q s))" using poisson_hands_ok [OF assms(1,2)] assms(3,4) by (simp add: hands_ok_def)
  then obtain i where "(i, e) \<in> set (deq_log (p_q s))" by force
  then have "i < unat (deq_pos (queue (p_q s)))" "e = enq_log (p_q s) ! i" using k(2) by (auto simp: log_ok_def)
  then have i: "i < length (enq_log (p_q s))" using k(1) by (simp add: mpmc_inv_def)
  then have "entry_ok c i e" using p \<open>e = enq_log (p_q s) ! i\<close> by (simp add: producer_ok_def Let_def)
  with i producer_log_le [OF p] show ?thesis unfolding entry_ok_def by (meson less_le_trans)
qed


subsection \<open>Properties\<close>

lemma counts_op: "counts (\<lambda>e. if e_op e = op then 1 else 0) (op_total op)"
  by (simp add: counts_def)

lemma counts_total: "counts (\<lambda>e. 1) (\<lambda>h. h_total (total h))"
  by (simp add: counts_def)

lemma sum_clients: "(\<Sum>t \<leftarrow> [0..<n]. f (Suc t)) = (\<Sum>t \<in> {1..n}. f t :: u64)"
proof -
  have "(\<Sum>t \<in> {1..n}. f t) = (\<Sum>t \<in> {0..<n}. f (Suc t))"
    by (simp add: sum.shift_bounds_Suc_ivl [symmetric] atLeastLessThanSuc_atLeastAtMost)
  then show ?thesis by (simp add: sum_set_upt_conv_sum_list_nat [symmetric])
qed

lemma finished_shares:
  assumes "poisson_finished c s"
  shows "shares wt cnt c s = (\<Sum>t \<leftarrow> [0..<pc_clients c]. cnt (c_h s (Suc t)))"
proof -
  have "share wt cnt s t = cnt (c_h s t)" if "t \<in> {1..pc_clients c}" for t
    using assms that by (simp add: share_def in_hand_def poisson_finished_def)
  then have "shares wt cnt c s = (\<Sum>t \<in> {1..pc_clients c}. cnt (c_h s t))"
    unfolding shares_def by (intro sum.cong) simp_all
  then show ?thesis using sum_clients [of "\<lambda>t. cnt (c_h s t)"] by simp
qed

lemma finished_count:
  assumes inv: "poisson_inv c q s" and q: "queue_fits c q" and fin: "poisson_finished c s" and n: "1 \<le> pc_clients c"
    and cw: "counts wt cnt"
  shows "(\<Sum>t \<leftarrow> [0..<pc_clients c]. cnt (c_h s (Suc t))) = sum_list (map wt (enq_log (p_q s)))"
proof -
  have "(\<Sum>t \<leftarrow> [0..<pc_clients c]. cnt (c_h s (Suc t))) = sum_list (map wt (map snd (deq_log (p_q s))))"
    using inv cw finished_shares [OF fin, of wt cnt] by (simp add: poisson_inv_def accounted_def comp_def)
  also have "\<dots> = sum_mset (image_mset wt (mset (map snd (deq_log (p_q s)))))"
    by (simp add: sum_mset_sum_list [symmetric] image_mset.compositionality comp_def)
  also have "\<dots> = sum_list (map wt (enq_log (p_q s)))"
    unfolding finished_log(1) [OF inv q fin n] by (simp add: sum_mset_sum_list [symmetric])
  finally show ?thesis .
qed

lemma sum_list_indicator: "(\<Sum>e \<leftarrow> xs. if f e = y then 1 else 0 :: u64) = of_nat (count_list (map f xs) y)"
  by (induction xs) simp_all

lemma sum_list_ones: "(\<Sum>e \<leftarrow> xs. 1 :: u64) = of_nat (length xs)"
  by (induction xs) simp_all

lemma poisson_totals:
  assumes "queue_fits c q" "1 \<le> pc_clients c" "length (pc_ops c) = length (pc_qkeys c)"
    and "poisson_reachable c q s0 work s" "poisson_finished c s"
  shows "mset (map (\<lambda>(i, e). (e_key e, e_op e)) (deq_log (p_q s))) = mset (zip (pc_qkeys c) (pc_ops c)) \<and>
    r_produced (poisson_result c wall lams s) = of_nat (length (pc_qkeys c)) \<and>
    r_consumed (poisson_result c wall lams s) = of_nat (length (pc_qkeys c)) \<and>
    h_total (total (r_h (poisson_result c wall lams s))) = of_nat (length (pc_qkeys c)) \<and>
    (\<forall>op. op_total op (r_h (poisson_result c wall lams s)) = of_nat (count_list (pc_ops c) op))"
proof -
  have inv: "poisson_inv c q s" by (rule poisson_reachable_inv [OF assms(4,1)])
  then have p: "producer_ok c s" and acc: "accounted c s" by (simp_all add: poisson_inv_def)
  note log = finished_log [OF inv assms(1,5,2)]
  have ops: "map (\<lambda>e. (e_key e, e_op e)) (enq_log (p_q s)) = zip (pc_qkeys c) (pc_ops c)"
    using p log(2) assms(3) by (intro nth_equalityI) (simp_all add: producer_ok_def Let_def entry_ok_def)
  have "mset (map (\<lambda>(i, e). (e_key e, e_op e)) (deq_log (p_q s))) =
      image_mset (\<lambda>e. (e_key e, e_op e)) (mset (map snd (deq_log (p_q s))))"
    by (simp add: image_mset.compositionality comp_def case_prod_unfold)
  also have "\<dots> = mset (zip (pc_qkeys c) (pc_ops c))" unfolding log(1) ops [symmetric] by simp
  finally have entries: "mset (map (\<lambda>(i, e). (e_key e, e_op e)) (deq_log (p_q s))) = mset (zip (pc_qkeys c) (pc_ops c))" .
  have eo: "map e_op (enq_log (p_q s)) = pc_ops c"
    using arg_cong [OF ops, of "map snd"] assms(3) by (simp add: comp_def)
  note cnt = finished_count [OF inv assms(1,5,2)]
  have "op_total op (r_h (poisson_result c wall lams s)) = of_nat (count_list (pc_ops c) op)" for op
    using cnt [OF counts_op, of op] unfolding sum_list_indicator eo
    by (simp add: poisson_result_def op_total_foldl comp_def)
  moreover have tot: "(\<Sum>t \<leftarrow> [0..<pc_clients c]. h_total (total (c_h s (Suc t)))) = of_nat (length (pc_qkeys c))"
    using cnt [OF counts_total] unfolding sum_list_ones log(2) .
  moreover have "p_consumed s = of_nat (length (pc_qkeys c))"
    using acc tot sum_clients [of "\<lambda>t. h_total (total (c_h s t))"] by (simp add: accounted_def)
  moreover have "p_produced s = of_nat (length (pc_qkeys c))" using p log(3) by (simp add: producer_ok_def Let_def)
  ultimately show ?thesis using entries by (simp add: poisson_result_def op_total_foldl comp_def)
qed

text \<open>C10. When producer and clients have ended, every query has been performed exactly once, whatever the
  interleaving of producer, clients and the steps inside the queue: the entries taken out of the
  queue are the query stream's keys with their operations, produced and consumed equal the number of
  queries, and the merged histograms count every query once and under its operation.\<close>

theorem poisson_exactly_once:
  assumes "queue_fits c q" "1 \<le> pc_clients c" "length (pc_ops c) = length (pc_qkeys c)"
    and "poisson_reachable c q s0 work s" "poisson_finished c s"
  shows "mset (map (\<lambda>(i, e). (e_key e, e_op e)) (deq_log (p_q s))) = mset (zip (pc_qkeys c) (pc_ops c)) \<and>
    r_produced (poisson_result c wall lams s) = of_nat (length (pc_qkeys c)) \<and>
    r_consumed (poisson_result c wall lams s) = of_nat (length (pc_qkeys c)) \<and>
    h_total (total (r_h (poisson_result c wall lams s))) = of_nat (length (pc_qkeys c)) \<and>
    (\<forall>op. op_total op (r_h (poisson_result c wall lams s)) = of_nat (count_list (pc_ops c) op))"
  using assms by (rule poisson_totals)


text \<open>Schedules of the threads, for the examples: thread 0 is the producer.\<close>

fun run_threads :: "'s poisson_cfg \<Rightarrow> (nat \<times> u64) list \<Rightarrow> 's SharedState \<Rightarrow> 's SharedState option" where
  "run_threads c [] s = Some s"
| "run_threads c ((t, now) # rest) s =
     (case (if t = 0 then producer_step c False now s else if t \<le> pc_clients c then client_step c t False now s else None) of
        None \<Rightarrow> None | Some s' \<Rightarrow> run_threads c rest s')"

lemma run_threads_reachable:
  "poisson_reachable c q s0 work s \<Longrightarrow> run_threads c ms s = Some s' \<Longrightarrow> poisson_reachable c q s0 work s'"
proof (induction c ms s rule: run_threads.induct)
  case (2 c t now rest s)
  then obtain s1 where s1: "(if t = 0 then producer_step c False now s
      else if t \<le> pc_clients c then client_step c t False now s else None) = Some s1" "run_threads c rest s1 = Some s'"
    by (auto split: option.splits)
  have "poisson_step c s s1"
  proof (cases "t = 0")
    case True
    then show ?thesis using s1 by (auto intro: poisson_step.producer)
  next
    case False
    then show ?thesis using s1 by (intro poisson_step.client [of t]) (auto split: if_splits)
  qed
  with 2 s1 show ?case by (metis poisson_reachable.step)
qed simp

lemma run_threads_append:
  "run_threads c (xs @ ys) s = (case run_threads c xs s of None \<Rightarrow> None | Some s' \<Rightarrow> run_threads c ys s')"
  by (induction c xs s rule: run_threads.induct) (simp_all split: option.split)

definition no_entry :: QueueEntry where
  "no_entry = \<lparr>e_key = 0, t_enqueue_ns = 0, e_op = Search, e_scan_len = 0\<rparr>"

definition demo_queue :: "QueueEntry MPMCQueue" where
  "demo_queue = \<lparr>buffer = [\<lparr>seq = 0, val = no_entry\<rparr>, \<lparr>seq = 1, val = no_entry\<rparr>], capacity = 2, qmask = 1,
     enq_pos = 0, deq_pos = 0\<rparr>"

lemma demo_queue_new: "MPMCQueue_new no_entry 2 = Some demo_queue"
  by (simp add: MPMCQueue_new_def demo_queue_def upt_rec)

definition demo_run :: "nat \<Rightarrow> BPlusTree poisson_cfg" where
  "demo_run n = \<lparr>pc_ix = BuiltinBTreeAdapter, pc_qkeys = replicate n 7, pc_sched = replicate n 0,
     pc_ops = replicate n Search, pc_scan_len = 4, pc_clients = n, pc_needs_lock = False\<rparr>"

lemma demo_fits: "n \<le> 2 \<Longrightarrow> queue_fits (demo_run n) demo_queue"
  unfolding queue_fits_def using demo_queue_new by (intro exI [of _ no_entry] exI [of _ 2]) (simp add: demo_run_def)

lemma replicates:
  "replicate 10 x = [x, x, x, x, x, x, x, x, x, x]"
  "replicate 18 x = [x, x, x, x, x, x, x, x, x, x, x, x, x, x, x, x, x, x]"
  by (simp_all add: eval_nat_numeral)

lemmas run_defs = replicates producer_step_def client_step_def queue_run_def set_q_pc_def set_c_def demo_run_def
  mpmc_init_def cell_at_def cell_ix_def set_cell_def Let_def
  demo_queue_def client_lock_def do_op_def

text \<open>The producer enqueues one entry; the client performs it and ends.\<close>

definition demo_start :: "BPlusTree \<Rightarrow> BPlusTree SharedState" where
  "demo_start t = poisson_init demo_queue t (demo_works 0)"

lemma demo_produces:
  "\<exists>s. run_threads (demo_run 1) (replicate 10 (0, 5)) (demo_start t) = Some s \<and> p_pc s = PStop \<and> p_done s \<and>
    c_pc s = (\<lambda>_. CLoop) \<and> p_idx s = t \<and> p_work s = demo_works 0 \<and> (\<forall>t. pcs (p_q s) t = Ready) \<and>
    queue (p_q s) = \<lparr>buffer = [\<lparr>seq = 1, val = \<lparr>e_key = 7, t_enqueue_ns = 5, e_op = Search, e_scan_len = 4\<rparr>\<rparr>,
      \<lparr>seq = 1, val = no_entry\<rparr>], capacity = 2, qmask = 1, enq_pos = 1, deq_pos = 0\<rparr>"
  by (simp add: run_defs demo_start_def poisson_init_def)

lemma demo_consumes:
  assumes "p_pc s = PStop" "p_done s" "c_pc s = (\<lambda>_. CLoop)" "p_idx s = t" "p_work s = demo_works 0"
    "\<forall>t. pcs (p_q s) t = Ready"
    "queue (p_q s) = \<lparr>buffer = [\<lparr>seq = 1, val = \<lparr>e_key = 7, t_enqueue_ns = 5, e_op = Search, e_scan_len = 4\<rparr>\<rparr>,
      \<lparr>seq = 1, val = no_entry\<rparr>], capacity = 2, qmask = 1, enq_pos = 1, deq_pos = 0\<rparr>"
    and "lookup t 7 = Some v"
  shows "\<exists>s'. run_threads (demo_run 1) (replicate 18 (1, 9)) s = Some s' \<and> poisson_finished (demo_run 1) s'"
proof -
  have "run v (demo_works 0) = Some (demo_works 0, v)"
    by (simp add: run_def demo_works_def Workload_new_def Let_def)
  with assms show ?thesis by (simp add: run_defs poisson_finished_def)
qed


theorem poisson_exactly_once_witness:
  "\<exists>t s. poisson_reachable (demo_run 1) demo_queue t (demo_works 0) s \<and> poisson_finished (demo_run 1) s \<and>
    r_consumed (poisson_result (demo_run 1) 1 (0, 0, 0) s) = 1"
proof -
  from demo_loaded obtain t where t: "bt_rel t [7 \<mapsto> 70, 3 \<mapsto> 30, 9 \<mapsto> 90]" by blast
  then have look: "lookup t 7 = Some 70" using bt.lookup_law [OF t, of 7] by (simp add: val_or_0_def)
  from demo_produces [of t] obtain s where s: "run_threads (demo_run 1) (replicate 10 (0, 5)) (demo_start t) = Some s"
    and st: "p_pc s = PStop" "p_done s" "c_pc s = (\<lambda>_. CLoop)" "p_idx s = t" "p_work s = demo_works 0"
    "\<forall>t. pcs (p_q s) t = Ready"
    "queue (p_q s) = \<lparr>buffer = [\<lparr>seq = 1, val = \<lparr>e_key = 7, t_enqueue_ns = 5, e_op = Search, e_scan_len = 4\<rparr>\<rparr>,
      \<lparr>seq = 1, val = no_entry\<rparr>], capacity = 2, qmask = 1, enq_pos = 1, deq_pos = 0\<rparr>" by blast
  from demo_consumes [OF st look] obtain s' where
    s': "run_threads (demo_run 1) (replicate 18 (1, 9)) s = Some s'" "poisson_finished (demo_run 1) s'" by blast
  have r: "poisson_reachable (demo_run 1) demo_queue t (demo_works 0) s'"
    using run_threads_reachable [OF run_threads_reachable [OF poisson_reachable.start] s'(1)] s
    unfolding demo_start_def by blast
  from poisson_exactly_once [OF demo_fits _ _ r s'(2), of 1 "(0, 0, 0)"] r s'(2) show ?thesis
    by (auto simp: demo_run_def)
qed

lemma poisson_exclusion:
  assumes "shares_ok m" "OpMixSampler m = Some tbl" "\<forall>i < length (pc_qkeys c). \<exists>r. pc_ops c ! i = sample tbl r"
    and "pc_needs_lock c = needs_lock m (int (pc_clients c)) (pc_ix c)" "queue_fits c q"
    and "poisson_reachable c q s0 work s" "t \<noteq> u" "c_pc s t = CIn e ts" "c_pc s u = CIn e' ts'"
  shows "(ii_thread_safe (pc_ix c) \<or> \<not> writes (e_op e) \<and> \<not> writes (e_op e')) \<and> e_key e \<in> set (pc_qkeys c)"
proof -
  have inv: "poisson_inv c q s" by (rule poisson_reachable_inv [OF assms(6,5)])
  then have ok: "mutex_ok (p_mutex s) (\<lambda>t. cheld c (c_pc s t))" by (simp add: poisson_inv_def clock_inv_def)
  have rng: "1 \<le> v \<and> v \<le> pc_clients c" if "c_pc s v = CIn x tx" for v x tx
  proof -
    have "v \<noteq> 0" using inv that by (cases v) (auto simp: poisson_inv_def)
    then have "client_ok c s v" using inv by (simp add: poisson_inv_def)
    with that \<open>v \<noteq> 0\<close> show ?thesis by (cases "pc_clients c < v") (auto simp: client_ok_def)
  qed
  have query: "\<exists>i < length (pc_qkeys c). e_key x = pc_qkeys c ! i \<and> e_op x = pc_ops c ! i" if "c_pc s v = CIn x tx" for v x tx
    using in_hand_query [OF assms(6,5), of v x] rng [OF that] that by (simp add: in_hand_def)
  have two: "1 < int (pc_clients c)" using rng [OF assms(8)] rng [OF assms(9)] assms(7) by linarith
  have "ii_thread_safe (pc_ix c)" if w: "writes (e_op x)" and v: "c_pc s v = CIn x tx" "c_pc s v' = CIn y ty" "v \<noteq> v'"
    for v v' x y tx ty
  proof (rule ccontr)
    assume "\<not> ii_thread_safe (pc_ix c)"
    have "cheld c (c_pc s v) = Some Exclusive" using w v(1) by (auto simp: writes_def client_lock_def)
    from mutex_exclusive [OF ok this v(3)] v(2) have "client_lock (pc_needs_lock c) (e_op y) = None" by simp
    then have "\<not> pc_needs_lock c" by (simp add: client_lock_def split: Op.splits if_splits)
    then have "\<not> 0 < fl (fl (m_update m + m_insert m) + m_del m)"
      using assms(4) two \<open>\<not> ii_thread_safe (pc_ix c)\<close> by (simp add: needs_lock_def)
    moreover obtain r where "e_op x = sample tbl r" using query [OF v(1)] assms(3) by metis
    ultimately show False using read_only_sample [OF assms(1) _ assms(2), of r] w by (auto simp: writes_def)
  qed
  with assms(7-9) query [OF assms(8)] show ?thesis by (metis nth_mem)
qed

text \<open>C11. In every interleaving of the open-loop run two clients that are inside an index call at the
  same time either both only read, or the index claims to be thread-safe; and what they perform are
  queries of the stream. The clients lock for every write, so this holds although they look up
  without a lock when the policy says that none is needed.\<close>

theorem poisson_no_conflict:
  assumes "shares_ok m" "OpMixSampler m = Some tbl" "\<forall>i < length (pc_qkeys c). \<exists>r. pc_ops c ! i = sample tbl r"
    and "pc_needs_lock c = needs_lock m (int (pc_clients c)) (pc_ix c)" "queue_fits c q"
    and "poisson_reachable c q s0 work s" "t \<noteq> u" "c_pc s t = CIn e ts" "c_pc s u = CIn e' ts'"
  shows "(ii_thread_safe (pc_ix c) \<or> \<not> writes (e_op e) \<and> \<not> writes (e_op e')) \<and> e_key e \<in> set (pc_qkeys c)"
  using assms by (rule poisson_exclusion)

text \<open>Two entries are enqueued and two clients look them up at the same time.\<close>

lemma demo_two_clients:
  "\<exists>s e e'. poisson_reachable (demo_run 2) demo_queue t (demo_works 0) s \<and>
    c_pc s 1 = CIn e 9 \<and> c_pc s 2 = CIn e' 9"
proof -
  let ?c = "demo_run 2"
  have "\<exists>s. run_threads ?c (replicate 18 (0, 5)) (demo_start t) = Some s \<and> c_pc s = (\<lambda>_. CLoop) \<and>
    (\<forall>t. pcs (p_q s) t = Ready) \<and> (\<exists>a b. queue (p_q s) = \<lparr>buffer = [\<lparr>seq = 1, val = a\<rparr>, \<lparr>seq = 2, val = b\<rparr>],
      capacity = 2, qmask = 1, enq_pos = 2, deq_pos = 0\<rparr> \<and> e_op a = Search \<and> e_op b = Search)"
    by (simp add: run_defs numeral_2_eq_2 demo_start_def poisson_init_def)
  then obtain s a b where s: "run_threads ?c (replicate 18 (0, 5)) (demo_start t) = Some s" "c_pc s = (\<lambda>_. CLoop)"
    "\<forall>t. pcs (p_q s) t = Ready" "queue (p_q s) = \<lparr>buffer = [\<lparr>seq = 1, val = a\<rparr>, \<lparr>seq = 2, val = b\<rparr>],
      capacity = 2, qmask = 1, enq_pos = 2, deq_pos = 0\<rparr>" "e_op a = Search" "e_op b = Search" by blast
  have "replicate 8 x = [x, x, x, x, x, x, x, x]" for x :: "nat \<times> u64" by (simp add: eval_nat_numeral)
  with s have "\<exists>s'. run_threads ?c (replicate 8 (1, 9) @ replicate 8 (2, 9)) s = Some s' \<and>
    c_pc s' 1 = CIn a 9 \<and> c_pc s' 2 = CIn b 9"
    by (simp add: run_defs)
  then obtain s' where s': "run_threads ?c (replicate 8 (1, 9) @ replicate 8 (2, 9)) s = Some s'"
    "c_pc s' 1 = CIn a 9 \<and> c_pc s' 2 = CIn b 9" by blast
  have "poisson_reachable ?c demo_queue t (demo_works 0) s'"
    using run_threads_reachable [OF run_threads_reachable [OF poisson_reachable.start] s'(1)] s(1)
    unfolding demo_start_def by blast
  with s'(2) show ?thesis by blast
qed

theorem poisson_no_conflict_witness:
  "\<exists>s e e'. poisson_reachable (demo_run 2) demo_queue BPlusTree_new (demo_works 0) s \<and>
    c_pc s 1 = CIn e 9 \<and> c_pc s 2 = CIn e' 9 \<and> \<not> writes (e_op e) \<and> \<not> writes (e_op e') \<and> e_key e \<in> {7}"
proof -
  from search_mix_ok(2) obtain tbl where tbl: "OpMixSampler search_mix = Some tbl" by blast
  have "upto_search search_mix = BINS"
    by (simp add: upto_search_def search_mix_def cum_def bin_target_def BINS_def)
  then have "set tbl = {Search}"
    using sampler_table [OF search_mix_ok(1)] tbl upto_mono [OF search_mix_ok(1)] by (auto simp: BINS_def)
  moreover have "length tbl = BINS" using sampler_total [OF search_mix_ok(1)] tbl by auto
  ultimately have smp: "sample tbl r = Search" for r using sample_in [of tbl r] by simp
  from demo_two_clients [of BPlusTree_new] obtain s e e' where
    s: "poisson_reachable (demo_run 2) demo_queue BPlusTree_new (demo_works 0) s"
      "c_pc s 1 = CIn e 9" "c_pc s 2 = CIn e' 9" by blast
  have "(ii_thread_safe (pc_ix (demo_run 2)) \<or> \<not> writes (e_op e) \<and> \<not> writes (e_op e')) \<and>
    e_key e \<in> set (pc_qkeys (demo_run 2))"
    by (rule poisson_no_conflict [OF search_mix_ok(1) tbl _ _ demo_fits s(1) _ s(2,3)])
      (simp_all add: demo_run_def needs_lock_def search_mix_def smp less_2_cases_iff)
  then show ?thesis using s by (auto simp: demo_run_def BuiltinBTreeAdapter_def)
qed

end
