(* ===== verification/Poisson_Progress.thy ===== *)
theory Poisson_Progress
  imports Poisson_Run
begin

text \<open>
  The open-loop run can always be brought to an end: from every reachable state some continuation lets the
  producer and all clients stop. In a state that is not final there is a step that brings the run nearer to
  its end, in the lexicographic order of two measures: the work left (queries not enqueued, not dequeued,
  threads that have not stopped), which no step increases, and the ranks of the threads, which say how far
  each is from doing the next piece of work when it runs undisturbed. The step is chosen in this
  order: a thread that owns a cell of the queue, a client with an entry in hand, a client that dequeues from a
  queue with entries, the producer, a client that stops.
\<close>

subsection \<open>Ranks\<close>

text \<open>A client inside \<open>try_dequeue\<close>; \<open>ne\<close>: the queue has entries, \<open>d\<close>: the dequeue position.\<close>

fun wait_rank :: "bool \<Rightarrow> u64 \<Rightarrow> 'a pc \<Rightarrow> nat" where
  "wait_rank ne d DeqLoad = (if ne then 3 else 6)"
| "wait_rank ne d (DeqSeq p) = (if p = d then (if ne then 2 else 5) else (if ne then 9 else 7))"
| "wait_rank ne d (DeqCas p) = (if ne then (if p = d then 1 else 3) else 6)"
| "wait_rank ne d (DeqRead p) = 27"
| "wait_rank ne d (DeqStore p x) = 26"
| "wait_rank ne d (DeqRet None) = (if ne then 8 else 4)"
| "wait_rank ne d (DeqRet (Some e)) = 25"
| "wait_rank ne d _ = 0"

fun client_rank :: "bool \<Rightarrow> u64 \<Rightarrow> QueueEntry pc \<Rightarrow> cpc \<Rightarrow> nat" where
  "client_rank ne d pc CWait = wait_rank ne d pc"
| "client_rank ne d pc CLoop = (if ne then 4 else 8)"
| "client_rank ne d pc CDone = (if ne then 7 else 3)"
| "client_rank ne d pc CSize = (if ne then 6 else 2)"
| "client_rank ne d pc (CSize2 e) = (if ne then 5 else 1)"
| "client_rank ne d pc (CEnter e ts) = 24"
| "client_rank ne d pc (CIn e ts) = 23"
| "client_rank ne d pc (COut e ts v) = 22"
| "client_rank ne d pc (CWork e ts te v) = 21"
| "client_rank ne d pc CExit = 0"

fun call_rank :: "u64 \<Rightarrow> 'a pc \<Rightarrow> nat" where
  "call_rank d (EnqLoad v) = 3"
| "call_rank d (EnqSeq v p) = (if p = d then 2 else 6)"
| "call_rank d (EnqCas v p) = (if p = d then 1 else 3)"
| "call_rank d (EnqWrite v p) = 9"
| "call_rank d (EnqStore v p) = 8"
| "call_rank d (EnqRet b) = (if b then 7 else 5)"
| "call_rank d _ = 0"

fun producer_rank :: "u64 \<Rightarrow> QueueEntry pc \<Rightarrow> ppc \<Rightarrow> nat" where
  "producer_rank d pc PNext = 5"
| "producer_rank d pc (PCall e) = 4"
| "producer_rank d pc (PWait e) = call_rank d pc"
| "producer_rank d pc PInc = 6"
| "producer_rank d pc PStop = 0"

definition has_entries :: "'s SharedState \<Rightarrow> bool" where
  "has_entries s \<longleftrightarrow> unat (deq_pos (queue (p_q s))) < length (enq_log (p_q s))"

definition work_left :: "'s poisson_cfg \<Rightarrow> 's SharedState \<Rightarrow> nat" where
  "work_left c s = (length (pc_qkeys c) - length (enq_log (p_q s))) + (length (pc_qkeys c) - unat (deq_pos (queue (p_q s)))) +
     (if p_pc s = PStop then 0 else 1) + card {t \<in> {1..pc_clients c}. c_pc s t \<noteq> CExit}"

definition crank :: "'s SharedState \<Rightarrow> nat \<Rightarrow> nat" where
  "crank s t = client_rank (has_entries s) (deq_pos (queue (p_q s))) (pcs (p_q s) t) (c_pc s t)"

definition prank :: "'s SharedState \<Rightarrow> nat" where
  "prank s = producer_rank (enq_pos (queue (p_q s))) (pcs (p_q s) 0) (p_pc s)"

definition ranks :: "'s poisson_cfg \<Rightarrow> 's SharedState \<Rightarrow> nat" where
  "ranks c s = prank s + (\<Sum>t \<in> {1..pc_clients c}. crank s t)"

definition nearer :: "'s poisson_cfg \<Rightarrow> 's SharedState \<Rightarrow> 's SharedState \<Rightarrow> bool" where
  "nearer c s' s \<longleftrightarrow> (s', s) \<in> measures [work_left c, ranks c]"

lemma nearer_wf: "wfp (nearer c)"
  unfolding wfp_def by (rule wf_subset [OF wf_measures [of "[work_left c, ranks c]"]]) (auto simp: nearer_def)

lemma nearer_iff: "nearer c s' s \<longleftrightarrow> work_left c s' < work_left c s \<or> work_left c s' = work_left c s \<and> ranks c s' < ranks c s"
  by (simp add: nearer_def)

text \<open>The next step of a thread, whatever the clock shows, brings the end nearer.\<close>

definition client_helps :: "'s poisson_cfg \<Rightarrow> nat \<Rightarrow> u64 \<Rightarrow> 's SharedState \<Rightarrow> bool" where
  "client_helps c t now s \<longleftrightarrow> (\<exists>s'. client_step c t False now s = Some s' \<and> nearer c s' s)"

definition producer_helps :: "'s poisson_cfg \<Rightarrow> u64 \<Rightarrow> 's SharedState \<Rightarrow> bool" where
  "producer_helps c now s \<longleftrightarrow> (\<exists>s'. producer_step c False now s = Some s' \<and> nearer c s' s)"

lemma helps_step:
  "t \<in> {1..pc_clients c} \<Longrightarrow> client_helps c t now s \<Longrightarrow> \<exists>s'. poisson_step c s s' \<and> nearer c s' s"
  "producer_helps c now s \<Longrightarrow> \<exists>s'. poisson_step c s s' \<and> nearer c s' s"
  unfolding client_helps_def producer_helps_def using poisson_step.producer poisson_step.client by (metis atLeastAtMost_iff)+

subsection \<open>Steps that bring the end nearer\<close>

text \<open>A step of client \<open>t\<close> that moves nothing in the queue's positions and does not stop it.\<close>

lemma client_rank_nearer:
  assumes "t \<in> {1..pc_clients c}" "\<forall>u. u \<noteq> t \<longrightarrow> c_pc s' u = c_pc s u \<and> pcs (p_q s') u = pcs (p_q s) u"
    and "enq_log (p_q s') = enq_log (p_q s)" "enq_pos (queue (p_q s')) = enq_pos (queue (p_q s))"
    and "deq_pos (queue (p_q s')) = deq_pos (queue (p_q s))" "p_pc s' = p_pc s"
    and "c_pc s t \<noteq> CExit" "c_pc s' t \<noteq> CExit" "crank s' t < crank s t"
  shows "nearer c s' s"
proof -
  have "{u \<in> {1..pc_clients c}. c_pc s' u \<noteq> CExit} = {u \<in> {1..pc_clients c}. c_pc s u \<noteq> CExit}"
    using assms(2,7,8) by (metis (no_types, lifting))
  then have w: "work_left c s' = work_left c s" using assms(3,5,6) by (simp add: work_left_def)
  have "crank s' u = crank s u" if "u \<noteq> t" for u
    using assms(2,3,5) that by (simp add: crank_def has_entries_def)
  then have "\<forall>u \<in> {1..pc_clients c}. crank s' u \<le> crank s u" using assms(9) by (metis less_imp_le order_refl)
  then have "(\<Sum>u \<in> {1..pc_clients c}. crank s' u) < (\<Sum>u \<in> {1..pc_clients c}. crank s u)"
    using assms(1,9) by (intro sum_strict_mono_ex1) auto
  moreover have "pcs (p_q s') 0 = pcs (p_q s) 0" using assms(1,2) by simp
  then have "prank s' = prank s" using assms(4,6) by (simp add: prank_def)
  ultimately show ?thesis by (simp add: nearer_iff w ranks_def)
qed

lemma producer_rank_nearer:
  assumes "c_pc s' = c_pc s" "\<forall>u \<ge> 1. pcs (p_q s') u = pcs (p_q s) u"
    and "enq_log (p_q s') = enq_log (p_q s)" "deq_pos (queue (p_q s')) = deq_pos (queue (p_q s))"
    and "p_pc s \<noteq> PStop" "p_pc s' \<noteq> PStop" "prank s' < prank s"
  shows "nearer c s' s"
proof -
  have "work_left c s' = work_left c s" using assms by (simp add: work_left_def)
  moreover have "crank s' u = crank s u" if "u \<ge> 1" for u
    using assms(1-4) that by (simp add: crank_def has_entries_def)
  then have "(\<Sum>u \<in> {1..pc_clients c}. crank s' u) = (\<Sum>u \<in> {1..pc_clients c}. crank s u)" by (intro sum.cong) simp_all
  ultimately show ?thesis using assms(7) by (simp add: nearer_iff ranks_def)
qed

text \<open>Winning a position to dequeue or to enqueue, and stopping, are work done.\<close>

lemma client_work_nearer:
  assumes "t \<in> {1..pc_clients c}" "\<forall>u. u \<noteq> t \<longrightarrow> c_pc s' u = c_pc s u" "enq_log (p_q s') = enq_log (p_q s)" "p_pc s' = p_pc s"
    and "c_pc s t \<noteq> CExit"
    and "c_pc s' t \<noteq> CExit \<and> unat (deq_pos (queue (p_q s'))) = Suc (unat (deq_pos (queue (p_q s)))) \<and>
        unat (deq_pos (queue (p_q s))) < length (pc_qkeys c) \<or>
      c_pc s' t = CExit \<and> deq_pos (queue (p_q s')) = deq_pos (queue (p_q s))"
  shows "nearer c s' s"
proof -
  let ?L = "\<lambda>s. {u \<in> {1..pc_clients c}. c_pc s u \<noteq> CExit}"
  from assms(6) have "work_left c s' < work_left c s"
  proof
    assume a: "c_pc s' t \<noteq> CExit \<and> unat (deq_pos (queue (p_q s'))) = Suc (unat (deq_pos (queue (p_q s)))) \<and>
        unat (deq_pos (queue (p_q s))) < length (pc_qkeys c)"
    then have "?L s' = ?L s" using assms(2,5) by (metis (no_types, lifting))
    then show ?thesis using a assms(3,4) unfolding work_left_def by (simp only:) linarith
  next
    assume a: "c_pc s' t = CExit \<and> deq_pos (queue (p_q s')) = deq_pos (queue (p_q s))"
    have "?L s' \<subseteq> ?L s" using a assms(2) by (safe; metis)
    moreover have "t \<in> ?L s" "t \<notin> ?L s'" using a assms(1,5) by simp_all
    ultimately have "?L s' \<subset> ?L s" by blast
    then have "card (?L s') < card (?L s)" by (intro psubset_card_mono) simp_all
    with a assms(3,4) show ?thesis by (simp add: work_left_def)
  qed
  then show ?thesis by (simp add: nearer_iff)
qed

lemma producer_work_nearer:
  assumes "c_pc s' = c_pc s" "deq_pos (queue (p_q s')) = deq_pos (queue (p_q s))" "p_pc s \<noteq> PStop"
    and "p_pc s' \<noteq> PStop \<and> length (enq_log (p_q s')) = Suc (length (enq_log (p_q s))) \<and>
        length (enq_log (p_q s)) < length (pc_qkeys c) \<or>
      p_pc s' = PStop \<and> enq_log (p_q s') = enq_log (p_q s)"
  shows "nearer c s' s"
  using assms by (auto simp: nearer_iff work_left_def)

subsection \<open>Undisturbed calls of the queue\<close>

text \<open>At the current position the sequence number is not ahead; it is behind only as the invariant says.\<close>

lemma enq_seq_fresh:
  assumes inv: "mpmc_inv s k tk full" and bound: "length (enq_log s) + 2 ^ k < 2 ^ 63"
  shows "\<not> 0 < sint (seq (cell_at (queue s) (enq_pos (queue s))) - enq_pos (queue s))"
proof -
  let ?e = "length (enq_log s)" and ?j = "length (enq_log s) mod 2 ^ k"
  have n: "2 \<le> (2 :: nat) ^ k" using inv by (auto simp: mpmc_inv_def intro: shape_round)
  have p: "enq_pos (queue s) = of_nat ?e" using inv by (simp add: mpmc_inv_def)
  have u: "unat (of_nat ?e :: u64) = ?e" using bound by (simp add: unat_of_nat_u64)
  have ok: "cell_ok s (2 ^ k) tk full ?j" by (rule inv_cell [OF inv]) simp
  then have m: "tk ?j mod 2 ^ k = ?e mod 2 ^ k" "tk ?j < unat (deq_pos (queue s)) + 2 ^ k"
    by (simp_all add: cell_ok_def Let_def)
  have "unat (deq_pos (queue s)) \<le> ?e" using inv by (simp add: mpmc_inv_def)
  with m have "tk ?j \<le> ?e" using mod_eq_window [of ?e "2 ^ k" "tk ?j"] by (cases "?e < tk ?j") auto
  moreover have "\<not> (full ?j \<and> tk ?j = ?e)" using ok by (auto simp: cell_ok_def Let_def)
  ultimately have "seq_nat tk full ?j \<le> ?e" by (auto simp: seq_nat_def)
  moreover have "unat (of_nat ?e :: u64) < 2 ^ 63" using u bound by linarith
  from seq_diff [OF inv bound this, of "of_nat ?e"]
  have "sint (seq (cell_at (queue s) (of_nat ?e)) - of_nat ?e) = int (seq_nat tk full ?j) - int ?e" unfolding u .
  ultimately show ?thesis unfolding p by linarith
qed

lemma deq_seq_fresh:
  assumes inv: "mpmc_inv s k tk full" and bound: "length (enq_log s) + 2 ^ k < 2 ^ 63"
  shows "\<not> 0 < sint (seq (cell_at (queue s) (deq_pos (queue s))) - (deq_pos (queue s) + 1))"
proof -
  let ?d = "unat (deq_pos (queue s))" and ?j = "unat (deq_pos (queue s)) mod 2 ^ k"
  have "?d \<le> length (enq_log s)" using inv by (simp add: mpmc_inv_def)
  note p1 = pos_inc_small [OF this bound]
  have "cell_ok s (2 ^ k) tk full ?j" by (rule inv_cell [OF inv]) simp
  then have m: "tk ?j mod 2 ^ k = ?d mod 2 ^ k" "tk ?j < ?d + 2 ^ k" by (simp_all add: cell_ok_def Let_def)
  then have "tk ?j \<le> ?d" using mod_eq_window [of ?d "2 ^ k" "tk ?j"] by (cases "?d < tk ?j") auto
  then have "seq_nat tk full ?j \<le> ?d + 1" by (simp add: seq_nat_def)
  with seq_diff [OF inv bound p1(2), of "deq_pos (queue s)"] show ?thesis unfolding p1(1) by linarith
qed

subsection \<open>The client's and the producer's next step\<close>

lemma client_run_step:
  assumes "c_pc s t = CWait" "in_deq (pcs (p_q s) t)" "\<forall>r. pcs (p_q s) t \<noteq> DeqRet r"
    and "thread_step False (queue (p_q s)) (pcs (p_q s) t) = Some (q', pc')"
  shows "client_step c t False now s = Some (s\<lparr>p_q := \<lparr>queue = q', pcs = (pcs (p_q s))(t := pc'),
    enq_log = enq_log (p_q s), deq_log = deq_log (p_q s) @ logged_deq (pcs (p_q s) t) pc'\<rparr>\<rparr>)"
proof -
  have "client_step c t False now s = queue_run t False s"
    using assms(1-3) by (cases "pcs (p_q s) t") (simp_all add: client_step_def)
  then show ?thesis using deq_thread_step [OF assms(4,2)] by (simp add: queue_run_def assms(4))
qed

lemma client_run_nearer:
  assumes t: "t \<in> {1..pc_clients c}" and w: "c_pc s t = CWait" "in_deq (pcs (p_q s) t)" "\<forall>r. pcs (p_q s) t \<noteq> DeqRet r"
    and st: "thread_step False (queue (p_q s)) (pcs (p_q s) t) = Some (q', pc')" "deq_pos q' = deq_pos (queue (p_q s))"
    and less: "wait_rank (has_entries s) (deq_pos (queue (p_q s))) pc' < wait_rank (has_entries s) (deq_pos (queue (p_q s))) (pcs (p_q s) t)"
  shows "client_helps c t now s"
proof -
  let ?s' = "s\<lparr>p_q := \<lparr>queue = q', pcs = (pcs (p_q s))(t := pc'),
    enq_log = enq_log (p_q s), deq_log = deq_log (p_q s) @ logged_deq (pcs (p_q s) t) pc'\<rparr>\<rparr>"
  have "client_step c t False now s = Some ?s'" by (rule client_run_step [OF w st(1)])
  moreover have "enq_pos q' = enq_pos (queue (p_q s))" using deq_thread_step [OF st(1) w(2)] by simp
  then have "nearer c ?s' s"
    by (intro client_rank_nearer [OF t]) (use w st(2) less in \<open>simp_all add: crank_def has_entries_def\<close>)
  ultimately show ?thesis by (auto simp: client_helps_def)
qed

lemma client_local_nearer:
  assumes "t \<in> {1..pc_clients c}" "client_step c t False now s = Some s'" "c_pc s t \<noteq> CWait"
    and "c_pc s t \<noteq> CExit" "c_pc s' t \<noteq> CExit" "queue (p_q s') = queue (p_q s)" "crank s' t < crank s t"
  shows "client_helps c t now s"
proof -
  have "nearer c s' s"
    using client_frame [OF assms(2)] assms by (intro client_rank_nearer [OF assms(1)]) simp_all
  with assms(2) show ?thesis by (auto simp: client_helps_def)
qed

lemma client_return_nearer:
  assumes t: "t \<in> {1..pc_clients c}" and w: "c_pc s t = CWait" "pcs (p_q s) t = DeqRet r"
  shows "client_helps c t now s"
proof -
  let ?s' = "set_q_pc t Ready (set_c t (case r of None \<Rightarrow> CDone | Some e \<Rightarrow> CEnter e now) s)"
  have "client_step c t False now s = Some ?s'" using w by (simp add: client_step_def split: option.split)
  moreover have "nearer c ?s' s"
    by (rule client_rank_nearer [OF t]) (use w in \<open>auto simp: crank_def has_entries_def split: option.split\<close>)
  ultimately show ?thesis by (auto simp: client_helps_def)
qed

lemma producer_nearer:
  assumes "producer_step c False now s = Some s'" "producer_ok c s" "enq_log (p_q s') = enq_log (p_q s)"
    and "p_pc s \<noteq> PStop" "p_pc s' \<noteq> PStop" "prank s' < prank s"
  shows "producer_helps c now s"
proof -
  have "nearer c s' s" using producer_frame [OF assms(1,2)] assms(3-6) by (intro producer_rank_nearer) simp_all
  with assms(1) show ?thesis by (auto simp: producer_helps_def)
qed

lemma producer_run_step:
  assumes "p_pc s = PWait e" "in_enq e (pcs (p_q s) 0)" "\<forall>b. pcs (p_q s) 0 \<noteq> EnqRet b"
    and "thread_step False (queue (p_q s)) (pcs (p_q s) 0) = Some (q', pc')"
  shows "producer_step c False now s = Some (s\<lparr>p_q := \<lparr>queue = q', pcs = (pcs (p_q s))(0 := pc'),
    enq_log = enq_log (p_q s) @ logged_enq (pcs (p_q s) 0) pc', deq_log = deq_log (p_q s)\<rparr>\<rparr>)"
proof -
  have "producer_step c False now s = queue_run 0 False s"
    using assms(1-3) by (cases "pcs (p_q s) 0") (auto simp: producer_step_def)
  then show ?thesis using enq_thread_step [OF assms(4,2)] by (simp add: queue_run_def assms(4))
qed

lemma producer_run_nearer:
  assumes p: "producer_ok c s" and w: "p_pc s = PWait e" "in_enq e (pcs (p_q s) 0)" "\<forall>b. pcs (p_q s) 0 \<noteq> EnqRet b"
    and st: "thread_step False (queue (p_q s)) (pcs (p_q s) 0) = Some (q', pc')" "enq_pos q' = enq_pos (queue (p_q s))"
    and less: "won pc' = won (pcs (p_q s) 0)"
      "call_rank (enq_pos (queue (p_q s))) pc' < call_rank (enq_pos (queue (p_q s))) (pcs (p_q s) 0)"
  shows "producer_helps c now s"
  by (rule producer_nearer [OF producer_run_step [OF w st(1)] p])
    (use enq_thread_step [OF st(1) w(2)] w(1) st(2) less in \<open>simp_all add: prank_def\<close>)

subsection \<open>There is always a next step\<close>

text \<open>A state of a run, with what the invariants give of it.\<close>

definition run_state :: "'s poisson_cfg \<Rightarrow> 's SharedState \<Rightarrow> nat \<Rightarrow> (nat \<Rightarrow> nat) \<Rightarrow> (nat \<Rightarrow> bool) \<Rightarrow> bool" where
  "run_state c s k tk full \<longleftrightarrow> mpmc_inv (p_q s) k tk full \<and> length (enq_log (p_q s)) + 2 ^ k < 2 ^ 63 \<and>
     producer_ok c s \<and> (\<forall>t \<ge> 1. client_ok c s t) \<and> clock_inv c s \<and> c_pc s 0 = CLoop \<and> length (pc_qkeys c) < 2 ^ 63"

lemma run_stateD:
  assumes "run_state c s k tk full"
  shows "mpmc_inv (p_q s) k tk full" "length (enq_log (p_q s)) + 2 ^ k < 2 ^ 63" "producer_ok c s" "clock_inv c s"
    "1 \<le> t \<Longrightarrow> client_ok c s t" "c_pc s 0 = CLoop" "length (pc_qkeys c) < 2 ^ 63"
  using assms by (simp_all add: run_state_def)

lemma run_state_client:
  assumes "run_state c s k tk full" "c_pc s t \<noteq> CLoop"
  shows "t \<in> {1..pc_clients c}"
proof -
  have "t \<noteq> 0" using assms run_stateD(6) by metis
  then show ?thesis using run_stateD(5) [OF assms(1), of t] assms(2) by (auto simp: client_ok_def not_le)
qed

text \<open>Owners of a cell go on.\<close>

lemma producer_owner_moves:
  assumes "run_state c s k tk full" "enq_owned (pcs (p_q s) 0) \<noteq> None \<or> deq_owned (pcs (p_q s) 0) \<noteq> None"
  shows "producer_helps c now s"
proof -
  note p = run_stateD(3) [OF assms(1)]
  have "pcs (p_q s) 0 \<noteq> Ready" using assms(2) by auto
  then obtain e where e: "p_pc s = PWait e" "in_enq e (pcs (p_q s) 0)"
    using p by (cases "p_pc s") (auto simp: producer_ok_def Let_def)
  from e(2) assms(2) obtain pos where "pcs (p_q s) 0 = EnqWrite e pos \<or> pcs (p_q s) 0 = EnqStore e pos"
    by (cases "pcs (p_q s) 0") auto
  then show ?thesis
  proof
    assume pc: "pcs (p_q s) 0 = EnqWrite e pos"
    then have "thread_step False (queue (p_q s)) (pcs (p_q s) 0) =
      Some (set_cell (queue (p_q s)) pos (\<lambda>x. x\<lparr>val := e\<rparr>), EnqStore e pos)" by simp
    then show ?thesis by (rule producer_run_nearer [OF p e, rotated]) (simp_all add: pc)
  next
    assume pc: "pcs (p_q s) 0 = EnqStore e pos"
    then have "thread_step False (queue (p_q s)) (pcs (p_q s) 0) =
      Some (set_cell (queue (p_q s)) pos (\<lambda>x. x\<lparr>seq := pos + 1\<rparr>), EnqRet True)" by simp
    then show ?thesis by (rule producer_run_nearer [OF p e, rotated]) (simp_all add: pc)
  qed
qed

lemma client_owner_moves:
  assumes "run_state c s k tk full" "enq_owned (pcs (p_q s) t) \<noteq> None \<or> deq_owned (pcs (p_q s) t) \<noteq> None" "t \<noteq> 0"
  shows "t \<in> {1..pc_clients c} \<and> client_helps c t now s"
proof -
  have ok: "client_ok c s t" using run_stateD(5) [OF assms(1)] assms(3) by simp
  have "pcs (p_q s) t \<noteq> Ready" using assms(2) by auto
  then have w: "c_pc s t = CWait" "in_deq (pcs (p_q s) t)" using ok by (auto simp: client_ok_def split: if_splits)
  have t: "t \<in> {1..pc_clients c}" using run_state_client [OF assms(1)] w(1) by simp
  from w(2) assms(2) have "client_helps c t now s"
  proof (cases "pcs (p_q s) t")
    case (DeqRead pos)
    then have "thread_step False (queue (p_q s)) (pcs (p_q s) t) =
      Some (queue (p_q s), DeqStore pos (val (cell_at (queue (p_q s)) pos)))" by simp
    from client_run_nearer [OF t w _ this] DeqRead show ?thesis by simp
  next
    case (DeqStore pos x)
    then have "thread_step False (queue (p_q s)) (pcs (p_q s) t) =
      Some (set_cell (queue (p_q s)) pos (\<lambda>y. y\<lparr>seq := pos + capacity (queue (p_q s))\<rparr>), DeqRet (Some x))" by simp
    from client_run_nearer [OF t w _ this] DeqStore show ?thesis by simp
  qed auto
  with t show ?thesis ..
qed

text \<open>A client that holds an entry and does not wait for the lock.\<close>

fun past_lock :: "cpc \<Rightarrow> bool" where
  "past_lock (CIn e ts) = True"
| "past_lock (COut e ts v) = True"
| "past_lock (CWork e ts te v) = True"
| "past_lock _ = False"

context point_index
begin

text \<open>So does a client with an entry: the lock is free when no client is inside a call.\<close>

lemma inside_moves:
  assumes st: "run_state c s k tk full" and ix: "pc_ix c = ix" "rel (p_idx s) m" and wl: "wl_ready (p_work s)"
    and u: "past_lock (c_pc s u)"
  shows "u \<in> {1..pc_clients c} \<and> client_helps c u now s"
proof -
  have r: "u \<in> {1..pc_clients c}" by (rule run_state_client [OF st]) (use u in auto)
  from u have "client_helps c u now s"
  proof (cases "c_pc s u")
    case (CIn e ts)
    from do_op_rel [OF ix(2), of "e_op e" "e_key e" "e_scan_len e"] obtain idx v where
      "do_op (pc_ix c) (e_op e) (e_key e) (e_scan_len e) (p_idx s) = Some (idx, v)" unfolding ix(1) by blast
    then have "client_step c u False now s = Some (set_c u (COut e ts v) (s\<lparr>p_idx := idx\<rparr>))"
      using CIn by (simp add: client_step_def)
    then show ?thesis by (rule client_local_nearer [OF r]) (use CIn in \<open>simp_all add: crank_def\<close>)
  next
    case (COut e ts v)
    then have "client_step c u False now s = Some (set_c u (CWork e ts now v)
        (s\<lparr>p_mutex := release (client_lock (pc_needs_lock c) (e_op e)) u (p_mutex s)\<rparr>))" by (simp add: client_step_def)
    then show ?thesis by (rule client_local_nearer [OF r]) (use COut in \<open>simp_all add: crank_def\<close>)
  next
    case (CWork e ts te v)
    from run_ready [OF wl, of v] obtain wl' v' where "Workload.run v (p_work s) = Some (wl', v')" by blast
    then obtain s' where s': "client_step c u False now s = Some s'" "c_pc s' u = CLoop" "p_q s' = p_q s"
      using CWork by (simp add: client_step_def)
    show ?thesis by (rule client_local_nearer [OF r s'(1)]) (use CWork s' in \<open>simp_all add: crank_def has_entries_def\<close>)
  qed simp_all
  with r show ?thesis ..
qed

lemma enter_moves:
  assumes st: "run_state c s k tk full" and "\<forall>u. \<not> past_lock (c_pc s u)" and en: "c_pc s t = CEnter e ts"
  shows "t \<in> {1..pc_clients c} \<and> client_helps c t now s"
proof -
  have "cheld c (c_pc s u) = None" for u using assms(2) [rule_format, of u] by (cases "c_pc s u") auto
  then have free: "mutex_ok (p_mutex s) (\<lambda>u. None)" using run_stateD(4) [OF st] by (simp add: clock_inv_def)
  from acquire_free [OF free] obtain mx where
    "acquire (client_lock (pc_needs_lock c) (e_op e)) t (p_mutex s) = Some mx" by blast
  then have step: "client_step c t False now s = Some (set_c t (CIn e ts) (s\<lparr>p_mutex := mx\<rparr>))"
    using en by (simp add: client_step_def)
  have t: "t \<in> {1..pc_clients c}" by (rule run_state_client [OF st]) (use en in simp)
  from client_local_nearer [OF this step] t show ?thesis using en by (simp add: crank_def has_entries_def)
qed

end

text \<open>In what follows no thread owns a cell and no client has an entry.\<close>

definition settled :: "'s SharedState \<Rightarrow> bool" where
  "settled s \<longleftrightarrow> (\<forall>t. enq_owned (pcs (p_q s) t) = None \<and> deq_owned (pcs (p_q s) t) = None) \<and>
     (\<forall>t e ts te v. c_pc s t \<noteq> CEnter e ts \<and> c_pc s t \<noteq> CIn e ts \<and> c_pc s t \<noteq> COut e ts v \<and> c_pc s t \<noteq> CWork e ts te v)"

text \<open>A client that has not stopped and is not inside the queue moves within its loop.\<close>

lemma loop_moves:
  assumes "t \<in> {1..pc_clients c}" "settled s" "c_pc s t \<noteq> CWait" "c_pc s t \<noteq> CExit" "client_ok c s t"
    and "has_entries s \<or> p_done s" "\<forall>e. c_pc s t = CSize2 e \<longrightarrow> has_entries s" "length (enq_log (p_q s)) \<le> length (pc_qkeys c)"
      "length (pc_qkeys c) < 2 ^ 63"
  shows "client_helps c t now s"
proof (cases "c_pc s t")
  case CLoop
  have "client_step c t False now s = Some (set_q_pc t DeqLoad (set_c t CWait s))" using CLoop by (simp add: client_step_def)
  from client_local_nearer [OF assms(1) this] CLoop show ?thesis by (simp add: crank_def has_entries_def)
next
  case CDone
  have "client_step c t False now s = Some (set_c t (if p_done s then CSize else CLoop) s)" using CDone by (simp add: client_step_def)
  from client_local_nearer [OF assms(1) this] CDone assms(6) show ?thesis
    by (cases "p_done s") (auto simp: crank_def has_entries_def)
next
  case CSize
  have "client_step c t False now s = Some (set_c t (CSize2 (enq_pos (queue (p_q s)))) s)" using CSize by (simp add: client_step_def)
  from client_local_nearer [OF assms(1) this] CSize show ?thesis by (simp add: crank_def has_entries_def)
next
  case (CSize2 e)
  then have e: "e = of_nat (length (pc_qkeys c))" "has_entries s" using assms(5,7) by (simp_all add: client_ok_def)
  have "unat e = length (pc_qkeys c)" unfolding e(1) using assms(9) by (simp add: unat_of_nat_u64)
  then have d: "deq_pos (queue (p_q s)) < e" using e(2) assms(8) by (simp add: has_entries_def word_less_nat_alt)
  then have "e - deq_pos (queue (p_q s)) \<noteq> 0" by auto
  then have "client_step c t False now s = Some (set_c t CLoop s)"
    using CSize2 d by (simp add: client_step_def Let_def)
  from client_local_nearer [OF assms(1) this] CSize2 e(2) show ?thesis by (simp add: crank_def has_entries_def)
qed (use assms(2-4) in \<open>auto simp: settled_def\<close>)

text \<open>With entries in the queue, a client gets nearer to taking one out.\<close>

lemma dequeue_moves:
  assumes st: "run_state c s k tk full" and sd: "settled s" and ne: "has_entries s" and t: "t \<in> {1..pc_clients c}"
  shows "client_helps c t now s"
proof -
  let ?q = "queue (p_q s)" let ?d = "deq_pos (queue (p_q s))"
  note S = run_stateD [OF st]
  have ok: "client_ok c s t" using S(5) t by simp
  have le: "length (enq_log (p_q s)) \<le> length (pc_qkeys c)" by (rule producer_log_le [OF S(3)])
  have run: ?thesis if "c_pc s t = CWait" "in_deq (pcs (p_q s) t)" "\<forall>r. pcs (p_q s) t \<noteq> DeqRet r"
      "thread_step False ?q (pcs (p_q s) t) = Some (q', pc')" "deq_pos q' = ?d"
      "wait_rank True ?d pc' < wait_rank True ?d (pcs (p_q s) t)" for q' pc'
    using client_run_nearer [OF t that(1-5)] that(6) ne by simp
  show ?thesis
  proof (cases "c_pc s t = CWait")
    case False
    have "c_pc s t \<noteq> CExit"
    proof
      assume "c_pc s t = CExit"
      then have "unat ?d = length (pc_qkeys c)" using ok S(7) by (simp add: client_ok_def unat_of_nat_u64)
      with ne le show False by (simp add: has_entries_def)
    qed
    with loop_moves [OF t sd False _ ok] ne le S(7) show ?thesis by blast
  next
    case w: True
    then have d: "in_deq (pcs (p_q s) t)" using ok by (simp add: client_ok_def)
    show ?thesis
    proof (cases "pcs (p_q s) t")
      case DeqLoad
      then have "thread_step False ?q (pcs (p_q s) t) = Some (?q, DeqSeq ?d)" by simp
      from run [OF w d _ this] DeqLoad show ?thesis by simp
    next
      case (DeqRet r)
      then show ?thesis by (rule client_return_nearer [OF t w])
    next
      case (DeqCas p)
      show ?thesis
      proof (cases "p = ?d")
        case False
        then have "thread_step False ?q (pcs (p_q s) t) = Some (?q, DeqSeq ?d)" using DeqCas by simp
        from run [OF w d _ this] show ?thesis using DeqCas False by simp
      next
        case True
        have u: "unat (?d + 1) = Suc (unat ?d)"
          using pos_inc_small(1) [OF _ S(2), of ?d] S(1) by (simp add: mpmc_inv_def)
        have "thread_step False ?q (pcs (p_q s) t) = Some (?q\<lparr>deq_pos := ?d + 1\<rparr>, DeqRead ?d)" using DeqCas True by simp
        from client_run_step [OF w d _ this, where c = c and now = now] DeqCas obtain s' where
          s': "client_step c t False now s = Some s'" "c_pc s' t = CWait" "deq_pos (queue (p_q s')) = ?d + 1" using w by simp
        have "\<forall>x. x \<noteq> t \<longrightarrow> c_pc s' x = c_pc s x" "enq_log (p_q s') = enq_log (p_q s)" "p_pc s' = p_pc s"
          using client_frame [OF s'(1)] d by simp_all
        then have "nearer c s' s"
          using s'(2,3) u w ne le by (intro client_work_nearer [OF t]) (simp_all add: has_entries_def)
        with s'(1) show ?thesis by (auto simp: client_helps_def)
      qed
    next
      case (DeqSeq p)
      let ?x = "sint (seq (cell_at ?q p) - (p + 1))"
      have o: "enq_owned (pcs (p_q s) u) = None" for u using sd by (simp add: settled_def)
      consider (hit) "?x = 0" | (behind) "?x < 0" | (ahead) "0 < ?x" by linarith
      then show ?thesis
      proof cases
        case hit
        then have "thread_step False ?q (pcs (p_q s) t) = Some (?q, DeqCas p)" using DeqSeq by (simp add: Let_def)
        from run [OF w d _ this] show ?thesis using DeqSeq by simp
      next
        case behind
        from deq_seq_empty [OF S(1,2) DeqSeq this] o ne have False by (simp add: has_entries_def)
        then show ?thesis ..
      next
        case ahead
        then have "p \<noteq> ?d" using deq_seq_fresh [OF S(1,2)] by auto
        moreover have "thread_step False ?q (pcs (p_q s) t) = Some (?q, DeqLoad)" using DeqSeq ahead by (simp add: Let_def)
        ultimately show ?thesis using run [OF w d] DeqSeq by simp
      qed
    qed (use d sd in \<open>auto simp: settled_def dest: spec [of _ t]\<close>)
  qed
qed

text \<open>With an empty queue, the producer gets nearer to putting the next entry in.\<close>

lemma enqueue_moves:
  assumes st: "run_state c s k tk full" and sd: "settled s" and em: "\<not> has_entries s" and np: "p_pc s \<noteq> PStop"
    and late: "p_i s < length (pc_qkeys c) \<Longrightarrow> pc_sched c ! p_i s \<le> now"
  shows "producer_helps c now s"
proof -
  let ?q = "queue (p_q s)" let ?e = "enq_pos (queue (p_q s))"
  note S = run_stateD [OF st]
  note go = producer_nearer [OF _ S(3)]
  have full: "unat (deq_pos ?q) = length (enq_log (p_q s))" using em S(1) by (simp add: has_entries_def mpmc_inv_def)
  show ?thesis
  proof (cases "p_pc s")
    case PNext
    show ?thesis
    proof (cases "p_i s < length (pc_qkeys c)")
      case True
      then obtain e where "producer_step c False now s = Some (s\<lparr>p_lag := p_lag s + (now - pc_sched c ! p_i s), p_pc := PCall e\<rparr>)"
        using PNext late by (auto simp: producer_step_def Let_def)
      from go [OF this] PNext show ?thesis by (simp add: prank_def)
    next
      case False
      then have "producer_step c False now s = Some (s\<lparr>p_done := True, p_pc := PStop\<rparr>)" using PNext by (simp add: producer_step_def)
      moreover have "nearer c (s\<lparr>p_done := True, p_pc := PStop\<rparr>) s" using PNext by (intro producer_work_nearer) simp_all
      ultimately show ?thesis by (auto simp: producer_helps_def)
    qed
  next
    case (PCall e)
    then have "producer_step c False now s = Some (set_q_pc 0 (EnqLoad e) (s\<lparr>p_pc := PWait e\<rparr>))" by (simp add: producer_step_def)
    from go [OF this] PCall show ?thesis by (simp add: prank_def)
  next
    case PInc
    then have "producer_step c False now s = Some (s\<lparr>p_produced := p_produced s + 1, p_i := p_i s + 1, p_pc := PNext\<rparr>)"
      by (simp add: producer_step_def)
    from go [OF this] PInc show ?thesis by (simp add: prank_def)
  next
    case (PWait e)
    then have w: "in_enq e (pcs (p_q s) 0)" and less: "length (enq_log (p_q s)) < length (pc_qkeys c) \<or> won (pcs (p_q s) 0)"
      using S(3) by (auto simp: producer_ok_def Let_def)
    note run = producer_run_nearer [OF S(3) PWait w]
    show ?thesis
    proof (cases "pcs (p_q s) 0")
      case (EnqRet b)
      then have "producer_step c False now s = Some (set_q_pc 0 Ready (s\<lparr>p_pc := (if b then PInc else PCall (e\<lparr>t_enqueue_ns := now\<rparr>))\<rparr>))"
        using PWait by (cases b) (simp_all add: producer_step_def)
      from go [OF this] PWait EnqRet show ?thesis by (cases b) (simp_all add: prank_def)
    next
      case (EnqLoad v)
      then have "thread_step False ?q (pcs (p_q s) 0) = Some (?q, EnqSeq v ?e)" by simp
      from run [OF _ this] EnqLoad show ?thesis by simp
    next
      case (EnqSeq v p)
      let ?x = "sint (seq (cell_at ?q p) - p)"
      have o: "deq_owned (pcs (p_q s) u) = None" for u using sd by (simp add: settled_def)
      consider (hit) "?x = 0" | (behind) "?x < 0" | (ahead) "0 < ?x" by linarith
      then show ?thesis
      proof cases
        case hit
        then have "thread_step False ?q (pcs (p_q s) 0) = Some (?q, EnqCas v p)" using EnqSeq by (simp add: Let_def)
        from run [OF _ this] EnqSeq show ?thesis by simp
      next
        case behind
        from enq_seq_full [OF S(1,2) EnqSeq this] o full have False by simp
        then show ?thesis ..
      next
        case ahead
        then have "p \<noteq> ?e" using enq_seq_fresh [OF S(1,2)] by auto
        moreover have "thread_step False ?q (pcs (p_q s) 0) = Some (?q, EnqLoad v)" using EnqSeq ahead by (simp add: Let_def)
        ultimately show ?thesis using run EnqSeq by simp
      qed
    next
      case (EnqCas v p)
      show ?thesis
      proof (cases "p = ?e")
        case False
        then have "thread_step False ?q (pcs (p_q s) 0) = Some (?q, EnqSeq v ?e)" using EnqCas by simp
        from run [OF _ this] EnqCas False show ?thesis by simp
      next
        case True
        then have "thread_step False ?q (pcs (p_q s) 0) = Some (?q\<lparr>enq_pos := ?e + 1\<rparr>, EnqWrite v ?e)" using EnqCas by simp
        from producer_run_step [OF PWait w _ this, where c = c and now = now] EnqCas obtain s' where
          s': "producer_step c False now s = Some s'" "c_pc s' = c_pc s" "deq_pos (queue (p_q s')) = deq_pos ?q"
            "p_pc s' = PWait e" "enq_log (p_q s') = enq_log (p_q s) @ [v]" using PWait by simp
        have "nearer c s' s" by (rule producer_work_nearer) (use s' less EnqCas PWait in simp_all)
        with s'(1) show ?thesis by (auto simp: producer_helps_def)
      qed
    qed (use w sd in \<open>auto simp: settled_def dest: spec [of _ 0]\<close>)
  qed (use np in simp)
qed

text \<open>With an empty queue and a producer that has stopped, a client gets nearer to its end.\<close>

lemma stop_moves:
  assumes st: "run_state c s k tk full" and sd: "settled s" and em: "\<not> has_entries s" and ps: "p_pc s = PStop"
    and t: "t \<in> {1..pc_clients c}" "c_pc s t \<noteq> CExit"
  shows "client_helps c t now s"
proof -
  let ?q = "queue (p_q s)" let ?d = "deq_pos (queue (p_q s))"
  note S = run_stateD [OF st]
  have ok: "client_ok c s t" using S(5) t by simp
  have dn: "p_done s" and len: "length (enq_log (p_q s)) = length (pc_qkeys c)"
    using S(3) ps by (simp_all add: producer_ok_def Let_def)
  have full: "unat ?d = length (enq_log (p_q s))" using em S(1) by (simp add: has_entries_def mpmc_inv_def)
  have nohit: "\<not> pc_ok (p_q s) (2 ^ k) tk full (DeqCas ?d)"
    using inv_cell [OF S(1), of "unat ?d mod 2 ^ k"] full by (auto simp: cell_ok_def Let_def)
  have run: ?thesis if "c_pc s t = CWait" "in_deq (pcs (p_q s) t)" "\<forall>r. pcs (p_q s) t \<noteq> DeqRet r"
      "thread_step False ?q (pcs (p_q s) t) = Some (q', pc')" "deq_pos q' = ?d"
      "wait_rank False ?d pc' < wait_rank False ?d (pcs (p_q s) t)" for q' pc'
    using client_run_nearer [OF t(1) that(1-5)] that(6) em by simp
  show ?thesis
  proof (cases "c_pc s t = CWait")
    case w: True
    then have d: "in_deq (pcs (p_q s) t)" using ok by (simp add: client_ok_def)
    show ?thesis
    proof (cases "pcs (p_q s) t")
      case DeqLoad
      then have "thread_step False ?q (pcs (p_q s) t) = Some (?q, DeqSeq ?d)" by simp
      from run [OF w d _ this] DeqLoad show ?thesis by simp
    next
      case (DeqRet r)
      then show ?thesis by (rule client_return_nearer [OF t(1) w])
    next
      case (DeqCas p)
      then have "p \<noteq> ?d" using nohit inv_pc [OF S(1), of t] by auto
      then have "thread_step False ?q (pcs (p_q s) t) = Some (?q, DeqSeq ?d)" using DeqCas by simp
      from run [OF w d _ this] show ?thesis using DeqCas by simp
    next
      case (DeqSeq p)
      let ?x = "sint (seq (cell_at ?q p) - (p + 1))"
      consider (hit) "?x = 0" | (behind) "?x < 0" | (ahead) "0 < ?x" by linarith
      then show ?thesis
      proof cases
        case hit
        then have "p \<noteq> ?d" using deq_seq_hit [OF S(1,2) DeqSeq] nohit by auto
        moreover have "thread_step False ?q (pcs (p_q s) t) = Some (?q, DeqCas p)" using DeqSeq hit by (simp add: Let_def)
        ultimately show ?thesis using run [OF w d] DeqSeq by simp
      next
        case behind
        then have "thread_step False ?q (pcs (p_q s) t) = Some (?q, DeqRet None)" using DeqSeq by (simp add: Let_def)
        from run [OF w d _ this] show ?thesis using DeqSeq by simp
      next
        case ahead
        then have "p \<noteq> ?d" using deq_seq_fresh [OF S(1,2)] by auto
        moreover have "thread_step False ?q (pcs (p_q s) t) = Some (?q, DeqLoad)" using DeqSeq ahead by (simp add: Let_def)
        ultimately show ?thesis using run [OF w d] DeqSeq by simp
      qed
    qed (use d sd in \<open>auto simp: settled_def dest: spec [of _ t]\<close>)
  next
    case nw: False
    show ?thesis
    proof (cases "\<exists>e. c_pc s t = CSize2 e")
      case False
      then show ?thesis using loop_moves [OF t(1) sd nw t(2) ok] dn len S(7) by auto
    next
      case True
      then obtain e where e: "c_pc s t = CSize2 e" by blast
      then have "unat e = unat ?d" using ok full len S(7) by (simp add: client_ok_def unat_of_nat_u64)
      then have "e = ?d" by (simp add: word_unat_eq_iff)
      then have s': "client_step c t False now s = Some (set_c t CExit s)" using e by (simp add: client_step_def Let_def)
      have "nearer c (set_c t CExit s) s" by (rule client_work_nearer [OF t(1)]) (use t(2) in simp_all)
      with s' show ?thesis by (auto simp: client_helps_def)
    qed
  qed
qed

text \<open>A reachable state is a state of a run.\<close>

lemma reachable_run_state:
  assumes "poisson_reachable c q s0 work s" "queue_fits c q"
  obtains k tk full where "run_state c s k tk full"
proof -
  have inv: "poisson_inv c q s" by (rule poisson_reachable_inv [OF assms])
  then have le: "length (enq_log (p_q s)) \<le> length (pc_qkeys c)" by (intro producer_log_le) (simp add: poisson_inv_def)
  from assms(2) obtain dflt cap where n: "MPMCQueue_new dflt cap = Some q" "2 \<le> unat cap"
    "length (pc_qkeys c) + unat cap < 2 ^ 63" by (auto simp: queue_fits_def)
  have "mpmc_reachable q (p_q s)" using inv by (simp add: poisson_inv_def)
  moreover have "length (enq_log (p_q s)) + unat cap < 2 ^ 63" using n(3) le by linarith
  ultimately obtain k tk full where "mpmc_inv (p_q s) k tk full" "length (enq_log (p_q s)) + 2 ^ k < 2 ^ 63"
    using reachable_facts [OF n(1,2)] by blast
  then have "run_state c s k tk full" using inv n(3) by (simp add: run_state_def poisson_inv_def)
  then show ?thesis by (rule that)
qed

lemma poisson_ready:
  assumes "poisson_reachable c q s0 work s" "queue_fits c q" "wl_ready work"
  shows "wl_ready (p_work s)"
  using assms(1)
proof (induction rule: poisson_reachable.induct)
  case (step s s')
  from step.hyps(2) show ?case
  proof cases
    case (producer b now)
    have "producer_ok c s" using poisson_reachable_inv [OF step.hyps(1) assms(2)] by (simp add: poisson_inv_def)
    from producer_frame [OF producer this] step.IH show ?thesis by simp
  next
    case (client t b now)
    from client(3) show ?thesis
    proof (cases rule: client_step_cases)
      case run
      from run(2) show ?thesis by (rule queue_run_cases) (use step.IH in simp)
    next
      case (work e ts te v wl v')
      then show ?thesis using run_ready [OF step.IH, of v] by auto
    qed (use step.IH in simp_all)
  qed
qed (use assms(3) in \<open>simp add: poisson_init_def\<close>)

context point_index
begin

lemma client_step_rel:
  assumes "pc_ix c = ix" "rel (p_idx s) m" "client_step c t b now s = Some s'"
  shows "rel (p_idx s') m \<or> (\<exists>e ts. c_pc s t = CIn e ts \<and> rel (p_idx s') (op_effect (e_op e) (e_key e) m))"
  using assms(3)
proof (cases rule: client_step_cases)
  case run
  from run(2) show ?thesis by (rule queue_run_cases) (use assms(2) in simp)
next
  case (op e ts idx v)
  then show ?thesis using do_op_rel [OF assms(2), of "e_op e" "e_key e" "e_scan_len e"] assms(1) by auto
qed (use assms(2) in simp_all)

text \<open>The index under the clients: it keeps the keys it was loaded with, and all its values when no query writes.\<close>

lemma poisson_rel:
  assumes "poisson_reachable c q s0 work s" "queue_fits c q" "pc_ix c = ix" "rel s0 m"
  shows "\<exists>m'. rel (p_idx s) m' \<and> drifted m m' \<and> ((\<forall>i < length (pc_qkeys c). \<not> writes (pc_ops c ! i)) \<longrightarrow> m' = m)"
  using assms(1)
proof (induction rule: poisson_reachable.induct)
  case start
  then show ?case using assms(4) drifted_refl by (auto simp: poisson_init_def)
next
  case (step s s')
  let ?ro = "\<forall>i < length (pc_qkeys c). \<not> writes (pc_ops c ! i)"
  from step.IH obtain m' where m': "rel (p_idx s) m'" "drifted m m'" "?ro \<longrightarrow> m' = m" by blast
  note inv = poisson_reachable_inv [OF step.hyps(1) assms(2)]
  from step.hyps(2) show ?case
  proof cases
    case (producer b now)
    have "producer_ok c s" using inv by (simp add: poisson_inv_def)
    from producer_frame [OF producer this] m' show ?thesis by auto
  next
    case (client t b now)
    from client_step_rel [OF assms(3) m'(1) client(3)] show ?thesis
    proof
      assume "\<exists>e ts. c_pc s t = CIn e ts \<and> rel (p_idx s') (op_effect (e_op e) (e_key e) m')"
      then obtain e ts where e: "c_pc s t = CIn e ts" "rel (p_idx s') (op_effect (e_op e) (e_key e) m')" by blast
      have "\<exists>i < length (pc_qkeys c). e_key e = pc_qkeys c ! i \<and> e_op e = pc_ops c ! i"
        using in_hand_query [OF step.hyps(1) assms(2), of t e] client(1,2) e(1) by (simp add: in_hand_def)
      then have "?ro \<longrightarrow> op_effect (e_op e) (e_key e) m' = m'" using op_effect_read by metis
      with e(2) drifted_op [OF m'(2)] m'(3) show ?thesis by metis
    qed (use m' in blast)
  qed
qed

text \<open>In a state that is not final there is a step that brings the end nearer.\<close>

lemma unsettled_cases:
  assumes "\<not> settled s"
  obtains (producer) "enq_owned (pcs (p_q s) 0) \<noteq> None \<or> deq_owned (pcs (p_q s) 0) \<noteq> None"
  | (owner) t where "t \<noteq> 0" "enq_owned (pcs (p_q s) t) \<noteq> None \<or> deq_owned (pcs (p_q s) t) \<noteq> None"
  | (inside) t where "past_lock (c_pc s t)"
  | (enter) t e ts where "c_pc s t = CEnter e ts" "\<forall>u. \<not> past_lock (c_pc s u)"
  using assms unfolding settled_def by (metis past_lock.simps(1,2,3))

lemma poisson_moves:
  assumes st: "run_state c s k tk full" and ix: "pc_ix c = ix" "rel (p_idx s) m" and wl: "wl_ready (p_work s)"
    and n: "1 \<le> pc_clients c" and nf: "\<not> poisson_finished c s"
  shows "\<exists>s'. poisson_step c s s' \<and> nearer c s' s"
proof (cases "settled s")
  case False
  then show ?thesis
  proof (cases rule: unsettled_cases)
    case producer
    then show ?thesis using producer_owner_moves [OF st] helps_step(2) by blast
  next
    case (owner t)
    then show ?thesis using client_owner_moves [OF st] helps_step(1) by blast
  next
    case (inside t)
    then show ?thesis using inside_moves [OF st ix wl] helps_step(1) by blast
  next
    case (enter t e ts)
    then show ?thesis using enter_moves [OF st] helps_step(1) by blast
  qed
next
  case True
  consider "has_entries s" | "\<not> has_entries s" "p_pc s \<noteq> PStop"
    | t where "\<not> has_entries s" "p_pc s = PStop" "t \<in> {1..pc_clients c}" "c_pc s t \<noteq> CExit"
    using nf by (auto simp: poisson_finished_def)
  then show ?thesis
  proof cases
    case 1
    with dequeue_moves [OF st True, of 1] n show ?thesis using helps_step(1) [of 1 c] by fastforce
  next
    case 2
    with enqueue_moves [OF st True, of "pc_sched c ! p_i s"] show ?thesis using helps_step(2) by blast
  next
    case 3
    with stop_moves [OF st True] show ?thesis using helps_step(1) by blast
  qed
qed

lemma poisson_can_finish:
  assumes q: "queue_fits c q" and n: "1 \<le> pc_clients c" and ix: "pc_ix c = ix" "rel s0 m" and wl: "wl_ready work"
    and "poisson_reachable c q s0 work s"
  shows "\<exists>s'. (poisson_step c)\<^sup>*\<^sup>* s s' \<and> poisson_reachable c q s0 work s' \<and> poisson_finished c s'"
  using assms(6)
proof (induction s rule: wfp_induct_rule [OF nearer_wf [of c]])
  case (1 s)
  show ?case
  proof (cases "poisson_finished c s")
    case False
    from reachable_run_state [OF 1(2) q] obtain k tk full where st: "run_state c s k tk full" .
    from poisson_rel [OF 1(2) q ix] obtain m' where "rel (p_idx s) m'" by blast
    from poisson_moves [OF st ix(1) this poisson_ready [OF 1(2) q wl] n False]
    obtain s1 where s1: "poisson_step c s s1" "nearer c s1 s" by blast
    from 1(1) [OF s1(2) poisson_reachable.step [OF 1(2) s1(1)]] show ?thesis
      using converse_rtranclp_into_rtranclp [of "poisson_step c", OF s1(1)] by blast
  qed (use 1(2) in blast)
qed

end

text \<open>The open-loop run never gets stuck. In every reachable state of producer and clients, on any index that
  meets its contract, either all have stopped or a thread can take a step that brings the end nearer in a
  well-founded order; so from every reachable state the run can be brought to its end, where the index still has the
  keys it was loaded with.\<close>

theorem poisson_never_stuck:
  assumes "point_index (pc_ix c) rel" "rel s0 m" "wl_ready work" "queue_fits c q" "1 \<le> pc_clients c"
    and "poisson_reachable c q s0 work s"
  shows "wfp (nearer c) \<and> (poisson_finished c s \<or> (\<exists>s'. poisson_step c s s' \<and> nearer c s' s)) \<and>
    (\<exists>s' m'. (poisson_step c)\<^sup>*\<^sup>* s s' \<and> poisson_finished c s' \<and> rel (p_idx s') m' \<and> dom m' = dom m)"
proof -
  from reachable_run_state [OF assms(6,4)] obtain k tk full where st: "run_state c s k tk full" .
  note rl = point_index.poisson_rel [OF assms(1) _ assms(4) refl assms(2)]
  from rl [OF assms(6)] obtain m1 where "rel (p_idx s) m1" by blast
  with point_index.poisson_moves [OF assms(1) st refl _ poisson_ready [OF assms(6,4,3)] assms(5)]
  have "poisson_finished c s \<or> (\<exists>s'. poisson_step c s s' \<and> nearer c s' s)" by blast
  moreover from point_index.poisson_can_finish [OF assms(1,4,5) refl assms(2,3,6)] obtain s' where
    s': "(poisson_step c)\<^sup>*\<^sup>* s s'" "poisson_reachable c q s0 work s'" "poisson_finished c s'" by blast
  moreover from rl [OF s'(2)] obtain m' where "rel (p_idx s') m'" "dom m' = dom m" by (auto simp: drifted_def)
  ultimately show ?thesis using nearer_wf [of c] by blast
qed

theorem poisson_never_stuck_witness:
  "\<exists>t s s'. poisson_reachable (demo_run 2) demo_queue t (demo_works 0) s \<and> (\<exists>e. c_pc s 1 = CIn e 9) \<and>
    (poisson_step (demo_run 2))\<^sup>*\<^sup>* s s' \<and> poisson_finished (demo_run 2) s'"
proof -
  from demo_loaded obtain t where t: "bt_rel t [7 \<mapsto> 70, 3 \<mapsto> 30, 9 \<mapsto> 90]" by blast
  from demo_two_clients [of t] obtain s e where
    s: "poisson_reachable (demo_run 2) demo_queue t (demo_works 0) s" "c_pc s 1 = CIn e 9" by blast
  have "point_index (pc_ix (demo_run 2)) bt_rel" "1 \<le> pc_clients (demo_run 2)"
    using bt.point_index_axioms by (simp_all add: demo_run_def)
  from poisson_never_stuck [OF this(1) t demo_works_ready demo_fits this(2) s(1)] s show ?thesis by auto
qed

end
