(* ===== verification/Fair_Runs.thy ===== *)
theory Fair_Runs
  imports Poisson_Progress
begin

text \<open>
  Runs under a scheduler. At every tick the scheduler gives one thread the processor: it takes a step if it can, and
  nothing happens when it waits for the lock or has stopped. A fair scheduler comes back to every thread again and
  again. Under a fair scheduler both modes of the benchmark end: the workers of a batch run; and the producer and the
  clients of an open-loop run, when the weak compare-exchange stops failing spuriously and the clock passes the
  deadlines. Neither needs a fair lock. The proof is by ranks: the work left does not grow, so from some tick on
  it is constant; from there on the threads that own a cell of the queue or an entry come to the end of what they do, and then
  one thread after the other would do a piece of work.
\<close>

subsection \<open>Schedules\<close>

record tick =
  tk_thread :: nat
  tk_spurious :: bool
  tk_now :: u64

primrec exec :: "(tick \<Rightarrow> 's \<Rightarrow> 's option) \<Rightarrow> (nat \<Rightarrow> tick) \<Rightarrow> 's \<Rightarrow> nat \<Rightarrow> 's" where
  "exec step sch s 0 = s"
| "exec step sch s (Suc n) =
     (case step (sch n) (exec step sch s n) of None \<Rightarrow> exec step sch s n | Some s' \<Rightarrow> s')"

definition fair :: "nat set \<Rightarrow> (nat \<Rightarrow> tick) \<Rightarrow> bool" where
  "fair T sch \<longleftrightarrow> (\<forall>t \<in> T. \<forall>i. \<exists>j \<ge> i. tk_thread (sch j) = t)"

lemma exec_add: "exec step sch s (i + j) = exec step (\<lambda>n. sch (i + n)) (exec step sch s i) j"
  by (induction j) (simp_all split: option.split)

lemma fair_shift: "fair T sch \<Longrightarrow> fair T (\<lambda>n. sch (i + n))"
  unfolding fair_def by (metis le_add_diff_inverse le_add1 add_le_cancel_left order_trans)

lemma fairD:
  assumes "fair T sch" "t \<in> T"
  obtains j where "i \<le> j" "tk_thread (sch j) = t"
  using assms unfolding fair_def by blast

text \<open>A number that does not grow is constant in the end; one that falls at every turn of a thread cannot exist.\<close>

lemma eventually_constant:
  fixes f :: "nat \<Rightarrow> nat"
  assumes "\<And>j. f (Suc j) \<le> f j"
  obtains i where "\<And>j. f (i + j) = f i"
proof -
  obtain i where i: "\<forall>j. f i \<le> f j" using ex_has_least_nat [of "\<lambda>_. True" 0 f] by auto
  have "f (i + j) \<le> f i" for j using assms by (induction j) (auto intro: order_trans)
  with i have "f (i + j) = f i" for j by (simp add: le_antisym)
  then show ?thesis by (rule that)
qed

lemma fair_descent:
  fixes f :: "nat \<Rightarrow> nat"
  assumes "fair T sch" "t \<in> T" "\<And>j. f (Suc j) \<le> f j" "\<And>j. tk_thread (sch j) = t \<Longrightarrow> f (Suc j) < f j"
  shows False
proof -
  from eventually_constant [of f] assms(3) obtain i where i: "\<And>j. f (i + j) = f i" by blast
  from fairD [OF assms(1,2)] obtain j where "i \<le> j" "tk_thread (sch j) = t" .
  with assms(4) i [of "j - i"] i [of "Suc j - i"] show False by (metis le_SucI le_add_diff_inverse less_irrefl)
qed

text \<open>The interface to a system of threads: an invariant and a number that no step increases.\<close>

locale threads =
  fixes step :: "tick \<Rightarrow> 's \<Rightarrow> 's option" and inv :: "'s \<Rightarrow> bool" and work :: "'s \<Rightarrow> nat"
  assumes inv_step: "inv s \<Longrightarrow> step k s = Some s' \<Longrightarrow> inv s'"
    and work_step: "inv s \<Longrightarrow> step k s = Some s' \<Longrightarrow> work s' \<le> work s"
begin

lemma exec_inv: "inv s \<Longrightarrow> inv (exec step sch s i)"
  by (induction i) (auto split: option.split intro: inv_step)

lemma work_settles:
  assumes "inv s"
  obtains i where "\<And>j. work (exec step sch s (i + j)) = work (exec step sch s i)"
proof -
  have "work (exec step sch s (Suc j)) \<le> work (exec step sch s j)" for j
    using work_step [OF exec_inv [OF assms]] by (auto split: option.split)
  from eventually_constant [of "\<lambda>j. work (exec step sch s j)", OF this] that show ?thesis by blast
qed

end

subsection \<open>Batch runs\<close>

definition batch_thread :: "'s batch_cfg \<Rightarrow> tick \<Rightarrow> 's batch \<Rightarrow> 's batch option" where
  "batch_thread c k s = (if tk_thread k < bc_workers c then worker_step c (tk_thread k) (tk_now k) s else None)"

lemma batch_thread_step: "batch_thread c k s = Some s' \<Longrightarrow> batch_step c s s'"
  by (auto simp: batch_thread_def intro: batch_step.step split: if_splits)

interpretation bts: threads "batch_thread c" "batch_reachable c s0 works" "batch_todo c" for c s0 works
proof
  fix s k s'
  assume r: "batch_reachable c s0 works s" "batch_thread c k s = Some s'"
  show "batch_reachable c s0 works s'" by (rule batch_reachable.step [OF r(1) batch_thread_step [OF r(2)]])
  from r(2) batch_todo_step [OF batch_reachable_inv [OF r(1)]] show "batch_todo c s' \<le> batch_todo c s"
    by (fastforce simp: batch_thread_def split: if_splits)
qed

text \<open>What a worker can do does not depend on the clock.\<close>

lemma worker_step_now:
  assumes "worker_step c w now s = Some s'" "s' \<noteq> s"
  shows "\<exists>s''. worker_step c w now' s = Some s'' \<and> \<not> (bw_pc (b_ws s w) = Spin \<and> b_gate s > 0)"
  using assms(1) by (cases rule: worker_step_cases) (use assms(2) in \<open>simp_all add: worker_step_def Let_def\<close>)

context point_index
begin

lemma batch_fair:
  assumes ix: "bc_ix c = ix" "rel s0 m" and wl: "\<forall>w < bc_workers c. wl_ready (works w)"
    and r: "batch_reachable c s0 works s" and fair: "fair {..<bc_workers c} sch"
  obtains i where "batch_finished c (exec (batch_thread c) sch s i)"
proof -
  let ?x = "exec (batch_thread c) sch s"
  from bts.work_settles [OF r] obtain i where i: "\<And>j. batch_todo c (?x (i + j)) = batch_todo c (?x i)" by blast
  have R: "batch_reachable c s0 works (?x j)" for j by (rule bts.exec_inv [OF r])
  note T = batch_todo_step [OF batch_reachable_inv [OF R]]
  have same: "?x (i + j) = ?x i" for j
  proof (induction j)
    case (Suc j)
    show ?case
    proof (cases "batch_thread c (sch (i + j)) (?x (i + j))")
      case (Some s')
      then have "batch_todo c s' = batch_todo c (?x (i + j))" using i [of "Suc j"] i [of j] by simp
      with Some T have "s' = ?x (i + j)" by (fastforce simp: batch_thread_def split: if_splits)
      with Some Suc show ?thesis by simp
    qed (use Suc in simp)
  qed simp
  have "batch_finished c (?x i)"
  proof (rule ccontr)
    assume nf: "\<not> batch_finished c (?x i)"
    from batch_rel [OF ix R] obtain m' where "rel (b_idx (?x i)) m'" by blast
    from batch_moves [OF ix(1) this batch_reachable_inv [OF R] nf batch_ready [OF R wl]] obtain s' w now where
      s': "w < bc_workers c" "worker_step c w now (?x i) = Some s'" "batch_todo c s' < batch_todo c (?x i)"
      by (auto elim: batch_step.cases)
    from fairD [OF fair, of w i] s'(1) obtain j where j: "i \<le> j" "tk_thread (sch j) = w" by blast
    from worker_step_now [OF s'(2), of "tk_now (sch j)"] s'(3) obtain s'' where
      s'': "worker_step c w (tk_now (sch j)) (?x i) = Some s''" "\<not> (bw_pc (b_ws (?x i) w) = Spin \<and> b_gate (?x i) > 0)" by blast
    then have "batch_todo c s'' < batch_todo c (?x i)" using T [OF s'(1) s''(1)] by blast
    moreover have "?x j = ?x i" "?x (Suc j) = ?x i" using same [of "j - i"] same [of "Suc j - i"] j(1) by simp_all
    moreover have "?x (Suc j) = s''" using s''(1) s'(1) j(2) \<open>?x j = ?x i\<close> by (simp add: batch_thread_def)
    ultimately show False by simp
  qed
  then show ?thesis by (rule that)
qed

end

subsection \<open>Open-loop runs\<close>

text \<open>Thread 0 is the producer, threads 1 to \<open>clients\<close> are the clients.\<close>

definition poisson_thread :: "'s poisson_cfg \<Rightarrow> tick \<Rightarrow> 's SharedState \<Rightarrow> 's SharedState option" where
  "poisson_thread c k s =
     (if tk_thread k = 0 then producer_step c (tk_spurious k) (tk_now k) s
      else if tk_thread k \<le> pc_clients c then client_step c (tk_thread k) (tk_spurious k) (tk_now k) s
      else None)"

lemma poisson_thread_step: "poisson_thread c k s = Some s' \<Longrightarrow> poisson_step c s s'"
  by (auto simp: poisson_thread_def Suc_le_eq intro: poisson_step.producer poisson_step.client split: if_splits)

text \<open>A reachable state, with the facts about the queue that bound the work left.\<close>

definition fits_state :: "'s poisson_cfg \<Rightarrow> 's SharedState \<Rightarrow> bool" where
  "fits_state c s \<longleftrightarrow> queue_ok c s \<and> producer_ok c s \<and> (\<forall>t \<ge> 1. client_ok c s t)"

lemma reachable_fits:
  assumes "poisson_reachable c q s0 work s" "queue_fits c q"
  shows "fits_state c s"
proof -
  note inv = poisson_reachable_inv [OF assms]
  then have "length (enq_log (p_q s)) \<le> length (pc_qkeys c)" by (intro producer_log_le) (simp add: poisson_inv_def)
  with inv queue_ok_reachable [OF assms(2)] show ?thesis by (simp add: fits_state_def poisson_inv_def)
qed

lemma step_running:
  "client_step c t b now s = Some s' \<Longrightarrow> c_pc s t \<noteq> CExit" "producer_step c b now s = Some s' \<Longrightarrow> p_pc s \<noteq> PStop"
  by (rule notI, simp add: client_step_def, rule notI, simp add: producer_step_def)

lemma client_work:
  assumes s: "fits_state c s" "fits_state c s'" and st: "client_step c t b now s = Some s'" and t: "t \<in> {1..pc_clients c}"
  shows "work_left c s' < work_left c s \<or>
    work_left c s' = work_left c s \<and> deq_pos (queue (p_q s')) = deq_pos (queue (p_q s)) \<and> c_pc s' t \<noteq> CExit"
proof -
  let ?d = "unat (deq_pos (queue (p_q s)))" and ?d' = "unat (deq_pos (queue (p_q s')))" and ?n = "length (pc_qkeys c)"
  let ?L = "\<lambda>s. {u \<in> {1..pc_clients c}. c_pc s u \<noteq> CExit}"
  have w: "c_pc s t = CWait \<Longrightarrow> in_deq (pcs (p_q s) t)" using s(1) t by (simp add: fits_state_def client_ok_def)
  have f: "p_pc s' = p_pc s" "enq_log (p_q s') = enq_log (p_q s)" "\<forall>u. u \<noteq> t \<longrightarrow> c_pc s' u = c_pc s u"
    using client_frame [OF st] w by simp_all
  note run = step_running(1) [OF st]
  have "u \<in> ?L s" if "u \<in> ?L s'" for u using that f(3) run by (cases "u = t") simp_all
  then have L: "t \<in> ?L s" "?L s' \<subseteq> ?L s" using run t by (simp, blast)
  have fin: "finite (?L s)" by simp
  have le: "card (?L s') \<le> card (?L s)" by (rule card_mono [OF fin L(2)])
  have lt: "card (?L s') < card (?L s)" if "c_pc s' t = CExit" using L that by (intro psubset_card_mono [OF fin]) blast
  have fits: "producer_ok c s" "producer_ok c s'" "queue_ok c s" "queue_ok c s'" using s by (simp_all add: fits_state_def)
  have q: "?d \<le> ?n" "?d' \<le> ?n" "?n < 2 ^ 63"
    using producer_log_le [OF fits(1)] producer_log_le [OF fits(2)] fits(3,4) unfolding queue_ok_def by linarith+
  define a where "a = length (pc_qkeys c) - length (enq_log (p_q s)) + (if p_pc s = PStop then 0 else 1)"
  have W: "work_left c s = a + (?n - ?d) + card (?L s)" "work_left c s' = a + (?n - ?d') + card (?L s')"
    unfolding work_left_def a_def f(1,2) by linarith+
  show ?thesis
  proof (cases "deq_pos (queue (p_q s')) = deq_pos (queue (p_q s))")
    case True
    then have "work_left c s' \<le> work_left c s" "c_pc s' t = CExit \<Longrightarrow> work_left c s' < work_left c s"
      unfolding W using le lt by simp_all
    with True show ?thesis by (meson le_neq_implies_less)
  next
    case False
    with client_deq_pos [OF st] have "deq_pos (queue (p_q s')) = deq_pos (queue (p_q s)) + 1" by blast
    then have "?d' = Suc ?d" using q by (simp add: unat_word_ariths)
    then show ?thesis unfolding W using q(2) le by linarith
  qed
qed

lemma producer_log:
  assumes "producer_step c b now s = Some s'"
  shows "\<exists>xs. enq_log (p_q s') = enq_log (p_q s) @ xs"
  using assms
proof (cases rule: producer_step_cases)
  case (run e)
  from run(2) show ?thesis by (rule queue_run_cases) simp
qed simp_all

lemma producer_work:
  assumes s: "fits_state c s" "fits_state c s'" and st: "producer_step c b now s = Some s'"
  shows "work_left c s' < work_left c s \<or>
    work_left c s' = work_left c s \<and> enq_log (p_q s') = enq_log (p_q s) \<and> p_pc s' \<noteq> PStop"
proof -
  have f: "c_pc s' = c_pc s" "deq_pos (queue (p_q s')) = deq_pos (queue (p_q s))"
    using producer_frame [OF st] s(1) by (simp_all add: fits_state_def)
  note step_running(2) [OF st]
  moreover have "length (enq_log (p_q s')) \<le> length (pc_qkeys c)" using s(2) by (intro producer_log_le) (simp add: fits_state_def)
  moreover from producer_log [OF st] obtain xs where "enq_log (p_q s') = enq_log (p_q s) @ xs" by blast
  ultimately show ?thesis by (cases xs) (auto simp: work_left_def f)
qed

interpretation pts: threads "poisson_thread c" "\<lambda>s. poisson_reachable c q s0 work s \<and> queue_fits c q" "work_left c" for c q s0 work
proof
  fix s k s'
  assume r: "poisson_reachable c q s0 work s \<and> queue_fits c q" and st: "poisson_thread c k s = Some s'"
  show r': "poisson_reachable c q s0 work s' \<and> queue_fits c q"
    using poisson_reachable.step [OF conjunct1 [OF r] poisson_thread_step [OF st]] r by simp
  have "fits_state c s" "fits_state c s'"
    by (rule reachable_fits [OF conjunct1 conjunct2, OF r r], rule reachable_fits [OF conjunct1 conjunct2, OF r' r'])
  from client_work [OF this] producer_work [OF this] st show "work_left c s' \<le> work_left c s"
    by (fastforce simp: poisson_thread_def split: if_splits)
qed

text \<open>A step that leaves the work left as it is moves neither position of the queue and stops no thread; it changes
  only what its own thread keeps.\<close>

lemma quiet_step:
  assumes s: "fits_state c s" "fits_state c s'" and st: "poisson_thread c k s = Some s'"
    and w: "work_left c s' = work_left c s"
  shows "enq_log (p_q s') = enq_log (p_q s)" "deq_pos (queue (p_q s')) = deq_pos (queue (p_q s))"
    "enq_pos (queue (p_q s')) = enq_pos (queue (p_q s))"
    "t \<noteq> tk_thread k \<Longrightarrow> pcs (p_q s') t = pcs (p_q s) t \<and> c_pc s' t = c_pc s t \<and> (t = 0 \<longrightarrow> p_pc s' = p_pc s)"
    "p_pc s' = PStop \<longleftrightarrow> p_pc s = PStop" "c_pc s' t = CExit \<longleftrightarrow> c_pc s t = CExit"
proof -
  have "enq_log (p_q s') = enq_log (p_q s) \<and> deq_pos (queue (p_q s')) = deq_pos (queue (p_q s)) \<and>
    (\<forall>t. t \<noteq> tk_thread k \<longrightarrow> pcs (p_q s') t = pcs (p_q s) t \<and> c_pc s' t = c_pc s t \<and> (t = 0 \<longrightarrow> p_pc s' = p_pc s)) \<and>
    (p_pc s' = PStop \<longleftrightarrow> p_pc s = PStop) \<and> (\<forall>t. c_pc s' t = CExit \<longleftrightarrow> c_pc s t = CExit)"
  proof (cases "tk_thread k = 0")
    case True
    then have p: "producer_step c (tk_spurious k) (tk_now k) s = Some s'" using st by (simp add: poisson_thread_def)
    show ?thesis using step_running(2) [OF p] producer_work [OF s p] w producer_frame [OF p] s(1) True by (auto simp: fits_state_def)
  next
    case False
    then have p: "client_step c (tk_thread k) (tk_spurious k) (tk_now k) s = Some s'" and t: "tk_thread k \<in> {1..pc_clients c}"
      using st by (auto simp: poisson_thread_def Suc_le_eq split: if_splits)
    have "c_pc s (tk_thread k) = CWait \<Longrightarrow> in_deq (pcs (p_q s) (tk_thread k))"
      using s(1) t by (simp add: fits_state_def client_ok_def)
    note f = client_frame [OF p this]
    have "\<forall>t. c_pc s' t = CExit \<longleftrightarrow> c_pc s t = CExit" using f step_running(1) [OF p] client_work [OF s p t] w by (metis less_irrefl)
    then show ?thesis using f client_work [OF s p t] w by simp
  qed
  then show "enq_log (p_q s') = enq_log (p_q s)" "deq_pos (queue (p_q s')) = deq_pos (queue (p_q s))"
    "t \<noteq> tk_thread k \<Longrightarrow> pcs (p_q s') t = pcs (p_q s) t \<and> c_pc s' t = c_pc s t \<and> (t = 0 \<longrightarrow> p_pc s' = p_pc s)"
    "p_pc s' = PStop \<longleftrightarrow> p_pc s = PStop" "c_pc s' t = CExit \<longleftrightarrow> c_pc s t = CExit" by blast+
  then show "enq_pos (queue (p_q s')) = enq_pos (queue (p_q s))" using s by (simp add: fits_state_def queue_ok_def)
qed

text \<open>The end that a quiet step of a thread brings nearer is nearer by the rank of this thread.\<close>

lemma quiet_ranks:
  assumes s: "fits_state c s" "fits_state c s'" and st: "poisson_thread c k s = Some s'" and w: "work_left c s' = work_left c s"
  shows "has_entries s' \<longleftrightarrow> has_entries s"
    "t \<noteq> tk_thread k \<Longrightarrow> crank s' t = crank s t" "tk_thread k \<noteq> 0 \<Longrightarrow> prank s' = prank s"
  using quiet_step [OF assms] quiet_step(4) [OF assms, of 0] by (simp_all add: has_entries_def crank_def prank_def)

lemma helps_client:
  assumes s: "fits_state c s" "fits_state c s'" and st: "poisson_thread c k s = Some s'" and w: "work_left c s' = work_left c s"
    and h: "client_helps c (tk_thread k) (tk_now k) s" "tk_thread k \<in> {1..pc_clients c}" "\<not> tk_spurious k"
  shows "crank s' (tk_thread k) < crank s (tk_thread k)"
proof -
  let ?t = "tk_thread k" and ?C = "{1..pc_clients c}"
  from h st have "nearer c s' s" by (auto simp: client_helps_def poisson_thread_def)
  then have "ranks c s' < ranks c s" using w by (simp add: nearer_iff)
  moreover have "prank s' = prank s" using quiet_ranks(3) [OF s st w] h(2) by simp
  moreover have "(\<Sum>t \<in> ?C - {?t}. crank s' t) = (\<Sum>t \<in> ?C - {?t}. crank s t)"
    by (rule sum.cong) (use quiet_ranks(2) [OF s st w] in simp_all)
  moreover have "(\<Sum>t \<in> ?C. crank x t) = crank x ?t + (\<Sum>t \<in> ?C - {?t}. crank x t)" for x :: "'a SharedState"
    using h(2) by (intro sum.remove) simp_all
  ultimately show ?thesis by (simp add: ranks_def)
qed

lemma helps_producer:
  assumes s: "fits_state c s" "fits_state c s'" and st: "poisson_thread c k s = Some s'" and w: "work_left c s' = work_left c s"
    and h: "producer_helps c (tk_now k) s" "tk_thread k = 0" "\<not> tk_spurious k"
  shows "prank s' < prank s"
proof -
  from h st have "nearer c s' s" by (auto simp: producer_helps_def poisson_thread_def)
  then have "ranks c s' < ranks c s" using w by (simp add: nearer_iff)
  moreover have "(\<Sum>t \<in> {1..pc_clients c}. crank s' t) = (\<Sum>t \<in> {1..pc_clients c}. crank s t)"
    by (rule sum.cong) (use quiet_ranks(2) [OF s st w] h(2) in simp_all)
  ultimately show ?thesis by (simp add: ranks_def)
qed

text \<open>What a thread still has to do with the cell it owns or the entry it holds.\<close>

fun owner_weight :: "'a pc \<Rightarrow> nat" where
  "owner_weight (EnqWrite v p) = 2"
| "owner_weight (EnqStore v p) = 1"
| "owner_weight (DeqRead p) = 7"
| "owner_weight (DeqStore p x) = 6"
| "owner_weight (DeqRet (Some e)) = 5"
| "owner_weight _ = 0"

fun hand_weight :: "QueueEntry pc \<Rightarrow> cpc \<Rightarrow> nat" where
  "hand_weight pc CWait = owner_weight pc"
| "hand_weight pc (CEnter e ts) = 4"
| "hand_weight pc (CIn e ts) = 3"
| "hand_weight pc (COut e ts v) = 2"
| "hand_weight pc (CWork e ts te v) = 1"
| "hand_weight pc _ = 0"

definition weight :: "'s SharedState \<Rightarrow> nat \<Rightarrow> nat" where
  "weight s t = (if t = 0 then owner_weight (pcs (p_q s) 0) else hand_weight (pcs (p_q s) t) (c_pc s t))"

lemma weight_cong: "pcs (p_q s') t = pcs (p_q s) t \<Longrightarrow> c_pc s' t = c_pc s t \<Longrightarrow> weight s' t = weight s t"
  by (cases "t = 0") (simp_all add: weight_def)

lemma owner_weight_step:
  assumes "thread_step b q pc = Some (q', pc')" "deq_pos q' = deq_pos q" "enq_pos q' = enq_pos q"
  shows "owner_weight pc' \<le> owner_weight pc \<and> (0 < owner_weight pc \<longrightarrow> owner_weight pc' < owner_weight pc)"
proof (cases pc)
  case (EnqCas v p)
  have "enq_pos q' = p + 1" if "enq_pos q = p \<and> \<not> b" using assms(1) EnqCas that by auto
  then have "\<not> (enq_pos q = p \<and> \<not> b)" using assms(3) by (metis add_cancel_right_right zero_neq_one)
  then show ?thesis using assms(1) EnqCas by auto
next
  case (DeqCas p)
  have "deq_pos q' = p + 1" if "deq_pos q = p \<and> \<not> b" using assms(1) DeqCas that by auto
  then have "\<not> (deq_pos q = p \<and> \<not> b)" using assms(2) by (metis add_cancel_right_right zero_neq_one)
  then show ?thesis using assms(1) DeqCas by auto
qed (use assms in \<open>auto simp: Let_def split: if_splits\<close>)

lemma weight_own_step:
  assumes s: "fits_state c s" "fits_state c s'" and st: "poisson_thread c k s = Some s'" and w: "work_left c s' = work_left c s"
  shows "weight s' (tk_thread k) \<le> weight s (tk_thread k)"
    "0 < weight s (tk_thread k) \<Longrightarrow> weight s' (tk_thread k) < weight s (tk_thread k)"
proof -
  let ?t = "tk_thread k"
  note q = quiet_step(2,3) [OF assms]
  have "weight s' ?t \<le> weight s ?t \<and> (0 < weight s ?t \<longrightarrow> weight s' ?t < weight s ?t)"
  proof (cases "?t = 0")
    case True
    with st have p: "producer_step c (tk_spurious k) (tk_now k) s = Some s'" by (simp add: poisson_thread_def)
    then show ?thesis
    proof (cases rule: producer_step_cases)
      case (run e)
      from run(2) show ?thesis
        by (rule queue_run_cases) (use q owner_weight_step [of _ "queue (p_q s)"] True in \<open>simp add: weight_def\<close>)
    next
      case spin
      then have "pcs (p_q s) 0 = Ready" using s(1) by (simp add: fits_state_def producer_ok_def Let_def)
      then show ?thesis using spin True by (simp add: weight_def)
    qed (use s(1) True in \<open>auto simp: weight_def fits_state_def producer_ok_def Let_def\<close>)
  next
    case False
    then have p: "client_step c ?t (tk_spurious k) (tk_now k) s = Some s'"
      using st by (auto simp: poisson_thread_def split: if_splits)
    then show ?thesis
    proof (cases rule: client_step_cases)
      case run
      from run(2) show ?thesis
        by (rule queue_run_cases) (use run(1) q owner_weight_step [of _ "queue (p_q s)"] False in \<open>simp add: weight_def\<close>)
    qed (use False in \<open>simp_all add: weight_def\<close>)
  qed
  then show "weight s' ?t \<le> weight s ?t" "0 < weight s ?t \<Longrightarrow> weight s' ?t < weight s ?t" by blast+
qed

subsection \<open>Runs in which no more work is done\<close>

text \<open>A scheduler that lets an open-loop run end: fair, with finitely many spurious failures, and with a clock that
  passes the deadlines.\<close>

definition good_schedule :: "'s poisson_cfg \<Rightarrow> (nat \<Rightarrow> tick) \<Rightarrow> bool" where
  "good_schedule c sch \<longleftrightarrow> fair {..pc_clients c} sch \<and> (\<exists>i. \<forall>j \<ge> i. \<not> tk_spurious (sch j)) \<and>
     (\<exists>i. \<forall>j \<ge> i. \<forall>n < length (pc_qkeys c). pc_sched c ! n \<le> tk_now (sch j))"

text \<open>The part of a run after the last piece of work, the last spurious failure and the last deadline.\<close>

definition calm ::
  "'s poisson_cfg \<Rightarrow> QueueEntry MPMCQueue \<Rightarrow> 's \<Rightarrow> Workload \<Rightarrow> (nat \<Rightarrow> tick) \<Rightarrow> 's SharedState \<Rightarrow> bool" where
  "calm c q s0 work sch s \<longleftrightarrow> poisson_reachable c q s0 work s \<and> queue_fits c q \<and> fair {..pc_clients c} sch \<and>
     (\<forall>j. \<not> tk_spurious (sch j)) \<and> (\<forall>j. \<forall>n < length (pc_qkeys c). pc_sched c ! n \<le> tk_now (sch j)) \<and>
     (\<forall>j. work_left c (exec (poisson_thread c) sch s j) = work_left c s)"

lemma calmD:
  assumes "calm c q s0 work sch s"
  shows "poisson_reachable c q s0 work (exec (poisson_thread c) sch s j)" "queue_fits c q" "fair {..pc_clients c} sch"
    "\<not> tk_spurious (sch j)" "n < length (pc_qkeys c) \<Longrightarrow> pc_sched c ! n \<le> tk_now (sch j)"
    "fits_state c (exec (poisson_thread c) sch s j)"
proof -
  have r: "poisson_reachable c q s0 work s \<and> queue_fits c q" using assms by (simp add: calm_def)
  from pts.exec_inv [OF r, of sch j] show R: "poisson_reachable c q s0 work (exec (poisson_thread c) sch s j)" "queue_fits c q"
    by blast+
  show "fits_state c (exec (poisson_thread c) sch s j)" by (rule reachable_fits [OF R])
qed (use assms in \<open>simp_all add: calm_def\<close>)

lemma calm_shift:
  assumes "calm c q s0 work sch s"
  shows "calm c q s0 work (\<lambda>n. sch (i + n)) (exec (poisson_thread c) sch s i)"
proof -
  have "work_left c (exec (poisson_thread c) sch s j) = work_left c s" for j using assms by (simp add: calm_def)
  moreover have "fair {..pc_clients c} (\<lambda>n. sch (i + n))" by (rule fair_shift [OF calmD(3) [OF assms]])
  ultimately show ?thesis using calmD [OF assms] unfolding calm_def exec_add [symmetric] by simp
qed

lemma good_schedule_calm:
  assumes r: "poisson_reachable c q s0 work s" "queue_fits c q" and g: "good_schedule c sch"
  obtains i where "calm c q s0 work (\<lambda>n. sch (i + n)) (exec (poisson_thread c) sch s i)"
proof -
  let ?x = "exec (poisson_thread c) sch s"
  have R: "poisson_reachable c q s0 work s \<and> queue_fits c q" using r by blast
  from pts.work_settles [OF R] obtain i where i: "\<And>j. work_left c (?x (i + j)) = work_left c (?x i)" by blast
  from g obtain i1 i2 where b: "\<forall>j \<ge> i1. \<not> tk_spurious (sch j)"
    "\<forall>j \<ge> i2. \<forall>n < length (pc_qkeys c). pc_sched c ! n \<le> tk_now (sch j)" by (auto simp: good_schedule_def)
  let ?i = "i + i1 + i2"
  have "work_left c (?x (?i + j)) = work_left c (?x ?i)" for j
    using i [of "i1 + i2 + j"] i [of "i1 + i2"] by (simp only: add.assoc)
  moreover have "fair {..pc_clients c} (\<lambda>n. sch (?i + n))" using g by (intro fair_shift) (simp add: good_schedule_def)
  ultimately have "calm c q s0 work (\<lambda>n. sch (?i + n)) (?x ?i)"
    using b pts.exec_inv [OF R, of sch ?i] unfolding calm_def exec_add [symmetric] by simp
  then show ?thesis by (rule that)
qed

text \<open>At a tick of such a run its thread is idle or takes a quiet step.\<close>

lemma calm_cases:
  assumes "calm c q s0 work sch s"
  obtains (idle) "poisson_thread c (sch j) (exec (poisson_thread c) sch s j) = None"
      "exec (poisson_thread c) sch s (Suc j) = exec (poisson_thread c) sch s j"
  | (move) "poisson_thread c (sch j) (exec (poisson_thread c) sch s j) = Some (exec (poisson_thread c) sch s (Suc j))"
      "work_left c (exec (poisson_thread c) sch s (Suc j)) = work_left c (exec (poisson_thread c) sch s j)"
proof (cases "poisson_thread c (sch j) (exec (poisson_thread c) sch s j)")
  case None
  then show ?thesis by (intro that(1)) simp_all
next
  case (Some s')
  have w: "work_left c (exec (poisson_thread c) sch s k) = work_left c s" for k using assms by (simp add: calm_def)
  show ?thesis using Some w [of "Suc j"] w [of j] by (intro that(2)) simp_all
qed

lemma calm_const:
  assumes "calm c q s0 work sch s"
  shows "has_entries (exec (poisson_thread c) sch s j) \<longleftrightarrow> has_entries s"
    "p_pc (exec (poisson_thread c) sch s j) = PStop \<longleftrightarrow> p_pc s = PStop"
    "c_pc (exec (poisson_thread c) sch s j) t = CExit \<longleftrightarrow> c_pc s t = CExit"
proof -
  let ?x = "exec (poisson_thread c) sch s"
  have "(has_entries (?x (Suc j)) \<longleftrightarrow> has_entries (?x j)) \<and> (p_pc (?x (Suc j)) = PStop \<longleftrightarrow> p_pc (?x j) = PStop) \<and>
      (c_pc (?x (Suc j)) t = CExit \<longleftrightarrow> c_pc (?x j) t = CExit)" for j
  proof (cases j rule: calm_cases [OF assms])
    case 2
    note F = calmD(6) [OF assms, of j] calmD(6) [OF assms, of "Suc j"]
    from quiet_ranks(1) [OF F 2] quiet_step(5,6) [OF F 2] show ?thesis by blast
  qed simp
  then have "(has_entries (?x j) \<longleftrightarrow> has_entries s) \<and> (p_pc (?x j) = PStop \<longleftrightarrow> p_pc s = PStop) \<and>
      (c_pc (?x j) t = CExit \<longleftrightarrow> c_pc s t = CExit)" by (induction j) auto
  then show "has_entries (?x j) \<longleftrightarrow> has_entries s" "p_pc (?x j) = PStop \<longleftrightarrow> p_pc s = PStop"
    "c_pc (?x j) t = CExit \<longleftrightarrow> c_pc s t = CExit" by blast+
qed

text \<open>In it no thread can help at all its turns.\<close>

lemma calm_client:
  assumes C: "calm c q s0 work sch s" and t: "t \<in> {1..pc_clients c}"
    and h: "\<And>j. tk_thread (sch j) = t \<Longrightarrow> client_helps c t (tk_now (sch j)) (exec (poisson_thread c) sch s j)"
  shows False
proof (rule fair_descent [OF calmD(3) [OF C], of t "\<lambda>j. crank (exec (poisson_thread c) sch s j) t"])
  fix j
  let ?x = "exec (poisson_thread c) sch s"
  note F = calmD(6) [OF C, of j] calmD(6) [OF C, of "Suc j"]
  show less: "crank (?x (Suc j)) t < crank (?x j) t" if j: "tk_thread (sch j) = t"
  proof (cases j rule: calm_cases [OF C])
    case 1
    then show ?thesis using h [OF j] j t calmD(4) [OF C] by (auto simp: poisson_thread_def client_helps_def)
  next
    case 2
    from helps_client [OF F 2] h [OF j] j t calmD(4) [OF C] show ?thesis by simp
  qed
  show "crank (?x (Suc j)) t \<le> crank (?x j) t"
  proof (cases "tk_thread (sch j) = t")
    case False
    then show ?thesis by (cases j rule: calm_cases [OF C]) (use quiet_ranks(2) [OF F, of "sch j" t] in simp_all)
  qed (use less in simp)
qed (use t in simp)

lemma calm_producer:
  assumes C: "calm c q s0 work sch s"
    and h: "\<And>j. tk_thread (sch j) = 0 \<Longrightarrow> producer_helps c (tk_now (sch j)) (exec (poisson_thread c) sch s j)"
  shows False
proof (rule fair_descent [OF calmD(3) [OF C], of 0 "\<lambda>j. prank (exec (poisson_thread c) sch s j)"])
  fix j
  let ?x = "exec (poisson_thread c) sch s"
  note F = calmD(6) [OF C, of j] calmD(6) [OF C, of "Suc j"]
  show less: "prank (?x (Suc j)) < prank (?x j)" if j: "tk_thread (sch j) = 0"
  proof (cases j rule: calm_cases [OF C])
    case 1
    then show ?thesis using h [OF j] j calmD(4) [OF C] by (auto simp: poisson_thread_def producer_helps_def)
  next
    case 2
    from helps_producer [OF F 2 h [OF j] j] calmD(4) [OF C] show ?thesis by simp
  qed
  show "prank (?x (Suc j)) \<le> prank (?x j)"
  proof (cases "tk_thread (sch j) = 0")
    case False
    then show ?thesis by (cases j rule: calm_cases [OF C]) (use quiet_ranks(3) [OF F, of "sch j"] in simp_all)
  qed (use less in simp)
qed simp

text \<open>The weights do not grow in it either, so in the end they are constant, and a thread with a weight is idle at its turns.\<close>

lemma calm_weight:
  assumes "calm c q s0 work sch s"
  shows "weight (exec (poisson_thread c) sch s (Suc j)) t \<le> weight (exec (poisson_thread c) sch s j) t"
proof (cases j rule: calm_cases [OF assms])
  case 2
  note F = calmD(6) [OF assms, of j] calmD(6) [OF assms, of "Suc j"]
  show ?thesis
  proof (cases "t = tk_thread (sch j)")
    case True
    then show ?thesis using weight_own_step(1) [OF F 2] by simp
  next
    case False
    then show ?thesis using weight_cong quiet_step(4) [OF F 2 False] by (metis order_refl)
  qed
qed simp

definition steady ::
  "'s poisson_cfg \<Rightarrow> QueueEntry MPMCQueue \<Rightarrow> 's \<Rightarrow> Workload \<Rightarrow> (nat \<Rightarrow> tick) \<Rightarrow> 's SharedState \<Rightarrow> bool" where
  "steady c q s0 work sch s \<longleftrightarrow> calm c q s0 work sch s \<and>
     (\<forall>j. \<forall>t \<le> pc_clients c. weight (exec (poisson_thread c) sch s (Suc j)) t = weight (exec (poisson_thread c) sch s j) t)"

lemma calm_steady:
  assumes "calm c q s0 work sch s"
  obtains i where "steady c q s0 work (\<lambda>n. sch (i + n)) (exec (poisson_thread c) sch s i)"
proof -
  let ?x = "exec (poisson_thread c) sch s"
  let ?W = "\<lambda>j. \<Sum>t \<in> {..pc_clients c}. weight (?x j) t"
  have "?W (Suc j) \<le> ?W j" for j by (intro sum_mono calm_weight [OF assms])
  from eventually_constant [of ?W, OF this] obtain i where i: "\<And>j. ?W (i + j) = ?W i" by blast
  have "weight (?x (i + Suc j)) t = weight (?x (i + j)) t" if "t \<le> pc_clients c" for t j
  proof (rule sum_mono_inv [of "weight (?x (i + Suc j))" "{..pc_clients c}" "weight (?x (i + j))"])
    show "?W (i + Suc j) = ?W (i + j)" unfolding i ..
    show "weight (?x (i + Suc j)) u \<le> weight (?x (i + j)) u" for u using calm_weight [OF assms] by simp
  qed (use that in simp_all)
  then have "steady c q s0 work (\<lambda>n. sch (i + n)) (?x i)"
    using calm_shift [OF assms] unfolding steady_def exec_add [symmetric] by blast
  then show ?thesis by (rule that)
qed

lemma steady_idle:
  assumes S: "steady c q s0 work sch s" and t: "t \<le> pc_clients c" and w: "0 < weight (exec (poisson_thread c) sch s j) t"
  obtains k where "j \<le> k" "tk_thread (sch k) = t" "poisson_thread c (sch k) (exec (poisson_thread c) sch s k) = None"
    "pcs (p_q (exec (poisson_thread c) sch s k)) t = pcs (p_q (exec (poisson_thread c) sch s j)) t"
    "c_pc (exec (poisson_thread c) sch s k) t = c_pc (exec (poisson_thread c) sch s j) t"
proof -
  let ?x = "exec (poisson_thread c) sch s"
  have C: "calm c q s0 work sch s" using S by (simp add: steady_def)
  have eq: "weight (?x (Suc n)) t = weight (?x n) t" for n using S t by (simp add: steady_def)
  have own: "poisson_thread c (sch n) (?x n) = None" if "0 < weight (?x n) t" "tk_thread (sch n) = t" for n
  proof (cases n rule: calm_cases [OF C])
    case 2
    from weight_own_step(2) [OF calmD(6) [OF C] calmD(6) [OF C] 2] that eq [of n] show ?thesis by simp
  qed
  have next_same: "pcs (p_q (?x (Suc n))) t = pcs (p_q (?x n)) t \<and> c_pc (?x (Suc n)) t = c_pc (?x n) t"
    if "0 < weight (?x n) t" for n
  proof (cases n rule: calm_cases [OF C])
    case 2
    then have "t \<noteq> tk_thread (sch n)" using own [OF that] by auto
    then show ?thesis using quiet_step(4) [OF calmD(6) [OF C] calmD(6) [OF C] 2] by blast
  qed simp
  have W: "0 < weight (?x (j + n)) t" for n using w eq by (induction n) simp_all
  have keep: "pcs (p_q (?x (j + n))) t = pcs (p_q (?x j)) t \<and> c_pc (?x (j + n)) t = c_pc (?x j) t" for n
  proof (induction n)
    case (Suc n)
    then show ?case using next_same [OF W [of n]] by (simp only: add_Suc_right)
  qed simp
  from fairD [OF calmD(3) [OF C], of t j] t obtain k where k: "j \<le> k" "tk_thread (sch k) = t" by blast
  have "?x (j + (k - j)) = ?x k" using k(1) by simp
  then show ?thesis using that [OF k own [OF _ k(2)]] W [of "k - j"] keep [of "k - j"] by simp
qed

text \<open>So no thread has one.\<close>

lemma owner_weight_pos: "enq_owned pc \<noteq> None \<or> deq_owned pc \<noteq> None \<Longrightarrow> 0 < owner_weight pc"
  by (cases pc) auto

lemma hand_weight_pos: "past_lock x \<or> x = CEnter e ts \<Longrightarrow> 0 < hand_weight pc x"
  by (cases x) auto

lemma client_owner_weight:
  assumes "run_state c s k tk full" "enq_owned (pcs (p_q s) t) \<noteq> None \<or> deq_owned (pcs (p_q s) t) \<noteq> None" "t \<noteq> 0"
  shows "0 < weight s t"
proof -
  have "client_ok c s t" using run_stateD(5) [OF assms(1)] assms(3) by simp
  then have "c_pc s t = CWait" using assms(2) by (auto simp: client_ok_def split: if_splits)
  then show ?thesis using owner_weight_pos [OF assms(2)] assms(3) by (simp add: weight_def)
qed

lemma hand_weight_client:
  assumes "run_state c s k tk full" "past_lock (c_pc s t) \<or> c_pc s t = CEnter e ts"
  shows "t \<in> {1..pc_clients c}" "0 < weight s t"
proof -
  show t: "t \<in> {1..pc_clients c}" by (rule run_state_client [OF assms(1)]) (use assms(2) in auto)
  then show "0 < weight s t" using hand_weight_pos [OF assms(2)] by (simp add: weight_def)
qed

context point_index
begin

text \<open>The facts about a state of the run that its next steps rest on.\<close>

lemma calm_state:
  assumes "calm c q s0 work sch s" "pc_ix c = ix" "rel s0 m" "wl_ready work"
  obtains k tk full m' where "run_state c (exec (poisson_thread c) sch s j) k tk full"
    "rel (p_idx (exec (poisson_thread c) sch s j)) m'" "wl_ready (p_work (exec (poisson_thread c) sch s j))"
proof -
  note R = calmD(1) [OF assms(1), of j] calmD(2) [OF assms(1)]
  from reachable_run_state [OF R] obtain k tk full where "run_state c (exec (poisson_thread c) sch s j) k tk full" .
  moreover from poisson_rel [OF R assms(2,3)] obtain m' where "rel (p_idx (exec (poisson_thread c) sch s j)) m'" by blast
  moreover note poisson_ready [OF R assms(4)]
  ultimately show ?thesis by (rule that)
qed

lemma steady_stuck:
  assumes "steady c q s0 work sch s" "poisson_thread c (sch k) (exec (poisson_thread c) sch s k) = None"
    and "tk_thread (sch k) = t" "t \<in> {1..pc_clients c}"
  shows "\<not> client_helps c t (tk_now (sch k)) (exec (poisson_thread c) sch s k)"
  using assms(2-4) calmD(4) [of c q s0 work sch s k] assms(1)
  by (auto simp: client_helps_def poisson_thread_def steady_def)

lemma steady_free:
  assumes S: "steady c q s0 work sch s" and ix: "pc_ix c = ix" "rel s0 m" and wl: "wl_ready work"
  shows "\<not> past_lock (c_pc (exec (poisson_thread c) sch s n) u)"
proof
  let ?x = "exec (poisson_thread c) sch s"
  assume u: "past_lock (c_pc (?x n) u)"
  have C: "calm c q s0 work sch s" using S by (simp add: steady_def)
  from calm_state [OF C ix wl] obtain k tk full m' where st: "run_state c (?x n) k tk full" by blast
  note h = hand_weight_client [OF st, of u] u
  from steady_idle [OF S _ h(2)] h(1) u obtain k' where k': "tk_thread (sch k') = u"
    "poisson_thread c (sch k') (?x k') = None" "c_pc (?x k') u = c_pc (?x n) u" by auto
  from calm_state [OF C ix wl, of k'] obtain k tk full m' where
    "run_state c (?x k') k tk full" "rel (p_idx (?x k')) m'" "wl_ready (p_work (?x k'))" by blast
  from inside_moves [OF this(1) ix(1) this(2,3)] k'(3) u steady_stuck [OF S k'(2,1)] show False by auto
qed

lemma steady_settled:
  assumes S: "steady c q s0 work sch s" and ix: "pc_ix c = ix" "rel s0 m" and wl: "wl_ready work"
  shows "settled (exec (poisson_thread c) sch s j)"
proof (rule ccontr)
  let ?x = "exec (poisson_thread c) sch s"
  have C: "calm c q s0 work sch s" using S by (simp add: steady_def)
  note free = steady_free [OF assms] and stuck = steady_stuck [OF S]
  assume "\<not> settled (?x j)"
  then show False
  proof (cases rule: unsettled_cases)
    case producer
    then have "0 < weight (?x j) 0" using owner_weight_pos by (simp add: weight_def)
    from steady_idle [OF S _ this] obtain k where k: "tk_thread (sch k) = 0"
      "poisson_thread c (sch k) (?x k) = None" "pcs (p_q (?x k)) 0 = pcs (p_q (?x j)) 0" by auto
    from calm_state [OF C ix wl, of k] obtain k' tk full m' where "run_state c (?x k) k' tk full" by blast
    then have "producer_helps c (tk_now (sch k)) (?x k)" by (rule producer_owner_moves) (use producer k(3) in simp)
    then show False using k(1,2) calmD(4) [OF C, of k] by (auto simp: producer_helps_def poisson_thread_def)
  next
    case (owner t)
    from calm_state [OF C ix wl, of j] obtain k tk full m' where st: "run_state c (?x j) k tk full" by blast
    have t: "t \<in> {1..pc_clients c}" using client_owner_moves [OF st owner(2,1)] by blast
    from steady_idle [OF S _ client_owner_weight [OF st owner(2,1)]] t obtain k where k: "tk_thread (sch k) = t"
      "poisson_thread c (sch k) (?x k) = None" "pcs (p_q (?x k)) t = pcs (p_q (?x j)) t" by auto
    from calm_state [OF C ix wl, of k] obtain k' tk full m' where "run_state c (?x k) k' tk full" by blast
    from client_owner_moves [OF this] owner k stuck [OF k(2,1) t] show False by metis
  next
    case (inside t)
    then show False using free by blast
  next
    case (enter t e ts)
    from calm_state [OF C ix wl, of j] obtain k tk full m' where st: "run_state c (?x j) k tk full" by blast
    note h = hand_weight_client [OF st disjI2, OF enter(1)]
    from steady_idle [OF S _ h(2)] h(1) obtain k where k: "tk_thread (sch k) = t"
      "poisson_thread c (sch k) (?x k) = None" "c_pc (?x k) t = c_pc (?x j) t" by auto
    from calm_state [OF C ix wl, of k] obtain k' tk full m' where "run_state c (?x k) k' tk full" by blast
    from enter_moves [OF this, of t e ts] free enter(1) k(3) stuck [OF k(2,1) h(1)] show False by auto
  qed
qed

lemma steady_finished:
  assumes S: "steady c q s0 work sch s" and ix: "pc_ix c = ix" "rel s0 m" and wl: "wl_ready work" and n: "1 \<le> pc_clients c"
  shows "poisson_finished c s"
proof (rule ccontr)
  let ?x = "exec (poisson_thread c) sch s"
  assume nf: "\<not> poisson_finished c s"
  have C: "calm c q s0 work sch s" using S by (simp add: steady_def)
  note sd = steady_settled [OF S ix wl]
  note const = calm_const [OF C]
  consider "has_entries s" | "\<not> has_entries s" "p_pc s \<noteq> PStop"
    | t where "\<not> has_entries s" "p_pc s = PStop" "t \<in> {1..pc_clients c}" "c_pc s t \<noteq> CExit"
    using nf by (auto simp: poisson_finished_def)
  then show False
  proof cases
    case 1
    have "client_helps c 1 now (?x j)" for now j
    proof -
      from calm_state [OF C ix wl, of j] obtain k tk full where "run_state c (?x j) k tk full" by metis
      then show ?thesis by (rule dequeue_moves [OF _ sd]) (use const(1) 1 n in simp_all)
    qed
    then show False using calm_client [OF C, of 1] n by simp
  next
    case 2
    have "producer_helps c (tk_now (sch j)) (?x j)" for j
      using calm_state [OF C ix wl, of j] enqueue_moves [OF _ sd, of c j] const(1,2) 2 calmD(5) [OF C] by metis
    then show False using calm_producer [OF C] by blast
  next
    case 3
    have "client_helps c t now (?x j)" for now j
      using calm_state [OF C ix wl, of j] stop_moves [OF _ sd, of c j _ _ _ t] const 3 by metis
    then show False using calm_client [OF C 3(3)] by blast
  qed
qed

lemma poisson_fair:
  assumes r: "poisson_reachable c q s0 work s" "queue_fits c q" and ix: "pc_ix c = ix" "rel s0 m" and wl: "wl_ready work"
    and n: "1 \<le> pc_clients c" and g: "good_schedule c sch"
  obtains i where "poisson_finished c (exec (poisson_thread c) sch s i)"
proof -
  from good_schedule_calm [OF r g] obtain i where
    C: "calm c q s0 work (\<lambda>n. sch (i + n)) (exec (poisson_thread c) sch s i)" .
  from calm_steady [OF C] obtain j where
    "steady c q s0 work (\<lambda>n. sch (i + (j + n))) (exec (poisson_thread c) (\<lambda>n. sch (i + n)) (exec (poisson_thread c) sch s i) j)" .
  from steady_finished [OF this ix wl n] show ?thesis unfolding exec_add [symmetric] by (rule that)
qed

end

subsection \<open>Properties\<close>

text \<open>Nothing happens after the end.\<close>

lemma finished_stays:
  assumes "\<And>k. step k (exec step sch s i) = None" "i \<le> j"
  shows "exec step sch s j = exec step sch s i"
  using assms(2) by (induction rule: dec_induct) (simp_all add: assms(1))

lemma batch_finished_idle: "batch_finished c s \<Longrightarrow> batch_thread c k s = None"
  by (simp add: batch_thread_def batch_finished_def worker_step_def)

lemma poisson_finished_idle: "poisson_finished c s \<Longrightarrow> poisson_thread c k s = None"
  by (simp add: poisson_thread_def poisson_finished_def producer_step_def client_step_def)

text \<open>C8. A batch run ends under every fair scheduler. Whatever the index, as long as it keeps the contract of the
  interface and the workloads stay inside their buffers: from any reachable state, when the scheduler comes back to
  every worker again and again, there is a tick from which on all workers have finished, and the index still has the
  keys it was loaded with. The lock need not be fair.\<close>

theorem batch_fair_ends:
  assumes "point_index (bc_ix c) rel" "rel s0 m" "\<forall>w < bc_workers c. wl_ready (works w)"
    and "batch_reachable c s0 works s" "fair {..<bc_workers c} sch"
  shows "\<exists>i m'. (\<forall>j \<ge> i. batch_finished c (exec (batch_thread c) sch s j)) \<and>
    rel (b_idx (exec (batch_thread c) sch s i)) m' \<and> dom m' = dom m"
proof -
  let ?x = "exec (batch_thread c) sch s"
  from point_index.batch_fair [OF assms(1) refl assms(2-5)] obtain i where i: "batch_finished c (?x i)" .
  have "?x j = ?x i" if "i \<le> j" for j 
    using finished_stays [of "batch_thread c" sch s i j] batch_finished_idle [OF i] that by blast
  then have "\<forall>j \<ge> i. batch_finished c (?x j)" using i by metis
  moreover from point_index.batch_rel [OF assms(1) refl assms(2) bts.exec_inv [OF assms(4)]]
  obtain m' where "rel (b_idx (?x i)) m'" "dom m' = dom m" unfolding drifted_def by blast
  ultimately show ?thesis by blast
qed

text \<open>Taking turns is fair.\<close>

definition turns :: "nat \<Rightarrow> u64 \<Rightarrow> nat \<Rightarrow> tick" where
  "turns n now i = \<lparr>tk_thread = i mod n, tk_spurious = False, tk_now = now\<rparr>"

lemma turns_fair: "T \<subseteq> {..<n} \<Longrightarrow> fair T (turns n now)"
proof (unfold fair_def, intro ballI allI)
  fix t i assume "T \<subseteq> {..<n}" "t \<in> T"
  then have "t < n" by blast
  then have "i \<le> i * n + t" "tk_thread (turns n now (i * n + t)) = t"
    by (simp_all add: turns_def) (metis le_add1 le_trans less_nat_zero_code mult_le_mono2 mult_1_right nat_less_le not_less_eq_eq One_nat_def)
  then show "\<exists>j \<ge> i. tk_thread (turns n now j) = t" by blast
qed

theorem batch_fair_ends_witness:
  "\<exists>t i. batch_finished (demo_cfg [Search]) (exec (batch_thread (demo_cfg [Search])) (turns 2 5)
     (batch_init (demo_cfg [Search]) t demo_works) i)"
proof -
  from demo_loaded obtain t where t: "bt_rel t [7 \<mapsto> 70, 3 \<mapsto> 30, 9 \<mapsto> 90]" by blast
  have c: "point_index (bc_ix (demo_cfg [Search])) bt_rel" "bc_workers (demo_cfg [Search]) = 2"
    using bt.point_index_axioms by (simp_all add: demo_cfg_def batch_config_def)
  have "fair {..<bc_workers (demo_cfg [Search])} (turns 2 5)" by (rule turns_fair) (simp add: c)
  from batch_fair_ends [OF c(1) t _ batch_reachable.start this] demo_works_ready show ?thesis by blast
qed

text \<open>C9. An open-loop run ends under every fair scheduler. Let the index meet its contract, the queue fit the run, and the
  scheduler come back to the producer and to every client again and again, with a compare-exchange that fails spuriously
  finitely often and a clock that passes the deadlines. Then from any reachable state there is a tick from which on the
  producer and all clients have stopped, although each of them spins on the clock, on a full or empty queue or on a
  lost race in between, and although the lock need not be fair; the index still has the keys it was loaded with.\<close>

theorem poisson_fair_ends:
  assumes "point_index (pc_ix c) rel" "rel s0 m" "wl_ready work" "queue_fits c q" "1 \<le> pc_clients c"
    and "poisson_reachable c q s0 work s" "good_schedule c sch"
  shows "\<exists>i m'. (\<forall>j \<ge> i. poisson_finished c (exec (poisson_thread c) sch s j)) \<and>
    rel (p_idx (exec (poisson_thread c) sch s i)) m' \<and> dom m' = dom m"
proof -
  let ?x = "exec (poisson_thread c) sch s"
  from point_index.poisson_fair [OF assms(1,6,4) refl assms(2,3,5,7)] obtain i where i: "poisson_finished c (?x i)" .
  have "?x j = ?x i" if "i \<le> j" for j 
    using finished_stays [of "poisson_thread c" sch s i j] poisson_finished_idle [OF i] that by blast
  then have "\<forall>j \<ge> i. poisson_finished c (?x j)" using i by metis
  moreover have "poisson_reachable c q s0 work (?x i)" using pts.exec_inv [OF conjI [OF assms(6,4)]] by blast
  from point_index.poisson_rel [OF assms(1) this assms(4) refl assms(2)]
  obtain m' where "rel (p_idx (?x i)) m'" "dom m' = dom m" by (auto simp: drifted_def)
  ultimately show ?thesis by blast
qed

theorem poisson_fair_ends_witness:
  "\<exists>t i. poisson_finished (demo_run 2) (exec (poisson_thread (demo_run 2)) (turns 3 1000)
     (poisson_init demo_queue t (demo_works 0)) i)"
proof -
  from demo_loaded obtain t where t: "bt_rel t [7 \<mapsto> 70, 3 \<mapsto> 30, 9 \<mapsto> 90]" by blast
  have c: "point_index (pc_ix (demo_run 2)) bt_rel" "pc_clients (demo_run 2) = 2"
    using bt.point_index_axioms by (simp_all add: demo_run_def)
  have "fair {..pc_clients (demo_run 2)} (turns 3 1000)" by (rule turns_fair) (auto simp: c)
  then have "good_schedule (demo_run 2) (turns 3 1000)"
    unfolding good_schedule_def by (auto simp: turns_def demo_run_def nth_Cons' less_Suc_eq numeral_2_eq_2)
  from poisson_fair_ends [OF c(1) t demo_works_ready demo_fits _ poisson_reachable.start this] c(2) show ?thesis
    by (metis one_le_numeral order_refl)
qed

end
