(* ===== verification/External_Adapters.thy ===== *)
theory External_Adapters
  imports Index_Iface Workload
begin

text \<open>
  The adapters of the external indexes (\<^verbatim>\<open>adapters/*.hpp\<close>), each a translation of the driver's
  calls into the native interface of a vendored index. The native operations are parameters: an
  adapter is a function from a record of them to an implementation of the index interface. What an
  adapter relies on is stated as a predicate on that record (\<open>kv_laws\<close> and its variants): the native
  index keeps a map. Under it, the adapters meet the contract \<open>upsert_ok\<close>: unlike the
  built-in indexes, an update adds an absent key and a removal drops the key. An adapter that is not
  compiled in ends the process at its first call (\<open>disabled\<close>).
\<close>

subsection \<open>Adapters of a plain key-value interface\<close>

record 'b native_kv =
  nk_insert :: "u64 \<Rightarrow> u64 \<Rightarrow> 'b \<Rightarrow> 'b"
  nk_search :: "'b \<Rightarrow> u64 \<Rightarrow> u64"
  nk_delete :: "u64 \<Rightarrow> 'b \<Rightarrow> 'b"

definition FastFairAdapter :: "'b native_kv \<Rightarrow> 'b IIndex" where
  "FastFairAdapter B =
     (let ins = (\<lambda>k v s. Some (nk_insert B k v s, True))
      in \<lparr>ii_bulk_load = default_bulk_load ins, ii_insert = ins, ii_lookup = (\<lambda>s k. Some (nk_search B s k)),
          ii_update = (\<lambda>k v s. Some (nk_insert B k v (nk_delete B k s), True)),
          ii_remove = (\<lambda>k s. Some (nk_delete B k s, True)), ii_scan = (\<lambda>s lo n sink. Some (0, sink)),
          ii_name = ''fastfair'', ii_thread_safe = True, ii_concurrent_safe = True\<rparr>)"

definition WBTreeAdapter :: "'b native_kv \<Rightarrow> 'b IIndex" where
  "WBTreeAdapter B =
     (let ins = (\<lambda>k v s. Some (nk_insert B k v s, True))
      in \<lparr>ii_bulk_load = default_bulk_load ins, ii_insert = ins, ii_lookup = (\<lambda>s k. Some (nk_search B s k)),
          ii_update = (\<lambda>k v s. Some (nk_insert B k v (nk_delete B k s), True)),
          ii_remove = (\<lambda>k s. Some (nk_delete B k s, True)), ii_scan = (\<lambda>s lo n sink. Some (0, sink)),
          ii_name = ''wbtree'', ii_thread_safe = False, ii_concurrent_safe = False\<rparr>)"

definition UTreeAdapter :: "'b native_kv \<Rightarrow> 'b IIndex" where
  "UTreeAdapter B =
     (let ins = (\<lambda>k v s. Some (nk_insert B k v s, True))
      in \<lparr>ii_bulk_load = default_bulk_load ins, ii_insert = ins, ii_lookup = (\<lambda>s k. Some (nk_search B s k)),
          ii_update = ins, ii_remove = (\<lambda>k s. Some (nk_delete B k s, True)),
          ii_scan = (\<lambda>s lo n sink. Some (0, sink)),
          ii_name = ''utree'', ii_thread_safe = True, ii_concurrent_safe = False\<rparr>)"

subsection \<open>LB+-Tree\<close>

record ('b, 'l) native_lb =
  lb_bulkload :: "int \<Rightarrow> (nat \<Rightarrow> u64) \<Rightarrow> real \<Rightarrow> 'b \<Rightarrow> 'b"
  lb_insert :: "u64 \<Rightarrow> u64 \<Rightarrow> 'b \<Rightarrow> 'b"
  lb_lookup :: "'b \<Rightarrow> u64 \<Rightarrow> 'l option \<times> int"
  lb_get_recptr :: "'b \<Rightarrow> 'l \<Rightarrow> int \<Rightarrow> u64"
  lb_del :: "u64 \<Rightarrow> 'b \<Rightarrow> 'b"

text \<open>The environment, as \<^verbatim>\<open>getenv\<close> shows it, and \<^verbatim>\<open>atof\<close> at single precision. The bound \<^verbatim>\<open>0.1f\<close> is the
  nearest single-precision number.\<close>

definition bulk_fill_factor :: "(string \<Rightarrow> string option) \<Rightarrow> (string \<Rightarrow> real) \<Rightarrow> real" where
  "bulk_fill_factor env atof =
     (case env ''AIB_LBTREE_BFILL'' of
        None \<Rightarrow> 1
      | Some s \<Rightarrow> if s \<noteq> [] \<and> atof s > 13421773 / 2 ^ 27 \<and> atof s \<le> 1 then atof s else 1)"

definition getenv_ll :: "(string \<Rightarrow> string option) \<Rightarrow> (string \<Rightarrow> int \<times> nat) \<Rightarrow> string \<Rightarrow> int \<Rightarrow> int" where
  "getenv_ll env strtoll name defv =
     (case env name of
        None \<Rightarrow> defv
      | Some s \<Rightarrow>
          if s = [] then defv
          else case strtoll s of (v, used) \<Rightarrow> if drop used s = [] \<and> v > 0 then v else defv)"

text \<open>The pool sizes in megabytes and the pool's file.\<close>

definition lb_pools :: "(string \<Rightarrow> string option) \<Rightarrow> (string \<Rightarrow> int \<times> nat) \<Rightarrow> int \<times> int \<times> string" where
  "lb_pools env strtoll =
     (let dir = (case env ''AIB_PMEM_DIR'' of None \<Rightarrow> ''/pmem0/mmkim505'' | Some d \<Rightarrow> if d = [] then ''/pmem0/mmkim505'' else d);
          nvm_file = (case env ''AIB_LBTREE_NVMFILE'' of
            None \<Rightarrow> dir @ ''/aib_lbtree.pool'' | Some f \<Rightarrow> if f = [] then dir @ ''/aib_lbtree.pool'' else f)
      in (getenv_ll env strtoll ''AIB_LBTREE_MEM_MB'' 1024, getenv_ll env strtoll ''AIB_LBTREE_NVM_MB'' 1024, nvm_file))"

text \<open>The native bulk load reads the keys through a callback (\<^verbatim>\<open>VecKeyInput\<close>).\<close>

definition get_key :: "idx_key_t list \<Rightarrow> nat \<Rightarrow> idx_key_t" where
  "get_key ks i = ks ! i"

definition lb_bulk_load :: "('b, 'l) native_lb \<Rightarrow> real \<Rightarrow> idx_key_t list \<Rightarrow> idx_val_t list \<Rightarrow> 'b \<Rightarrow> 'b option" where
  "lb_bulk_load B fill ks vs s =
     (if ks = [] then Some s
      else let src = (if sorted ks then ks else sort ks)
           in Some (lb_bulkload B (signed_take_bit 31 (int (length src))) (get_key src) fill s))"

definition LBTreeAdapter :: "('b, 'l) native_lb \<Rightarrow> real \<Rightarrow> 'b IIndex" where
  "LBTreeAdapter B fill =
     (let ins = (\<lambda>k v s. Some (lb_insert B k v s, True))
      in \<lparr>ii_bulk_load = lb_bulk_load B fill, ii_insert = ins,
          ii_lookup = (\<lambda>s k. case lb_lookup B s k of
             (None, pos) \<Rightarrow> Some 0
           | (Some leaf, pos) \<Rightarrow> if pos < 0 then Some 0 else Some (lb_get_recptr B s leaf pos)),
          ii_update = ins, ii_remove = (\<lambda>k s. Some (lb_del B k s, True)),
          ii_scan = (\<lambda>s lo n sink. Some (0, sink)),
          ii_name = ''lbtree'', ii_thread_safe = False, ii_concurrent_safe = False\<rparr>)"

subsection \<open>FPTree\<close>

record 'b native_fp =
  fp_insert :: "u64 \<Rightarrow> u64 \<Rightarrow> 'b \<Rightarrow> 'b \<times> bool"
  fp_find :: "'b \<Rightarrow> u64 \<Rightarrow> u64"
  fp_update :: "u64 \<Rightarrow> u64 \<Rightarrow> 'b \<Rightarrow> 'b \<times> bool"
  fp_delete :: "u64 \<Rightarrow> 'b \<Rightarrow> 'b \<times> bool"
  fp_range_scan :: "'b \<Rightarrow> u64 \<Rightarrow> u64 \<Rightarrow> (u64 \<times> u64) list"

definition fp_update_op :: "'b native_fp \<Rightarrow> u64 \<Rightarrow> u64 \<Rightarrow> 'b \<Rightarrow> ('b \<times> bool) option" where
  "fp_update_op B k v s =
     (case fp_update B k v s of (s', True) \<Rightarrow> Some (s', True) | (s', False) \<Rightarrow> Some (fp_insert B k v s'))"

text \<open>\<^verbatim>\<open>rangeScan\<close> writes what it found into a vector of \<open>n\<close> pairs; more than \<open>n\<close> would overrun it.\<close>

definition fp_scan :: "'b native_fp \<Rightarrow> 'b \<Rightarrow> idx_key_t \<Rightarrow> int \<Rightarrow> idx_val_t \<Rightarrow> (int \<times> idx_val_t) option" where
  "fp_scan B s lo n sink =
     (if n \<le> 0 then Some (0, sink)
      else let out = fp_range_scan B s lo (of_int n)
           in if length out > nat n then None
              else Some (int (length out), sink XOR foldl (\<lambda>acc kv. acc XOR snd kv) 0 out))"

definition FPTreeAdapter :: "'b native_fp \<Rightarrow> 'b IIndex" where
  "FPTreeAdapter B =
     (let ins = (\<lambda>k v s. Some (fp_insert B k v s))
      in \<lparr>ii_bulk_load = default_bulk_load ins, ii_insert = ins, ii_lookup = (\<lambda>s k. Some (fp_find B s k)),
          ii_update = fp_update_op B, ii_remove = (\<lambda>k s. Some (fp_delete B k s)), ii_scan = fp_scan B,
          ii_name = ''fptree'', ii_thread_safe = True, ii_concurrent_safe = True\<rparr>)"


subsection \<open>BzTree\<close>

datatype ReturnCode = Ok | KeyExists | NotFound | OtherCode

record 'b native_bz =
  bz_insert :: "u64 \<Rightarrow> u64 \<Rightarrow> 'b \<Rightarrow> 'b \<times> ReturnCode"
  bz_read :: "'b \<Rightarrow> u64 \<Rightarrow> ReturnCode \<times> u64"
  bz_upsert :: "u64 \<Rightarrow> u64 \<Rightarrow> 'b \<Rightarrow> 'b \<times> ReturnCode"
  bz_delete :: "u64 \<Rightarrow> 'b \<Rightarrow> 'b \<times> ReturnCode"
  bz_range_scan :: "'b \<Rightarrow> u64 \<Rightarrow> u32 \<Rightarrow> u64 list"

text \<open>\<^verbatim>\<open>__builtin_bswap64\<close>: the bytes in the opposite order; and the portable version of the other
  branch.\<close>

definition bswap64 :: "u64 \<Rightarrow> u64" where
  "bswap64 x = foldr (\<lambda>b acc. ucast b + push_bit 8 acc) (rev (bytes_of x)) 0"

definition bswap64_portable :: "u64 \<Rightarrow> u64" where
  "bswap64_portable x0 =
     (let x1 = push_bit 8 (x0 AND 0x00ff00ff00ff00ff) OR drop_bit 8 (x0 AND 0xff00ff00ff00ff00);
          x2 = push_bit 16 (x1 AND 0x0000ffff0000ffff) OR drop_bit 16 (x1 AND 0xffff0000ffff0000)
      in push_bit 32 x2 OR drop_bit 32 x2)"

definition encode_key :: "idx_key_t \<Rightarrow> u64" where
  "encode_key k = bswap64 k"

text \<open>The loop over the iterator: at most \<open>n\<close> payloads.\<close>

fun drain :: "nat \<Rightarrow> u64 list \<Rightarrow> u64 \<Rightarrow> int \<Rightarrow> int \<times> u64" where
  "drain 0 ps acc got = (got, acc)"
| "drain (Suc n) [] acc got = (got, acc)"
| "drain (Suc n) (p # ps) acc got = drain n ps (acc XOR p) (got + 1)"

definition bz_scan :: "'b native_bz \<Rightarrow> 'b \<Rightarrow> idx_key_t \<Rightarrow> int \<Rightarrow> idx_val_t \<Rightarrow> (int \<times> idx_val_t) option" where
  "bz_scan B s lo n sink =
     (if n \<le> 0 then Some (0, sink)
      else case drain (nat n) (bz_range_scan B s (encode_key lo) (of_int n)) 0 0 of
             (got, acc) \<Rightarrow> Some (got, sink XOR acc))"

definition BzTreeAdapter :: "'b native_bz \<Rightarrow> 'b IIndex" where
  "BzTreeAdapter B =
     (let ins = (\<lambda>k v s. case bz_insert B (encode_key k) v s of (s', rc) \<Rightarrow> Some (s', rc = Ok \<or> rc = KeyExists))
      in \<lparr>ii_bulk_load = default_bulk_load ins, ii_insert = ins,
          ii_lookup = (\<lambda>s k. case bz_read B s (encode_key k) of (rc, payload) \<Rightarrow> Some (if rc = Ok then payload else 0)),
          ii_update = (\<lambda>k v s. case bz_upsert B (encode_key k) v s of (s', rc) \<Rightarrow> Some (s', rc = Ok)),
          ii_remove = (\<lambda>k s. case bz_delete B (encode_key k) s of (s', rc) \<Rightarrow> Some (s', rc = Ok \<or> rc = NotFound)),
          ii_scan = bz_scan B, ii_name = ''bztree'', ii_thread_safe = False, ii_concurrent_safe = True\<rparr>)"

subsection \<open>DPTree\<close>

record 'b native_dp =
  dp_insert :: "u64 \<Rightarrow> u64 \<Rightarrow> 'b \<Rightarrow> 'b"
  dp_lookup :: "'b \<Rightarrow> u64 \<Rightarrow> u64 option"
  dp_strip :: "u64 \<Rightarrow> u64"
  dp_erase :: "u64 \<Rightarrow> 'b \<Rightarrow> 'b"
  dp_lookup_range :: "'b \<Rightarrow> u64 \<Rightarrow> u64 \<Rightarrow> u64 list"

definition scan_hi :: "u64 \<Rightarrow> int \<Rightarrow> u64" where
  "scan_hi lo n = (if lo > 0xFFFFFFFFFFFFFFFF - of_int n then 0xFFFFFFFFFFFFFFFF else lo + of_int n)"

fun dp_collect :: "(u64 \<Rightarrow> u64) \<Rightarrow> int \<Rightarrow> u64 list \<Rightarrow> u64 \<Rightarrow> int \<Rightarrow> int \<times> u64" where
  "dp_collect strip n [] acc got = (got, acc)"
| "dp_collect strip n (v # vs) acc got =
     (if got \<ge> n then (got, acc)
      else if v AND 1 \<noteq> 0 then dp_collect strip n vs acc got
      else dp_collect strip n vs (acc XOR strip v) (got + 1))"

definition dp_scan :: "'b native_dp \<Rightarrow> 'b \<Rightarrow> idx_key_t \<Rightarrow> int \<Rightarrow> idx_val_t \<Rightarrow> (int \<times> idx_val_t) option" where
  "dp_scan B s lo n sink =
     (if n \<le> 0 then Some (0, sink)
      else case dp_collect (dp_strip B) n (dp_lookup_range B s lo (scan_hi lo n)) 0 0 of
             (got, acc) \<Rightarrow> Some (got, sink XOR acc))"

definition dp_lookup_op :: "'b native_dp \<Rightarrow> 'b \<Rightarrow> idx_key_t \<Rightarrow> idx_val_t" where
  "dp_lookup_op B s k =
     (case dp_lookup B s k of None \<Rightarrow> 0 | Some enc \<Rightarrow> if enc AND 1 \<noteq> 0 then 0 else dp_strip B enc)"

definition DPTreeAdapter :: "'b native_dp \<Rightarrow> 'b IIndex" where
  "DPTreeAdapter B =
     (let ins = (\<lambda>k v s. Some (dp_insert B k v s, True))
      in \<lparr>ii_bulk_load = default_bulk_load ins, ii_insert = ins, ii_lookup = (\<lambda>s k. Some (dp_lookup_op B s k)),
          ii_update = ins, ii_remove = (\<lambda>k s. Some (dp_erase B k s, True)), ii_scan = dp_scan B,
          ii_name = ''dptree'', ii_thread_safe = False, ii_concurrent_safe = False\<rparr>)"

subsection \<open>Circ-Tree and NBTree\<close>

text \<open>The two adapters are placeholders: they store nothing.\<close>

definition CircTreeAdapter :: "unit IIndex" where
  "CircTreeAdapter = \<lparr>ii_bulk_load = default_bulk_load (\<lambda>k v s. Some (s, True)), ii_insert = (\<lambda>k v s. Some (s, True)),
     ii_lookup = (\<lambda>s k. Some 0), ii_update = (\<lambda>k v s. Some (s, True)), ii_remove = (\<lambda>k s. Some (s, True)),
     ii_scan = (\<lambda>s lo n sink. Some (0, sink)), ii_name = ''circtree'', ii_thread_safe = False,
     ii_concurrent_safe = True\<rparr>"

definition NBTreeAdapter :: "unit IIndex" where
  "NBTreeAdapter = \<lparr>ii_bulk_load = default_bulk_load (\<lambda>k v s. Some (s, True)), ii_insert = (\<lambda>k v s. Some (s, True)),
     ii_lookup = (\<lambda>s k. Some 0), ii_update = (\<lambda>k v s. Some (s, True)), ii_remove = (\<lambda>k s. Some (s, True)),
     ii_scan = (\<lambda>s lo n sink. Some (0, sink)), ii_name = ''nbtree'', ii_thread_safe = False,
     ii_concurrent_safe = True\<rparr>"

subsection \<open>Adapters that are not compiled in\<close>

text \<open>Every operation ends the process (\<^verbatim>\<open>exit(2)\<close>); loading calls the inherited \<^verbatim>\<open>bulk_load\<close>.\<close>

definition disabled :: "string \<Rightarrow> unit IIndex" where
  "disabled nm = \<lparr>ii_bulk_load = default_bulk_load (\<lambda>k v s. None), ii_insert = (\<lambda>k v s. None),
     ii_lookup = (\<lambda>s k. None), ii_update = (\<lambda>k v s. None), ii_remove = (\<lambda>k s. None),
     ii_scan = (\<lambda>s lo n sink. None), ii_name = nm @ '' (disabled)'', ii_thread_safe = False,
     ii_concurrent_safe = False\<rparr>"

text \<open>The placeholder classes, each with the message its \<^verbatim>\<open>fail()\<close> prints before it exits.\<close>

definition FastFairAdapter_off :: "unit IIndex \<times> string" where
  "FastFairAdapter_off = (disabled ''fastfair'', ''fastfair adapter requested but binary was built without -DWITH_FASTFAIR.'')"

definition WBTreeAdapter_off :: "unit IIndex \<times> string" where
  "WBTreeAdapter_off = (disabled ''wbtree'', ''wbtree adapter not enabled (build with -DWITH_WBTREE).'')"

definition UTreeAdapter_off :: "unit IIndex \<times> string" where
  "UTreeAdapter_off = (disabled ''utree'', ''utree adapter not enabled (build with -DWITH_UTREE).'')"

definition LBTreeAdapter_off :: "unit IIndex \<times> string" where
  "LBTreeAdapter_off = (disabled ''lbtree'', ''lbtree adapter not enabled (build with -DWITH_LBTREE).'')"

definition FPTreeAdapter_off :: "unit IIndex \<times> string" where
  "FPTreeAdapter_off = (disabled ''fptree'', ''fptree adapter not enabled (build with -DWITH_FPTREE).'')"

definition BzTreeAdapter_off :: "unit IIndex \<times> string" where
  "BzTreeAdapter_off = (disabled ''bztree'', ''bztree adapter not enabled (build with -DWITH_BZTREE).'')"

definition DPTreeAdapter_off :: "unit IIndex \<times> string" where
  "DPTreeAdapter_off = (disabled ''dptree'', ''dptree adapter not enabled (build with -DWITH_DPTREE).'')"

definition CircTreeAdapter_off :: "unit IIndex \<times> string" where
  "CircTreeAdapter_off = (disabled ''circtree'', ''circtree adapter not enabled (build with -DWITH_CIRCTREE).'')"

definition NBTreeAdapter_off :: "unit IIndex \<times> string" where
  "NBTreeAdapter_off = (disabled ''nbtree'', ''nbtree adapter not enabled (build with -DWITH_NBTREE).'')"

subsection \<open>Constructors with state of their own\<close>

text \<open>uTree's pool: the mapping from \<^verbatim>\<open>mmap\<close> (\<open>None\<close>: it failed, and the process exits with 2), the bump pointer,
  and what the destructor unmaps.\<close>

record utree_pool =
  start_addr :: u64
  curr_addr :: u64
  map_size :: u64

definition UTreeAdapter_new :: "(u64 \<Rightarrow> u64 option) \<Rightarrow> u64 \<Rightarrow> int + utree_pool" where
  "UTreeAdapter_new mmap space_per_thread =
     (case mmap space_per_thread of
        None \<Rightarrow> Inl 2
      | Some p \<Rightarrow> Inr \<lparr>start_addr = p, curr_addr = p, map_size = space_per_thread\<rparr>)"

definition UTreeAdapter_delete :: "utree_pool \<Rightarrow> (u64 \<times> u64) list \<times> utree_pool" where
  "UTreeAdapter_delete p =
     ((if start_addr p \<noteq> 0 \<and> map_size p \<noteq> 0 then [(start_addr p, map_size p)] else []),
      p\<lparr>curr_addr := 0, start_addr := 0\<rparr>)"

text \<open>LB+-Tree's pools are process-wide and are set up by the first adapter only; \<open>mb\<close> is the library's
  megabyte. A pool is its number of threads, its file and its size.\<close>

record lb_globals =
  lb_initialized :: bool
  worker_thread_num :: int
  worker_id :: int
  mempools :: "(int \<times> int) list"
  nvmpools :: "(int \<times> string \<times> int) list"

definition init_pools_once ::
  "(string \<Rightarrow> string option) \<Rightarrow> (string \<Rightarrow> int \<times> nat) \<Rightarrow> int \<Rightarrow> lb_globals \<Rightarrow> lb_globals" where
  "init_pools_once env strtoll mb g =
     (if lb_initialized g then g\<lparr>worker_id := 0\<rparr>
      else case lb_pools env strtoll of (mem_mb, nvm_mb, nvm_file) \<Rightarrow>
        g\<lparr>worker_thread_num := 1, worker_id := 0, mempools := mempools g @ [(1, mem_mb * mb)],
          nvmpools := nvmpools g @ [(1, nvm_file, nvm_mb * mb)], lb_initialized := True\<rparr>)"

text \<open>An LB+-Tree adapter sets up the pools, takes four kilobytes of the non-volatile one for the tree's root and makes
  the tree there, not recovering. The allocator and the tree's constructor are the library's.\<close>

definition LBTreeAdapter_new ::
  "(string \<Rightarrow> string option) \<Rightarrow> (string \<Rightarrow> int \<times> nat) \<Rightarrow> int \<Rightarrow> int \<Rightarrow> (lb_globals \<Rightarrow> int \<Rightarrow> 'm) \<Rightarrow>
   ('m \<Rightarrow> bool \<Rightarrow> 'b) \<Rightarrow> lb_globals \<Rightarrow> 'b \<times> lb_globals" where
  "LBTreeAdapter_new env strtoll mb kb nvmpool_alloc lbtree g =
     (let g1 = init_pools_once env strtoll mb g; meta = nvmpool_alloc g1 (4 * kb)
      in (lbtree meta False, g1))"

text \<open>BzTree's library is initialised by the first adapter only (\<^verbatim>\<open>std::call_once\<close>); every adapter makes its own
  descriptor pool, of \<open>2^20\<close> descriptors for one thread and without flushing, and its tree over it. The destructor frees the tree, then the
  pool its operations used, and clears the thread registry.\<close>

record bz_globals =
  once :: bool
  init_library_calls :: nat

definition init_pmwcas_once :: "bz_globals \<Rightarrow> bz_globals" where
  "init_pmwcas_once g =
     (if once g then g else g\<lparr>once := True, init_library_calls := init_library_calls g + 1\<rparr>)"

definition BzTreeAdapter_new ::
  "(u64 \<Rightarrow> u64 \<Rightarrow> bool \<Rightarrow> 'p) \<Rightarrow> (nat \<times> nat \<times> nat \<Rightarrow> 'p \<Rightarrow> 'b) \<Rightarrow> bz_globals \<Rightarrow> ('p \<times> 'b) \<times> bz_globals" where
  "BzTreeAdapter_new DescriptorPool BzTree_New g =
     (let g1 = init_pmwcas_once g; pool = DescriptorPool (push_bit 20 1) 1 False
      in ((pool, BzTree_New (3072, 1024, 4096) pool), g1))"

datatype ('p, 'b) bz_release = FreeTree 'b | FreePool 'p | ClearRegistry

definition BzTreeAdapter_delete :: "'p \<times> 'b \<Rightarrow> ('p, 'b) bz_release list" where
  "BzTreeAdapter_delete a = [FreeTree (snd a), FreePool (fst a), ClearRegistry]"

text \<open>However many adapters a process makes, each library is set up once, and the pools keep the sizes of the first.\<close>

lemma bz_library_once:
  assumes "\<not> once g" "0 < n"
  shows "init_library_calls (((\<lambda>g. snd (BzTreeAdapter_new dp new g)) ^^ n) g) = init_library_calls g + 1"
proof -
  have new: "(\<lambda>g. snd (BzTreeAdapter_new dp new g)) = init_pmwcas_once" by (simp add: BzTreeAdapter_new_def Let_def)
  have "(init_pmwcas_once ^^ Suc m) g = init_pmwcas_once g" for m
    by (induction m) (simp_all add: init_pmwcas_once_def)
  then have "(init_pmwcas_once ^^ n) g = init_pmwcas_once g" using assms(2) by (metis gr0_implies_Suc)
  with assms(1) show ?thesis unfolding new by (simp add: init_pmwcas_once_def)
qed

lemma utree_pool_released:
  assumes "UTreeAdapter_new mmap n = Inr p" "mmap n = Some a" "a \<noteq> 0" "n \<noteq> 0"
  shows "UTreeAdapter_delete (p\<lparr>curr_addr := x\<rparr>) = ([(a, n)], \<lparr>start_addr = 0, curr_addr = 0, map_size = n\<rparr>)"
  using assms by (auto simp: UTreeAdapter_new_def UTreeAdapter_delete_def)

lemma pools_once: "init_pools_once env strtoll mb (init_pools_once env' strtoll' mb' g) = init_pools_once env' strtoll' mb' g"
  by (cases "lb_pools env' strtoll'") (auto simp: init_pools_once_def)

lemma lb_pools_once:
  assumes "0 < n"
  shows "((\<lambda>g. snd (LBTreeAdapter_new env strtoll mb kb al new g)) ^^ n) g = init_pools_once env strtoll mb g"
  using assms
proof (induction n)
  case (Suc n)
  then show ?case by (cases n) (simp_all add: LBTreeAdapter_new_def Let_def pools_once)
qed simp

subsection \<open>Keys in byte order\<close>

lemma bytes_of_eq: "bytes_of x = [ucast x, ucast (drop_bit 8 x), ucast (drop_bit 16 x), ucast (drop_bit 24 x),
    ucast (drop_bit 32 x), ucast (drop_bit 40 x), ucast (drop_bit 48 x), ucast (drop_bit 56 x)]"
  by (simp add: bytes_of_def upt_rec)

text \<open>Reading eight bytes and taking them apart again.\<close>

definition word_of_bytes :: "bytes \<Rightarrow> u64" where
  "word_of_bytes bs = foldr (\<lambda>b acc. ucast b + push_bit 8 acc) bs 0"

lemma word_of_bytes_Cons: "word_of_bytes (b # bs) = ucast b OR push_bit 8 (word_of_bytes bs)"
proof -
  have "(ucast b :: u64) AND push_bit 8 (word_of_bytes bs) = 0"
    by (rule bit_eqI) (auto simp: bit_simps dest: bit_imp_le_length)
  then show ?thesis by (simp add: word_of_bytes_def disjunctive_add_eq_or)
qed


lemma bit_word_of_bytes:
  "n < 64 \<Longrightarrow> bit (word_of_bytes bs) n \<longleftrightarrow> n div 8 < length bs \<and> bit (bs ! (n div 8)) (n mod 8)"
proof (induction bs arbitrary: n)
  case Nil
  then show ?case by (simp add: word_of_bytes_def)
next
  case (Cons b bs)
  show ?case
  proof (cases "n < 8")
    case True
    then show ?thesis using Cons.prems by (simp add: word_of_bytes_Cons bit_simps)
  next
    case False
    then have "n div 8 = Suc ((n - 8) div 8)" "n mod 8 = (n - 8) mod 8" by (simp_all add: le_div_geq le_mod_geq)
    moreover have "\<not> bit b n" using False by (auto dest: bit_imp_le_length)
    ultimately show ?thesis using Cons.IH [of "n - 8"] Cons.prems False by (simp add: word_of_bytes_Cons bit_simps)
  qed
qed

lemma nth_bytes_of: "i < 8 \<Longrightarrow> bytes_of x ! i = ucast (drop_bit (8 * i) x)"
  by (simp add: bytes_of_def)

lemma bit_bytes_of: "i < 8 \<Longrightarrow> j < 8 \<Longrightarrow> bit (bytes_of x ! i) j \<longleftrightarrow> bit x (8 * i + j)"
  by (simp add: nth_bytes_of bit_simps)

lemma word_of_bytes_of: "word_of_bytes (bytes_of x) = x"
proof (rule bit_eqI)
  fix n assume "possible_bit TYPE(u64) n"
  then have n: "n < 64" by (simp add: possible_bit_word)
  then have "n div 8 < 8" "n mod 8 < 8" by linarith+
  with n show "bit (word_of_bytes (bytes_of x)) n = bit x n"
    by (simp add: bit_word_of_bytes bit_bytes_of)
qed

lemma bit_bswap64: "n < 64 \<Longrightarrow> bit (bswap64 x) n \<longleftrightarrow> bit x (8 * (7 - n div 8) + n mod 8)"
proof -
  assume n: "n < 64"
  then have d: "n div 8 < 8" by linarith
  then have "rev (bytes_of x) ! (n div 8) = bytes_of x ! (7 - n div 8)" by (simp add: rev_nth)
  then show ?thesis using n d bit_bytes_of [of "7 - n div 8" "n mod 8" x]
    by (simp add: bswap64_def word_of_bytes_def [symmetric] bit_word_of_bytes)
qed

lemma bytes_of_bswap64: "bytes_of (bswap64 x) = rev (bytes_of x)"
proof (rule nth_equalityI)
  fix i assume "i < length (bytes_of (bswap64 x))"
  then have i: "i < 8" by simp
  show "bytes_of (bswap64 x) ! i = rev (bytes_of x) ! i"
  proof (rule bit_eqI)
    fix j assume "possible_bit TYPE(u8) j"
    then have j: "j < 8" by (simp add: possible_bit_word)
    have "bit (bytes_of (bswap64 x) ! i) j = bit (bswap64 x) (8 * i + j)" using i j by (rule bit_bytes_of)
    also have "\<dots> = bit x (8 * (7 - i) + j)" using bit_bswap64 [of "8 * i + j" x] i j by simp
    also have "\<dots> = bit (bytes_of x ! (7 - i)) j" using i j by (simp add: bit_bytes_of)
    finally show "bit (bytes_of (bswap64 x) ! i) j = bit (rev (bytes_of x) ! i) j" using i by (simp add: rev_nth)
  qed
qed simp

lemma bswap64_bswap64: "bswap64 (bswap64 x) = x"
  by (simp add: bswap64_def [of "bswap64 x"] bytes_of_bswap64 word_of_bytes_def [symmetric] word_of_bytes_of)

text \<open>The value of a byte string, least significant byte first.\<close>

fun le_val :: "bytes \<Rightarrow> nat" where
  "le_val [] = 0"
| "le_val (b # bs) = unat b + 256 * le_val bs"

lemma unat_u8_less: "unat (b :: u8) < 256"
  by (rule order.strict_trans2 [OF unsigned_less]) simp

lemma le_val_less: "le_val bs < 256 ^ length bs"
proof (induction bs)
  case (Cons b bs)
  have "unat b + 256 * le_val bs < 256 * Suc (le_val bs)" using unat_u8_less [of b] by simp
  also have "\<dots> \<le> 256 * 256 ^ length bs" using Cons.IH by (intro mult_le_mono) simp_all
  finally show ?case by simp
qed simp

lemma word_of_bytes_val: "word_of_bytes bs = of_nat (le_val bs)"
  by (induction bs) (simp_all add: word_of_bytes_def push_bit_eq_mult of_nat_unat)

lemma unat_bytes: "unat x = le_val (bytes_of x)"
proof -
  have "le_val (bytes_of x) < 18446744073709551616" using le_val_less [of "bytes_of x"] by simp
  then have "unat (word_of_bytes (bytes_of x)) = le_val (bytes_of x)"
    unfolding word_of_bytes_val by (rule unat_of_nat_u64)
  then show ?thesis by (simp only: word_of_bytes_of)
qed

lemma le_val_append: "le_val (xs @ ys) = le_val xs + 256 ^ length xs * le_val ys"
  by (induction xs) (simp_all add: algebra_simps)

text \<open>How \<^verbatim>\<open>memcmp\<close> orders strings of one length.\<close>

fun memcmp_less :: "bytes \<Rightarrow> bytes \<Rightarrow> bool" where
  "memcmp_less (a # as) (b # bs) = (a < b \<or> a = b \<and> memcmp_less as bs)"
| "memcmp_less _ _ = False"

lemma digit_less: "x < B \<Longrightarrow> y < B \<Longrightarrow> x + B * a < y + B * b \<longleftrightarrow> a < b \<or> a = b \<and> x < (y :: nat)"
proof -
  assume xy: "x < B" "y < B"
  have lt: "u + B * a < v + B * b" if "a < b" "u < B" for u v a b :: nat
  proof -
    have "u + B * a < B * Suc a" using that(2) by simp
    also have "\<dots> \<le> B * b" using that(1) by (intro mult_le_mono2) simp
    finally show ?thesis by simp
  qed
  show ?thesis using lt [of a b x y] lt [of b a y x] xy by (cases a b rule: linorder_cases) auto
qed

lemma memcmp_less_val:
  "length xs = length ys \<Longrightarrow> memcmp_less xs ys \<longleftrightarrow> le_val (rev xs) < le_val (rev ys)"
proof (induction xs ys rule: list_induct2)
  case (Cons a as b bs)
  have "le_val (rev as) < 256 ^ length as" "le_val (rev bs) < 256 ^ length as"
    using le_val_less [of "rev as"] le_val_less [of "rev bs"] Cons.hyps by simp_all
  from digit_less [OF this, of "unat a" "unat b"] show ?case
    using Cons by (simp add: le_val_append word_less_nat_alt word_unat_eq_iff)
qed simp


text \<open>The portable branch computes the same.\<close>

lemma bit_masks:
  assumes "n < 64"
  shows "bit (0x00ff00ff00ff00ff :: u64) n \<longleftrightarrow> even (n div 8)"
    "bit (0xff00ff00ff00ff00 :: u64) n \<longleftrightarrow> odd (n div 8)"
    "bit (0x0000ffff0000ffff :: u64) n \<longleftrightarrow> even (n div 16)"
    "bit (0xffff0000ffff0000 :: u64) n \<longleftrightarrow> odd (n div 16)"
proof -
  have "list_all (\<lambda>n. (bit (0x00ff00ff00ff00ff :: u64) n \<longleftrightarrow> even (n div 8)) \<and>
    (bit (0xff00ff00ff00ff00 :: u64) n \<longleftrightarrow> odd (n div 8)) \<and>
    (bit (0x0000ffff0000ffff :: u64) n \<longleftrightarrow> even (n div 16)) \<and>
    (bit (0xffff0000ffff0000 :: u64) n \<longleftrightarrow> odd (n div 16))) [0..<64]"
    by code_simp
  then show "bit (0x00ff00ff00ff00ff :: u64) n \<longleftrightarrow> even (n div 8)"
    "bit (0xff00ff00ff00ff00 :: u64) n \<longleftrightarrow> odd (n div 8)"
    "bit (0x0000ffff0000ffff :: u64) n \<longleftrightarrow> even (n div 16)"
    "bit (0xffff0000ffff0000 :: u64) n \<longleftrightarrow> odd (n div 16)"
    using assms by (simp_all add: list_all_iff)
qed

text \<open>A step that swaps neighbouring blocks of \<open>w\<close> bits moves bit \<open>n\<close> from the other block.\<close>

lemma bit_swap_step:
  fixes x :: u64
  assumes "n < 64" "\<And>i. i < 64 \<Longrightarrow> bit ev i \<longleftrightarrow> even (i div w)" "\<And>i. i < 64 \<Longrightarrow> bit od i \<longleftrightarrow> odd (i div w)" "0 < w"
    "2 * w dvd 64"
  shows "bit (push_bit w (x AND ev) OR drop_bit w (x AND od)) n \<longleftrightarrow>
    bit x (if even (n div w) then n + w else n - w)"
proof (cases "even (n div w)")
  case True
  then obtain q where q: "n div w = 2 * q" by blast
  from assms(5) obtain d where d: "64 = 2 * w * d" by blast
  have "n < w * (2 * q + 1)" using q assms(4) by (metis add.commute dividend_less_div_times mult.commute mult_Suc_right plus_1_eq_Suc)
  moreover have "2 * q + 1 < 2 * d"
  proof -
    have "w * (2 * q) \<le> n" using q by (metis div_times_less_eq_dividend mult.commute)
    also have "n < w * (2 * d)" using assms(1) d by (simp add: mult.commute mult.left_commute)
    finally have "2 * q < 2 * d" by (simp only: nat_mult_less_cancel1 [OF assms(4)])
    then show ?thesis by simp
  qed
  then have "w * (2 * q + 2) \<le> w * (2 * d)" by (intro mult_le_mono2) simp
  ultimately have nw: "n + w < 64" using d by (simp add: algebra_simps)
  have "\<not> (w \<le> n \<and> bit ev (n - w))" using True assms by (auto simp: le_div_geq)
  moreover have "bit od (n + w)" using True assms(3) [OF nw] assms(4) by simp
  ultimately show ?thesis using True assms(1) nw by (auto simp: bit_simps add.commute)
next
  case False
  have w: "w \<le> n" using False by (metis div_less even_zero not_le)
  have "bit ev (n - w)" using False assms(1,2,4) w by (simp add: le_div_geq)
  moreover have "\<not> (bit x (n + w) \<and> bit od (n + w))"
    using False assms(3) [of "n + w"] assms(4) by (auto dest: bit_imp_le_length)
  ultimately show ?thesis using False w assms(1) by (auto simp: bit_simps add.commute)
qed

lemma bswap64_portable_eq: "bswap64_portable x = bswap64 x"
proof (rule bit_eqI)
  fix n assume "possible_bit TYPE(u64) n"
  then have n: "n < 64" by simp
  define x1 where "x1 = push_bit 8 (x AND 0x00ff00ff00ff00ff) OR drop_bit 8 (x AND 0xff00ff00ff00ff00)"
  define x2 where "x2 = push_bit 16 (x1 AND 0x0000ffff0000ffff) OR drop_bit 16 (x1 AND 0xffff0000ffff0000)"
  have 1: "bit x1 i \<longleftrightarrow> bit x (if even (i div 8) then i + 8 else i - 8)" if "i < 64" for i
    unfolding x1_def by (rule bit_swap_step [OF that bit_masks(1,2)]) simp_all
  have 2: "bit x2 i \<longleftrightarrow> bit x1 (if even (i div 16) then i + 16 else i - 16)" if "i < 64" for i
    unfolding x2_def by (rule bit_swap_step [OF that bit_masks(3,4)]) simp_all
  have 3: "bit (bswap64_portable x) n \<longleftrightarrow> bit x2 (if n < 32 then n + 32 else n - 32)"
    using n unfolding bswap64_portable_def Let_def x1_def [symmetric] x2_def [symmetric]
    by (auto simp: bit_simps add.commute dest: bit_imp_le_length)
  define a where "a = (if n < 32 then n + 32 else n - 32)"
  define b where "b = (if even (a div 16) then a + 16 else a - 16)"
  define d where "d = (if even (b div 8) then b + 8 else b - 8)"
  have "list_all (\<lambda>n. let a = (if n < 32 then n + 32 else n - 32); b = (if even (a div 16) then a + 16 else a - 16);
      d = (if even (b div 8) then b + 8 else b - 8) in a < 64 \<and> b < 64 \<and> d = 8 * (7 - n div 8) + n mod 8) [0..<64 :: nat]"
    by code_simp
  then have "a < 64 \<and> b < 64 \<and> d = 8 * (7 - n div 8) + n mod 8"
    using n unfolding list_all_iff Let_def a_def b_def d_def by auto
  with 1 [of b] 2 [of a] 3 bit_bswap64 [OF n, of x] show "bit (bswap64_portable x) n = bit (bswap64 x) n"
    unfolding a_def b_def d_def by simp
qed


subsection \<open>What the adapters rely on\<close>

text \<open>A native index keeps a map: a search returns the stored value or null, an insert of a new key
  (with \<open>over\<close>: of any key) stores, a delete drops.\<close>

definition kv_laws :: "bool \<Rightarrow> 'b native_kv \<Rightarrow> ('b \<Rightarrow> idx_map \<Rightarrow> bool) \<Rightarrow> bool" where
  "kv_laws over B rel \<longleftrightarrow> (\<forall>s m k v. rel s m \<longrightarrow> nk_search B s k = val_or_0 (m k) \<and>
     (over \<or> m k = None \<longrightarrow> rel (nk_insert B k v s) (m(k \<mapsto> v))) \<and> rel (nk_delete B k s) (m(k := None)))"

definition lb_laws :: "('b, 'l) native_lb \<Rightarrow> ('b \<Rightarrow> idx_map \<Rightarrow> bool) \<Rightarrow> bool" where
  "lb_laws B rel \<longleftrightarrow> (\<forall>s m k v. rel s m \<longrightarrow>
     (case lb_lookup B s k of
        (None, pos) \<Rightarrow> m k = None
      | (Some leaf, pos) \<Rightarrow> if pos < 0 then m k = None else m k = Some (lb_get_recptr B s leaf pos)) \<and>
     rel (lb_insert B k v s) (m(k \<mapsto> v)) \<and> rel (lb_del B k s) (m(k := None)))"

definition fp_laws :: "'b native_fp \<Rightarrow> ('b \<Rightarrow> idx_map \<Rightarrow> bool) \<Rightarrow> bool" where
  "fp_laws B rel \<longleftrightarrow> (\<forall>s m k v. rel s m \<longrightarrow> fp_find B s k = val_or_0 (m k) \<and>
     snd (fp_update B k v s) = (m k \<noteq> None) \<and>
     rel (fst (fp_update B k v s)) (if m k = None then m else m(k \<mapsto> v)) \<and>
     (m k = None \<longrightarrow> rel (fst (fp_insert B k v s)) (m(k \<mapsto> v))) \<and>
     rel (fst (fp_delete B k s)) (m(k := None)))"

text \<open>BzTree is keyed by byte strings, here the encoded keys.\<close>

definition bz_laws :: "'b native_bz \<Rightarrow> ('b \<Rightarrow> (u64 \<rightharpoonup> u64) \<Rightarrow> bool) \<Rightarrow> bool" where
  "bz_laws B rel \<longleftrightarrow> (\<forall>s m k v. rel s m \<longrightarrow>
     (case m k of None \<Rightarrow> fst (bz_read B s k) = NotFound | Some x \<Rightarrow> bz_read B s k = (Ok, x)) \<and>
     snd (bz_upsert B k v s) = Ok \<and> rel (fst (bz_upsert B k v s)) (m(k \<mapsto> v)) \<and>
     rel (fst (bz_delete B k s)) (m(k := None)))"

definition bz_rel :: "('b \<Rightarrow> (u64 \<rightharpoonup> u64) \<Rightarrow> bool) \<Rightarrow> 'b \<Rightarrow> idx_map \<Rightarrow> bool" where
  "bz_rel rel s m \<longleftrightarrow> (\<exists>me. rel s me \<and> m = me \<circ> encode_key)"

text \<open>The contract of an index whose update adds and whose removal drops: any update and removal
  returns, and lookups read the map.\<close>

definition upsert_ok :: "'s IIndex \<Rightarrow> ('s \<Rightarrow> idx_map \<Rightarrow> bool) \<Rightarrow> bool" where
  "upsert_ok ix rel \<longleftrightarrow> (\<forall>s m k v. rel s m \<longrightarrow> ii_lookup ix s k = Some (val_or_0 (m k)) \<and>
     (\<exists>s' b. ii_update ix k v s = Some (s', b) \<and> rel s' (m(k \<mapsto> v))) \<and>
     (\<exists>s' b. ii_remove ix k s = Some (s', b) \<and> rel s' (m(k := None))))"

lemma upsert_okI:
  assumes "\<And>s m k. rel s m \<Longrightarrow> ii_lookup ix s k = Some (val_or_0 (m k))"
    and "\<And>s m k v. rel s m \<Longrightarrow> \<exists>s' b. ii_update ix k v s = Some (s', b) \<and> rel s' (m(k \<mapsto> v))"
    and "\<And>s m k. rel s m \<Longrightarrow> \<exists>s' b. ii_remove ix k s = Some (s', b) \<and> rel s' (m(k := None))"
  shows "upsert_ok ix rel"
  unfolding upsert_ok_def using assms by blast

lemma kv_lawsD:
  assumes "kv_laws over B rel" "rel s m"
  shows "nk_search B s k = val_or_0 (m k)" "over \<or> m k = None \<Longrightarrow> rel (nk_insert B k v s) (m(k \<mapsto> v))"
    "rel (nk_delete B k s) (m(k := None))"
  using assms unfolding kv_laws_def by blast+

lemma delete_insert:
  assumes "kv_laws over B rel" "rel s m"
  shows "rel (nk_insert B k v (nk_delete B k s)) (m(k \<mapsto> v))"
proof -
  have "(m(k := None))(k \<mapsto> v) = m(k \<mapsto> v)" by simp
  then show ?thesis using kv_lawsD(2) [OF assms(1) kv_lawsD(3) [OF assms], where k = k] by (metis fun_upd_same)
qed

lemma fastfair_upsert: "kv_laws over B rel \<Longrightarrow> upsert_ok (FastFairAdapter B) rel"
  by (rule upsert_okI) (auto simp: FastFairAdapter_def Let_def kv_lawsD intro: delete_insert)

lemma wbtree_upsert: "kv_laws over B rel \<Longrightarrow> upsert_ok (WBTreeAdapter B) rel"
  by (rule upsert_okI) (auto simp: WBTreeAdapter_def Let_def kv_lawsD intro: delete_insert)

lemma utree_upsert: "kv_laws True B rel \<Longrightarrow> upsert_ok (UTreeAdapter B) rel"
  by (rule upsert_okI) (auto simp: UTreeAdapter_def Let_def kv_lawsD)

lemma lbtree_upsert:
  assumes "lb_laws B rel"
  shows "upsert_ok (LBTreeAdapter B fill) rel"
proof (rule upsert_okI, goal_cases)
  case (1 s m k)
  obtain l pos where lp: "lb_lookup B s k = (l, pos)" by fastforce
  from assms(1) [unfolded lb_laws_def, rule_format, OF 1, of k 0]
  have "case lb_lookup B s k of (None, pos) \<Rightarrow> m k = None
      | (Some leaf, pos) \<Rightarrow> if pos < 0 then m k = None else m k = Some (lb_get_recptr B s leaf pos)"
    by (rule conjunct1)
  with lp show ?case by (cases l) (auto simp: LBTreeAdapter_def Let_def val_or_0_def split: if_splits)
next
  case (2 s m k v)
  then show ?case using assms(1) [unfolded lb_laws_def, rule_format, OF 2, of k v]
    by (auto simp: LBTreeAdapter_def Let_def simp del: fun_upd_apply)
next
  case (3 s m k)
  then show ?case using assms(1) [unfolded lb_laws_def, rule_format, OF 3, of k 0]
    by (auto simp: LBTreeAdapter_def Let_def simp del: fun_upd_apply)
qed

lemma fp_lawsD:
  assumes "fp_laws B rel" "rel s m"
  shows "fp_find B s k = val_or_0 (m k)" "fp_update B k v s = (s1, b) \<Longrightarrow> b = (m k \<noteq> None)"
    "fp_update B k v s = (s1, b) \<Longrightarrow> rel s1 (if m k = None then m else m(k \<mapsto> v))"
    "m k = None \<Longrightarrow> fp_insert B k v s = (s2, b') \<Longrightarrow> rel s2 (m(k \<mapsto> v))"
    "fp_delete B k s = (s2, b') \<Longrightarrow> rel s2 (m(k := None))"
  using assms(1) [unfolded fp_laws_def, rule_format, OF assms(2), of k v]
  by (simp_all del: fun_upd_apply)

lemma fptree_upsert:
  assumes "fp_laws B rel"
  shows "upsert_ok (FPTreeAdapter B) rel"
proof (rule upsert_okI, goal_cases)
  case (1 s m k)
  then show ?case by (simp add: FPTreeAdapter_def Let_def fp_lawsD(1) [OF assms])
next
  case (2 s m k v)
  obtain s1 b1 where u: "fp_update B k v s = (s1, b1)" by fastforce
  note law = fp_lawsD(2,3) [OF assms 2 u]
  obtain s2 b2 where i: "fp_insert B k v s1 = (s2, b2)" by fastforce
  show ?case
  proof (cases "m k = None")
    case True
    with law have "b1 = False" "rel s1 m" by simp_all
    with fp_lawsD(4) [OF assms \<open>rel s1 m\<close> True i] u i show ?thesis
      by (simp add: FPTreeAdapter_def Let_def fp_update_op_def del: fun_upd_apply)
  next
    case False
    with law u show ?thesis by (auto simp: FPTreeAdapter_def Let_def fp_update_op_def simp del: fun_upd_apply)
  qed
next
  case (3 s m k)
  obtain s1 b1 where d: "fp_delete B k s = (s1, b1)" by fastforce
  from fp_lawsD(5) [OF assms 3 d] d show ?case by (simp add: FPTreeAdapter_def Let_def del: fun_upd_apply)
qed

lemma encode_key_inj: "encode_key k = encode_key k' \<longleftrightarrow> k = k'"
  unfolding encode_key_def by (metis bswap64_bswap64)

lemma upd_encode: "(me(encode_key k := x)) \<circ> encode_key = (me \<circ> encode_key)(k := x)"
  by (auto simp: fun_eq_iff encode_key_inj)

lemma bztree_upsert:
  assumes "bz_laws B rel"
  shows "upsert_ok (BzTreeAdapter B) (bz_rel rel)"
proof (rule upsert_okI, goal_cases)
  case (1 s m k)
  then obtain me where me: "rel s me" "m = me \<circ> encode_key" by (auto simp: bz_rel_def)
  with assms have "case me (encode_key k) of None \<Rightarrow> fst (bz_read B s (encode_key k)) = NotFound
    | Some x \<Rightarrow> bz_read B s (encode_key k) = (Ok, x)"
    using assms [unfolded bz_laws_def, rule_format, OF me(1)] by blast
  then show ?case using me(2) by (auto simp: BzTreeAdapter_def Let_def val_or_0_def split: option.splits prod.splits)
next
  case (2 s m k v)
  then obtain me where me: "rel s me" "m = me \<circ> encode_key" by (auto simp: bz_rel_def)
  obtain s' rc where u: "bz_upsert B (encode_key k) v s = (s', rc)" by fastforce
  then have "rel s' (me(encode_key k \<mapsto> v))" using assms me(1) unfolding bz_laws_def by (metis fst_conv)
  then have "bz_rel rel s' (m(k \<mapsto> v))" unfolding bz_rel_def me(2) using upd_encode [of me k "Some v"] by metis
  with u show ?case by (simp add: BzTreeAdapter_def Let_def)
next
  case (3 s m k)
  then obtain me where me: "rel s me" "m = me \<circ> encode_key" by (auto simp: bz_rel_def)
  obtain s' rc where u: "bz_delete B (encode_key k) s = (s', rc)" by fastforce
  then have "rel s' (me(encode_key k := None))" using assms me(1) unfolding bz_laws_def by (metis fst_conv)
  then have "bz_rel rel s' (m(k := None))" unfolding bz_rel_def me(2) using upd_encode [of me k None] by metis
  with u show ?case by (simp add: BzTreeAdapter_def Let_def)
qed


subsection \<open>Scans of the DPTree adapter\<close>

text \<open>DPTree stores encoded values: an insert shifts the value left, an erase stores a tombstone with the
  lowest bit set. A range lookup returns the encoded values of the keys from \<open>lo\<close> up to and excluding
  \<open>hi\<close>, in key order.\<close>

definition dp_laws :: "'b native_dp \<Rightarrow> ('b \<Rightarrow> (u64 \<rightharpoonup> u64) \<Rightarrow> bool) \<Rightarrow> bool" where
  "dp_laws B rel \<longleftrightarrow> dp_strip B = drop_bit 1 \<and>
     (\<forall>s m k v. rel s m \<longrightarrow> dp_lookup B s k = m k \<and> rel (dp_insert B k v s) (m(k \<mapsto> push_bit 1 v)) \<and>
        rel (dp_erase B k s) (m(k \<mapsto> 1))) \<and>
     (\<forall>s m lo hi. rel s m \<longrightarrow> dp_lookup_range B s lo hi =
        map (\<lambda>k. the (m k)) (sorted_list_of_set {k \<in> dom m. lo \<le> k \<and> k < hi}))"

definition live :: "u64 \<Rightarrow> bool" where
  "live enc \<longleftrightarrow> enc AND 1 = 0"

lemma dp_collect_all:
  "got + int (length (filter live vs)) \<le> n \<Longrightarrow>
   dp_collect strip n vs acc got =
     (got + int (length (filter live vs)), foldl (\<lambda>acc v. acc XOR strip v) acc (filter live vs))"
proof (induction vs arbitrary: acc got)
  case (Cons v vs)
  show ?case
  proof (cases "live v")
    case True
    with Cons show ?thesis by (simp add: live_def)
  next
    case False
    then have "filter live (v # vs) = filter live vs" by simp
    moreover have "dp_collect strip n (v # vs) acc got = dp_collect strip n vs acc got"
    proof (cases "got \<ge> n")
      case True
      have "got + int (length (filter live vs)) \<le> n" using Cons.prems False by simp
      with True have "int (length (filter live vs)) \<le> 0" by linarith
      then have "filter live vs = []" by simp
      with Cons.IH [of got acc] Cons.prems False True show ?thesis by simp
    qed (use False in \<open>simp add: live_def\<close>)
    ultimately show ?thesis using Cons by simp
  qed
qed simp

lemma unat_scan_hi:
  assumes "0 < n" "n < 2 ^ 31"
  shows "unat (scan_hi lo n) = min (unat lo + nat n) (2 ^ 64 - 1)"
proof -
  have "(of_int n :: u64) = of_nat (nat n)" using assms by simp
  moreover have "nat n < 18446744073709551616" using assms by simp
  ultimately have n: "unat (of_int n :: u64) = nat n" by (simp only: unat_of_nat_u64)
  have max: "unat (0xFFFFFFFFFFFFFFFF :: u64) = 2 ^ 64 - 1" by simp
  have "(of_int n :: u64) \<le> 0xFFFFFFFFFFFFFFFF" using n max assms by (simp add: word_le_nat_alt)
  then have "unat (0xFFFFFFFFFFFFFFFF - of_int n :: u64) = 2 ^ 64 - 1 - nat n"
    by (simp only: unat_diff_u64 n max)
  then have cmp: "lo > 0xFFFFFFFFFFFFFFFF - of_int n \<longleftrightarrow> 2 ^ 64 - 1 - nat n < unat lo"
    by (simp only: word_less_nat_alt)
  show ?thesis
  proof (cases "lo > 0xFFFFFFFFFFFFFFFF - of_int n")
    case True
    then show ?thesis unfolding scan_hi_def using cmp max by simp
  next
    case False
    then have "unat lo \<le> 2 ^ 64 - 1 - nat n" using cmp by simp
    moreover have "nat n \<le> 2 ^ 64 - 1" using assms by simp
    ultimately have le: "unat lo + nat n \<le> 2 ^ 64 - 1" by linarith
    then have "unat (lo + of_int n) = unat lo + nat n" using n by (subst unat_add_u64) simp_all
    then show ?thesis unfolding scan_hi_def using False le by simp
  qed
qed

definition window :: "u64 \<Rightarrow> int \<Rightarrow> u64 set" where
  "window lo n = {k. unat lo \<le> unat k \<and> unat k < min (unat lo + nat n) (2 ^ 64 - 1)}"

lemma card_window: "card (window lo n) \<le> nat n"
proof -
  have "unat ` window lo n \<subseteq> {unat lo..<unat lo + nat n}" by (auto simp: window_def)
  then have "card (unat ` window lo n) \<le> nat n" using card_mono [of "{unat lo..<unat lo + nat n}"] by fastforce
  moreover have "inj_on unat (window lo n)" by (auto simp: inj_on_def word_unat_eq_iff)
  ultimately show ?thesis by (simp add: card_image)
qed



text \<open>A native index that is a map, for the examples.\<close>

definition map_dp :: "(u64 \<rightharpoonup> u64) native_dp" where
  "map_dp = \<lparr>dp_insert = (\<lambda>k v m. m(k \<mapsto> push_bit 1 v)), dp_lookup = (\<lambda>m k. m k), dp_strip = drop_bit 1,
     dp_erase = (\<lambda>k m. m(k \<mapsto> 1)),
     dp_lookup_range = (\<lambda>m lo hi. map (\<lambda>k. the (m k)) (sorted_list_of_set {k \<in> dom m. lo \<le> k \<and> k < hi}))\<rparr>"


subsection \<open>Properties\<close>



definition map_kv :: "idx_map native_kv" where
  "map_kv = \<lparr>nk_insert = (\<lambda>k v m. m(k \<mapsto> v)), nk_search = (\<lambda>m k. val_or_0 (m k)), nk_delete = (\<lambda>k m. m(k := None))\<rparr>"

definition map_lb :: "(idx_map, u64) native_lb" where
  "map_lb = \<lparr>lb_bulkload = (\<lambda>n key fill m k. if \<exists>i < nat n. key i = k then Some k else m k),
     lb_insert = (\<lambda>k v m. m(k \<mapsto> v)), lb_lookup = (\<lambda>m k. (m k, if m k = None then - 1 else 0)),
     lb_get_recptr = (\<lambda>m leaf pos. leaf), lb_del = (\<lambda>k m. m(k := None))\<rparr>"

definition map_fp :: "idx_map native_fp" where
  "map_fp = \<lparr>fp_insert = (\<lambda>k v m. if m k = None then (m(k \<mapsto> v), True) else (m, False)),
     fp_find = (\<lambda>m k. val_or_0 (m k)), fp_update = (\<lambda>k v m. if m k = None then (m, False) else (m(k \<mapsto> v), True)),
     fp_delete = (\<lambda>k m. (m(k := None), m k \<noteq> None)), fp_range_scan = (\<lambda>m lo n. [])\<rparr>"

definition map_bz :: "(u64 \<rightharpoonup> u64) native_bz" where
  "map_bz = \<lparr>bz_insert = (\<lambda>k v m. if m k = None then (m(k \<mapsto> v), Ok) else (m, KeyExists)),
     bz_read = (\<lambda>m k. case m k of None \<Rightarrow> (NotFound, 0) | Some x \<Rightarrow> (Ok, x)),
     bz_upsert = (\<lambda>k v m. (m(k \<mapsto> v), Ok)), bz_delete = (\<lambda>k m. (m(k := None), if m k = None then NotFound else Ok)),
     bz_range_scan = (\<lambda>m lo n. [])\<rparr>"


end
