(* ===== verification/Arrival_Schedule.thy ===== *)
theory Arrival_Schedule
  imports Poisson_Run Traffic_Model Bench_Args
begin

text \<open>
  The part of \<^verbatim>\<open>run_poisson\<close> that runs before the clock starts: the gamma-distributed
  inter-arrival times (\<^verbatim>\<open>InterArrivalGen\<close>), the pregenerated schedule of arrivals with the operation
  drawn for each, and the rate statistics. The random sources are parameters: \<open>rng\<close> seeds one, \<open>gam k\<close>
  draws from \<^verbatim>\<open>std::gamma_distribution\<close> with shape \<open>k\<close>.
\<close>

subsection \<open>Inter-arrival times\<close>

record 'g InterArrivalGen =
  ia_rng :: 'g
  ia_gamma_k :: real
  cur_cv2 :: real
  cur_k :: real
  cur_rate :: real
  ia_initialized :: bool

definition set_rate :: "real \<Rightarrow> real \<Rightarrow> 'g InterArrivalGen \<Rightarrow> 'g InterArrivalGen" where
  "set_rate r cv g =
     (let cv' = (if cv \<le> 0 then fl (1 / 10 ^ 6) else cv);
          r' = (if r \<le> 0 then 1 else r);
          k = fl (1 / cv');
          g' = (if \<not> ia_initialized g \<or> \<bar>fl (cv' - cur_cv2 g)\<bar> > fl (1 / 10 ^ 12)
                then g\<lparr>ia_gamma_k := k, cur_cv2 := cv', cur_k := k, ia_initialized := True\<rparr> else g)
      in g'\<lparr>cur_rate := r'\<rparr>)"

definition InterArrivalGen_new :: "real \<Rightarrow> real \<Rightarrow> 'g \<Rightarrow> 'g InterArrivalGen" where
  "InterArrivalGen_new r cv g =
     set_rate r cv \<lparr>ia_rng = g, ia_gamma_k = 1, cur_cv2 = 0, cur_k = 1, cur_rate = 1, ia_initialized = False\<rparr>"

definition next_ns :: "(real \<Rightarrow> 'g \<Rightarrow> real \<times> 'g) \<Rightarrow> 'g InterArrivalGen \<Rightarrow> (u64 \<times> 'g InterArrivalGen) option" where
  "next_ns gam g =
     (case gam (ia_gamma_k g) (ia_rng g) of (x, rng') \<Rightarrow>
        let s0 = fl (x / fl (cur_rate g * cur_k g));
            s = (if s0 < 0 then 0 else s0);
            ns0 = fl (s * 10 ^ 9);
            ns = (if ns0 > 10 ^ 18 then 10 ^ 18 else ns0)
        in map_option (\<lambda>w. (w, g\<lparr>ia_rng := rng'\<rparr>)) (u64_of_double ns))"

subsection \<open>The schedule\<close>

record sched_acc =
  sa_sched :: "u64 list"
  sa_ops :: "Op list"
  lam_sum :: real
  lam_min :: real
  lam_max :: real

fun sched_loop ::
  "'g mathlib \<Rightarrow> (real \<Rightarrow> 'g \<Rightarrow> real \<times> 'g) \<Rightarrow> real \<Rightarrow> Op list \<Rightarrow> nat \<Rightarrow> 'g TrafficModel \<Rightarrow> 'g InterArrivalGen \<Rightarrow>
   u32 \<Rightarrow> u64 \<Rightarrow> sched_acc \<Rightarrow> sched_acc option"
where
  "sched_loop M gam cv mix 0 tm ia lcg t acc = Some acc"
| "sched_loop M gam cv mix (Suc n) tm ia lcg t acc =
     (case lambda_at M (fl (double_of_u64 t * fl (1 / 10 ^ 9))) tm of
        None \<Rightarrow> None
      | Some (tm', lam) \<Rightarrow>
          (case next_ns gam (set_rate lam cv ia) of
             None \<Rightarrow> None
           | Some (gap, ia') \<Rightarrow>
               let t' = t + gap; lcg' = lcg_next lcg
               in sched_loop M gam cv mix n tm' ia' lcg' t'
                    \<lparr>sa_sched = sa_sched acc @ [t'], sa_ops = sa_ops acc @ [sample mix lcg'],
                     lam_sum = fl (lam_sum acc + lam),
                     lam_min = (if lam < lam_min acc then lam else lam_min acc),
                     lam_max = (if lam > lam_max acc then lam else lam_max acc)\<rparr>))"

definition poisson_schedule ::
  "'g mathlib \<Rightarrow> (real \<Rightarrow> 'g \<Rightarrow> real \<times> 'g) \<Rightarrow> (u64 \<Rightarrow> 'g) \<Rightarrow> Args \<Rightarrow> Op list \<Rightarrow> nat \<Rightarrow> sched_acc option" where
  "poisson_schedule M gam rng a mix n =
     (let tp = (traffic a)\<lparr>base_rate := rate a,
            total_duration_s := (if rate a > 0 then fl (fl (real n) / rate a) else 0)\<rparr>;
          tm = TrafficModel_new M tp (rng (seed a XOR 0xC0FFEE99));
          ia = InterArrivalGen_new (rate a) (cv2 a) (rng (seed a XOR 0x12345));
          lcg = ucast (seed a XOR 0xDEADBEEF)
      in sched_loop M gam (cv2 a) mix n tm ia lcg 0
           \<lparr>sa_sched = [], sa_ops = [], lam_sum = 0, lam_min = fl (10 ^ 30), lam_max = 0\<rparr>)"

text \<open>The mean, the least and the greatest rate reported.\<close>

definition lambda_stats :: "nat \<Rightarrow> sched_acc \<Rightarrow> real \<times> real \<times> real" where
  "lambda_stats n acc = (fl (lam_sum acc / fl (real (max 1 n))),
     (if lam_min acc = fl (10 ^ 30) then 0 else lam_min acc), lam_max acc)"

text \<open>The configuration of the threads; the policy of the lock is the one of the batch driver, with the
  number of clients.\<close>

definition poisson_config ::
  "'s IIndex \<Rightarrow> Args \<Rightarrow> OpMix \<Rightarrow> idx_key_t list \<Rightarrow> sched_acc \<Rightarrow> 's poisson_cfg" where
  "poisson_config ix a m qkeys acc = \<lparr>pc_ix = ix, pc_qkeys = qkeys, pc_sched = sa_sched acc, pc_ops = sa_ops acc,
     pc_scan_len = scan_len a, pc_clients = nat (clients a), pc_needs_lock = needs_lock m (clients a) ix\<rparr>"

subsection \<open>Every draw returns\<close>

lemma next_ns_Some: "\<exists>w g'. next_ns gam g = Some (w, g') \<and> unat w \<le> 10 ^ 18"
proof -
  obtain x rng' where x: "gam (ia_gamma_k g) (ia_rng g) = (x, rng')" by fastforce
  define s where "s = (if fl (x / fl (cur_rate g * cur_k g)) < 0 then 0 else fl (x / fl (cur_rate g * cur_k g)))"
  define ns where "ns = (if fl (s * 10 ^ 9) > 10 ^ 18 then 10 ^ 18 else fl (s * 10 ^ 9))"
  have "0 \<le> s" by (simp add: s_def)
  then have "0 \<le> fl (s * 10 ^ 9)" by (intro fl_nonneg) simp
  then have ns: "0 \<le> ns" "ns \<le> 10 ^ 18" by (simp_all add: ns_def)
  then obtain w where w: "u64_of_double ns = Some w" "unat w = nat \<lfloor>ns\<rfloor>"
    using u64_of_double_Some [of ns] by auto
  have "\<lfloor>ns\<rfloor> \<le> 10 ^ 18" using ns(2) by (simp add: floor_le_iff)
  then have "nat \<lfloor>ns\<rfloor> \<le> nat (10 ^ 18)" by (rule nat_mono)
  moreover have "nat (10 ^ 18) = 10 ^ 18" by simp
  ultimately have "unat w \<le> 10 ^ 18" unfolding w(2) by (rule ord_le_eq_trans)
  then show ?thesis
    unfolding next_ns_def x prod.case Let_def s_def [symmetric] ns_def [symmetric] w(1) by simp
qed


text \<open>The times the schedule asks for stay below \<open>2^35\<close> seconds.\<close>

lemma sched_time: "0 \<le> fl (double_of_u64 t * fl (1 / 10 ^ 9))" "fl (double_of_u64 t * fl (1 / 10 ^ 9)) \<le> 2 ^ 35"
proof -
  have p: "fl (2 powi n) = 2 powi n" if "0 \<le> n" for n using that by (intro fl_pow) simp
  have "fl (real (unat t)) \<le> fl (2 powi 64)" using unat_u64_lt [of t] by (intro fl_mono) simp
  then have t: "0 \<le> double_of_u64 t" "double_of_u64 t \<le> 2 ^ 64"
    using p [of 64] by (simp_all add: double_of_u64_def fl_nonneg)
  have "fl (1 / 10 ^ 9) \<le> fl (2 powi (-29))" by (intro fl_mono) (simp add: power_int_minus field_simps)
  then have c: "0 \<le> fl (1 / 10 ^ 9)" "fl (1 / 10 ^ 9) \<le> 1 / 2 ^ 29"
    using fl_pow [of "-29"] by (simp_all add: fl_nonneg power_int_minus field_simps)
  show "0 \<le> fl (double_of_u64 t * fl (1 / 10 ^ 9))" using t c by (intro fl_nonneg) simp
  have "double_of_u64 t * fl (1 / 10 ^ 9) \<le> 2 ^ 64 * (1 / 2 ^ 29)" using t c by (intro mult_mono) simp_all
  also have "\<dots> = 2 powi 35" by simp
  finally have "fl (double_of_u64 t * fl (1 / 10 ^ 9)) \<le> fl (2 powi 35)" by (rule fl_mono)
  then show "fl (double_of_u64 t * fl (1 / 10 ^ 9)) \<le> 2 ^ 35" using p [of 35] by simp
qed

lemma shape_ok_mono: "Traffic_Model.shape_ok p T \<Longrightarrow> t \<le> T \<Longrightarrow> Traffic_Model.shape_ok p t"
  by (auto simp: Traffic_Model.shape_ok_def step_ok_def)

fun partial_sums :: "u64 \<Rightarrow> u64 list \<Rightarrow> u64 list" where
  "partial_sums t [] = []"
| "partial_sums t (g # gs) = (t + g) # partial_sums (t + g) gs"

fun draws :: "Op list \<Rightarrow> u32 \<Rightarrow> nat \<Rightarrow> Op list" where
  "draws mix lcg 0 = []"
| "draws mix lcg (Suc n) = sample mix (lcg_next lcg) # draws mix (lcg_next lcg) n"

lemma length_partial_sums [simp]: "length (partial_sums t gs) = length gs"
  by (induction gs arbitrary: t) simp_all

lemma length_draws [simp]: "length (draws mix lcg n) = n"
  by (induction n arbitrary: lcg) simp_all

lemma draws_sample: "\<forall>op \<in> set (draws mix lcg n). \<exists>r. op = sample mix r"
  by (induction n arbitrary: lcg) auto

lemma sched_loop_spec:
  assumes "tm_inv p tm" "Traffic_Model.shape_ok p (2 ^ 35)" "0 < lam_min acc" "lam_max acc \<ge> 0"
  shows "\<exists>gaps acc'. sched_loop M gam cv mix n tm ia lcg t acc = Some acc' \<and> length gaps = n \<and>
    (\<forall>g \<in> set gaps. unat g \<le> 10 ^ 18) \<and> sa_sched acc' = sa_sched acc @ partial_sums t gaps \<and>
    sa_ops acc' = sa_ops acc @ draws mix lcg n \<and> 0 < lam_min acc' \<and> lam_max acc \<le> lam_max acc' \<and>
    lam_min acc' \<le> lam_min acc \<and> (0 < n \<longrightarrow> 1 \<le> lam_max acc' \<and> lam_min acc' \<le> lam_max acc')"
  using assms
proof (induction n arbitrary: tm ia lcg t acc)
  case 0
  then show ?case by simp
next
  case (Suc n)
  let ?t = "fl (double_of_u64 t * fl (1 / 10 ^ 9))"
  from lambda_at_inv [OF Suc.prems(1) shape_ok_mono [OF Suc.prems(2) sched_time(2)], of M t] obtain tm' lam where
    l: "lambda_at M ?t tm = Some (tm', lam)" "tm_inv p tm'" "1 \<le> lam" by blast
  from next_ns_Some [of gam "set_rate lam cv ia"] obtain gap ia' where
    g: "next_ns gam (set_rate lam cv ia) = Some (gap, ia')" "unat gap \<le> 10 ^ 18" by blast
  let ?acc = "\<lparr>sa_sched = sa_sched acc @ [t + gap], sa_ops = sa_ops acc @ [sample mix (lcg_next lcg)],
    lam_sum = fl (lam_sum acc + lam), lam_min = (if lam < lam_min acc then lam else lam_min acc),
    lam_max = (if lam > lam_max acc then lam else lam_max acc)\<rparr>"
  have "0 < lam_min ?acc" "lam_max ?acc \<ge> 0" using Suc.prems(3,4) l(3) by simp_all
  from Suc.IH [OF l(2) Suc.prems(2) this, of ia' "lcg_next lcg" "t + gap"] obtain gaps acc' where
    r: "sched_loop M gam cv mix n tm' ia' (lcg_next lcg) (t + gap) ?acc = Some acc'" "length gaps = n"
      "\<forall>g \<in> set gaps. unat g \<le> 10 ^ 18" "sa_sched acc' = sa_sched ?acc @ partial_sums (t + gap) gaps"
      "sa_ops acc' = sa_ops ?acc @ draws mix (lcg_next lcg) n" "0 < lam_min acc'" "lam_max ?acc \<le> lam_max acc'"
      "lam_min acc' \<le> lam_min ?acc" by blast
  have "lam \<le> lam_max ?acc" "lam_min ?acc \<le> lam" "lam_max acc \<le> lam_max ?acc" "lam_min ?acc \<le> lam_min acc" by simp_all
  then have "lam \<le> lam_max acc'" "lam_min acc' \<le> lam" "lam_max acc \<le> lam_max acc'" "lam_min acc' \<le> lam_min acc"
    using r(7,8) by linarith+
  moreover have "sched_loop M gam cv mix (Suc n) tm ia lcg t acc = Some acc'" using l(1) g(1) r(1) by (simp add: Let_def)
  ultimately show ?case using r(2-6) g(2) l(3) by (intro exI [of _ "gap # gaps"] exI [of _ acc']) simp
qed

text \<open>Deadlines do not go back as long as the sum of the gaps stays below \<open>2^64\<close> nanoseconds.\<close>

lemma partial_sums_sorted:
  assumes "unat t + sum_list (map unat gs) < 2 ^ 64"
  shows "sorted (t # partial_sums t gs)"
  using assms
proof (induction gs arbitrary: t)
  case (Cons g gs)
  have s: "unat (t + g) = unat t + unat g" using Cons.prems by (intro unat_add_u64) simp
  then have "sorted ((t + g) # partial_sums (t + g) gs)" using Cons by simp
  moreover have "t \<le> t + g" using s by (simp add: word_le_nat_alt)
  ultimately show ?case by auto
qed simp

lemma gaps_sum: "\<forall>g \<in> set gs. unat (g :: u64) \<le> b \<Longrightarrow> sum_list (map unat gs) \<le> length gs * b"
  by (induction gs) auto

subsection \<open>Properties\<close>

lemma schedule_spec:
  assumes "0 \<le> burst_tick_s (traffic a)" "Traffic_Model.shape_ok (traffic a) (2 ^ 35)"
  shows "\<exists>acc gaps. poisson_schedule M gam rng a mix n = Some acc \<and> length (sa_sched acc) = n \<and>
    (\<forall>g \<in> set gaps. unat g \<le> 10 ^ 18) \<and> sa_sched acc = partial_sums 0 gaps \<and>
    (sum_list (map unat gaps) < 2 ^ 64 \<longrightarrow> sorted (sa_sched acc)) \<and>
    length (sa_ops acc) = n \<and> (\<forall>op \<in> set (sa_ops acc). \<exists>r. op = sample mix r) \<and>
    (0 < n \<longrightarrow> 1 \<le> lam_max acc \<and> lam_min acc \<le> lam_max acc)"
proof -
  define tp where "tp = (traffic a)\<lparr>base_rate := rate a,
    total_duration_s := (if rate a > 0 then fl (fl (real n) / rate a) else 0)\<rparr>"
  define tm where "tm = TrafficModel_new M tp (rng (seed a XOR 0xC0FFEE99))"
  let ?acc = "\<lparr>sa_sched = [], sa_ops = [], lam_sum = 0, lam_min = fl (10 ^ 30), lam_max = 0\<rparr>"
  have tm: "tm_inv tp tm" unfolding tm_def by (rule TrafficModel_new_inv) (use assms(1) in \<open>simp add: tp_def\<close>)
  have sh: "Traffic_Model.shape_ok tp (2 ^ 35)" using assms(2) by (simp add: tp_def Traffic_Model.shape_ok_def)
  have "fl 1 \<le> fl (10 ^ 30)" by (rule fl_mono) simp
  then have mn: "0 < lam_min ?acc" by simp
  from sched_loop_spec [OF tm sh mn, of M gam "cv2 a" mix n "InterArrivalGen_new (rate a) (cv2 a) (rng (seed a XOR 0x12345))"
      "ucast (seed a XOR 0xDEADBEEF)" 0] obtain gaps acc where
    r: "poisson_schedule M gam rng a mix n = Some acc" "length gaps = n" "\<forall>g \<in> set gaps. unat g \<le> 10 ^ 18"
      "sa_sched acc = partial_sums 0 gaps" "sa_ops acc = draws mix (ucast (seed a XOR 0xDEADBEEF)) n"
      "0 < n \<longrightarrow> 1 \<le> lam_max acc \<and> lam_min acc \<le> lam_max acc"
    by (auto simp: poisson_schedule_def Let_def tp_def [symmetric] tm_def [symmetric])
  moreover have "sum_list (map unat gaps) < 2 ^ 64 \<longrightarrow> sorted (partial_sums 0 gaps)"
    using partial_sums_sorted [of 0 gaps] by simp
  ultimately show ?thesis using draws_sample [of mix "ucast (seed a XOR 0xDEADBEEF)" n] by auto
qed



end
