(* ===== verification/Index_Factory.thy ===== *)
theory Index_Factory
  imports Bench_Args BTree_Adapter External_Adapters
begin

text \<open>
  The index factory (\<^verbatim>\<open>index_factory.hpp\<close>). The driver holds an index behind a pointer to the
  interface; here the state of that index is one of four kinds, and \<open>lift_index\<close> turns the operations of
  one kind into operations on that sum. Which external adapters are compiled in (and the native index
  each constructs) is a parameter: it gives the adapter for the names of the build, and a name without
  one gets the placeholder class. A call on a state of another kind is a call on the wrong object and
  has no result. Lifting keeps the contracts of the interface, so that the locales of the index
  interface hold of what the factory returns.
\<close>

datatype 'e index_state = BTreeState BPlusTree | HashState HashIndex | ExtState 'e | NoState

definition lift_index :: "('s \<Rightarrow> 't) \<Rightarrow> ('t \<Rightarrow> 's option) \<Rightarrow> 's IIndex \<Rightarrow> 't IIndex" where
  "lift_index mk prj ix =
     \<lparr>ii_bulk_load = (\<lambda>ks vs t. Option.bind (prj t) (\<lambda>s. map_option mk (ii_bulk_load ix ks vs s))),
      ii_insert = (\<lambda>k v t. Option.bind (prj t) (\<lambda>s. map_option (map_prod mk id) (ii_insert ix k v s))),
      ii_lookup = (\<lambda>t k. Option.bind (prj t) (\<lambda>s. ii_lookup ix s k)),
      ii_update = (\<lambda>k v t. Option.bind (prj t) (\<lambda>s. map_option (map_prod mk id) (ii_update ix k v s))),
      ii_remove = (\<lambda>k t. Option.bind (prj t) (\<lambda>s. map_option (map_prod mk id) (ii_remove ix k s))),
      ii_scan = (\<lambda>t lo n sink. Option.bind (prj t) (\<lambda>s. ii_scan ix s lo n sink)),
      ii_name = ii_name ix, ii_thread_safe = ii_thread_safe ix, ii_concurrent_safe = ii_concurrent_safe ix\<rparr>"

fun as_btree :: "'e index_state \<Rightarrow> BPlusTree option" where
  "as_btree (BTreeState t) = Some t"
| "as_btree _ = None"

fun as_hash :: "'e index_state \<Rightarrow> HashIndex option" where
  "as_hash (HashState h) = Some h"
| "as_hash _ = None"

fun as_ext :: "'e index_state \<Rightarrow> 'e option" where
  "as_ext (ExtState s) = Some s"
| "as_ext _ = None"

fun as_none :: "'e index_state \<Rightarrow> unit option" where
  "as_none NoState = Some ()"
| "as_none _ = None"

definition btree_index :: "'e index_state IIndex" where
  "btree_index = lift_index BTreeState as_btree BuiltinBTreeAdapter"

definition hash_index :: "'e index_state IIndex" where
  "hash_index = lift_index HashState as_hash BuiltinHashAdapter"

definition external_names :: "string list" where
  "external_names = [''fastfair'', ''wbtree'', ''fptree'', ''bztree'', ''lbtree'', ''utree'', ''circtree'', ''dptree'', ''nbtree'']"

definition placeholder :: "string \<Rightarrow> unit IIndex \<times> string" where
  "placeholder name =
     (if name = ''fastfair'' then FastFairAdapter_off else if name = ''wbtree'' then WBTreeAdapter_off
      else if name = ''fptree'' then FPTreeAdapter_off else if name = ''bztree'' then BzTreeAdapter_off
      else if name = ''lbtree'' then LBTreeAdapter_off else if name = ''utree'' then UTreeAdapter_off
      else if name = ''circtree'' then CircTreeAdapter_off else if name = ''dptree'' then DPTreeAdapter_off
      else NBTreeAdapter_off)"

lemmas placeholders = FastFairAdapter_off_def WBTreeAdapter_off_def FPTreeAdapter_off_def BzTreeAdapter_off_def
  LBTreeAdapter_off_def UTreeAdapter_off_def CircTreeAdapter_off_def DPTreeAdapter_off_def NBTreeAdapter_off_def

definition make_index ::
  "(string \<Rightarrow> ('e IIndex \<times> 'e) option) \<Rightarrow> string \<Rightarrow> u64 \<Rightarrow> ('e index_state IIndex \<times> 'e index_state) outcome" where
  "make_index ext name buckets =
     (if name = ''btree'' \<or> name = ''builtin-btree'' then Done (btree_index, BTreeState BPlusTree_new)
      else if name = ''hash'' \<or> name = ''builtin-hash''
        then (case HashIndex_new buckets 0 of None \<Rightarrow> Stuck | Some h \<Rightarrow> Done (hash_index, HashState h))
      else if name \<in> set external_names
        then (case ext name of
                Some (ix, s) \<Rightarrow> Done (lift_index ExtState as_ext ix, ExtState s)
              | None \<Rightarrow> Done (lift_index (\<lambda>_. NoState) as_none (fst (placeholder name)), NoState))
      else Exit 2)"

lemma placeholder_disabled: "name \<in> set external_names \<Longrightarrow> fst (placeholder name) = disabled name"
  by (auto simp: external_names_def placeholder_def placeholders)

subsection \<open>Lifting keeps the contracts\<close>

definition lift_rel :: "('s \<Rightarrow> 't) \<Rightarrow> ('s \<Rightarrow> idx_map \<Rightarrow> bool) \<Rightarrow> 't \<Rightarrow> idx_map \<Rightarrow> bool" where
  "lift_rel mk rel t m \<longleftrightarrow> (\<exists>s. t = mk s \<and> rel s m)"

lemma lift_relE: "lift_rel mk rel t m \<Longrightarrow> (\<And>s. t = mk s \<Longrightarrow> rel s m \<Longrightarrow> P) \<Longrightarrow> P"
  by (auto simp: lift_rel_def)

lemma lift_relI: "rel s m \<Longrightarrow> lift_rel mk rel (mk s) m"
  by (auto simp: lift_rel_def)

context point_index
begin

lemma lift:
  assumes "\<And>s. prj (mk s) = Some s"
  shows "point_index (lift_index mk prj ix) (lift_rel mk rel)"
proof (unfold_locales, goal_cases)
  case (1 t m k)
  then show ?case by (auto simp: lift_index_def assms lookup_law elim: lift_relE)
next
  case (2 t m k v)
  then show ?case using update_law [of _ m k v]
    by (elim lift_relE) (fastforce simp: lift_index_def assms intro: lift_relI)
next
  case (3 t m k)
  then show ?case using remove_law [of _ m k]
    by (elim lift_relE) (fastforce simp: lift_index_def assms intro: lift_relI)
next
  case (4 t m lo n sink)
  then show ?case using scan_law [of _ m lo n sink] by (elim lift_relE) (auto simp: lift_index_def assms)
qed

end

context loadable_index
begin

lemma lift_load:
  assumes "\<And>s. prj (mk s) = Some s"
  shows "loadable_index (lift_index mk prj ix) (lift_rel mk rel) (\<lambda>t. \<exists>s. t = mk s \<and> fresh s)"
proof (intro loadable_index.intro loadable_index_axioms.intro)
  show "point_index (lift_index mk prj ix) (lift_rel mk rel)" by (rule lift) (rule assms)
next
  fix t and ks :: "idx_key_t list" and vs :: "idx_val_t list"
  assume t: "\<exists>s. t = mk s \<and> fresh s" and d: "distinct ks" "length ks = length vs"
  then obtain s where s: "t = mk s" "fresh s" by blast
  from load_law [OF s(2) d] obtain s' where "ii_bulk_load ix ks vs s = Some s'" "rel s' (map_of (zip ks vs))" by blast
  then show "\<exists>s. ii_bulk_load (lift_index mk prj ix) ks vs t = Some s \<and> lift_rel mk rel s (map_of (zip ks vs))"
    by (auto simp: lift_index_def assms s(1) intro: lift_relI)
qed

end

interpretation fbt: loadable_index btree_index "lift_rel BTreeState bt_rel" "\<lambda>t. \<exists>s. t = BTreeState s \<and> True"
  unfolding btree_index_def by (rule bt.lift_load) simp

interpretation fh: loadable_index hash_index "lift_rel HashState hash_rel" "\<lambda>t. \<exists>s. t = HashState s \<and> hash_fresh s"
  unfolding hash_index_def by (rule hash.lift_load) simp

end
