(* ===== verification/Query_Stream.thy ===== *)
theory Query_Stream
  imports Bench_Args Hash_Key_Gen
begin

text \<open>
  The keys the driver loads and the keys it asks for (\<^verbatim>\<open>bench.cpp\<close>: the key generation and the query
  stream of \<^verbatim>\<open>main\<close>, and \<^verbatim>\<open>ZipfGen\<close>). The random engine, its distributions and the library's
  \<^verbatim>\<open>pow\<close> and \<^verbatim>\<open>exp\<close> are parameters: \<open>M\<close> has the uniform draw and \<^verbatim>\<open>pow\<close>, \<open>udi\<close> is
  \<^verbatim>\<open>uniform_int_distribution\<close>, \<open>engine\<close> seeds. The results below rely on what the standard says of
  them: a uniform real is in \<open>[0, 1)\<close>, a uniform integer in its range, a power of a number in \<open>[0, 1]\<close> with
  an exponent that is not negative (or of a number above 1 with one that is not positive) is in \<open>[0, 1]\<close>.
\<close>

subsection \<open>Loaded keys\<close>

fun gen_loop :: "('g \<Rightarrow> real \<times> 'g) \<Rightarrow> HashKeyGen \<Rightarrow> nat \<Rightarrow> 'g \<Rightarrow> idx_key_t list" where
  "gen_loop u h 0 g = []"
| "gen_loop u h (Suc n) g = (case next_key u h g of (k, g') \<Rightarrow> k # gen_loop u h n g')"

definition use_skew_gen :: "Args \<Rightarrow> bool" where
  "use_skew_gen a \<longleftrightarrow> index_name a = ''hash'' \<or> index_name a = ''builtin-hash''"

definition gen_keys :: "'g mathlib \<Rightarrow> (real \<Rightarrow> real) \<Rightarrow> (u64 \<Rightarrow> 'g) \<Rightarrow> Args \<Rightarrow> idx_key_t list outcome" where
  "gen_keys M cexp engine a =
     (if use_skew_gen a
      then case HashKeyGen_new (uni M) cexp (hash_intervals a) (hash_sigma a) (hash_dom_fixed a)
                  (engine (seed a XOR 0xBEEFCAFE)) of
             None \<Rightarrow> Stuck
           | Some (h, g) \<Rightarrow> Done (gen_loop (uni M) h (unat (keys_n a)) g)
      else Done (map (\<lambda>i. of_nat (i + 1)) [0..<unat (keys_n a)]))"

definition gen_vals :: "Args \<Rightarrow> idx_val_t list" where
  "gen_vals a = map (\<lambda>i. of_nat (i + 1)) [0..<unat (keys_n a)]"

subsection \<open>Zipf\<close>

text \<open>\<open>z_eta\<close> is \<open>None\<close> when the quotient is infinite or not a number.\<close>

record 'g ZipfGen =
  z_n :: u64
  z_theta :: real
  z_zetan :: real
  z_zeta2 :: real
  z_alpha :: real
  z_eta :: "real option"
  z_rng :: 'g

definition nudge :: "real \<Rightarrow> real" where
  "nudge th = (if \<bar>fl (th - 1)\<bar> < fl (1 / 10 ^ 9) then fl (9999 / 10000) else th)"

definition zetan :: "'g mathlib \<Rightarrow> real \<Rightarrow> nat \<Rightarrow> real" where
  "zetan M th n = foldl (\<lambda>acc i. fl (acc + cpow M (fl (real i)) (- th))) 0 [1..<Suc n]"

definition ZipfGen_new :: "'g mathlib \<Rightarrow> u64 \<Rightarrow> real \<Rightarrow> 'g \<Rightarrow> 'g ZipfGen" where
  "ZipfGen_new M n th0 g =
     (let th = nudge th0;
          zn = zetan M th (unat n);
          z2 = fl (1 + cpow M (1 / 2) th);
          den = fl (1 - fl (z2 / zn))
      in \<lparr>z_n = n, z_theta = th, z_zetan = zn, z_zeta2 = z2, z_alpha = fl (1 / fl (1 - th)),
          z_eta = (if n = 0 \<or> zn = 0 \<or> den = 0 then None
                   else Some (fl (fl (1 - cpow M (fl (2 / double_of_u64 n)) (fl (1 - th))) / den))),
          z_rng = g\<rparr>)"

text \<open>\<open>None\<close>: the conversion to an integer is undefined.\<close>

definition zipf_next :: "'g mathlib \<Rightarrow> 'g ZipfGen \<Rightarrow> (u64 \<times> 'g ZipfGen) option" where
  "zipf_next M z =
     (case uni M (z_rng z) of (u, g) \<Rightarrow>
        let uz = fl (u * z_zetan z); z' = z\<lparr>z_rng := g\<rparr>
        in if uz < 1 then Some (0, z')
           else if uz < fl (1 + cpow M (1 / 2) (z_theta z)) then Some (1, z')
           else (case z_eta z of None \<Rightarrow> None
                | Some e \<Rightarrow>
                    (case u64_of_double (fl (double_of_u64 (z_n z - 1) *
                            cpow M (fl (fl (fl (e * u) - e) + 1)) (z_alpha z))) of
                       None \<Rightarrow> None
                     | Some v \<Rightarrow> Some (if v \<ge> z_n z then z_n z - 1 else v, z'))))"

subsection \<open>The query stream\<close>

text \<open>A position outside the keys is an access outside the vector.\<close>

fun uniform_stream :: "(u64 \<Rightarrow> u64 \<Rightarrow> 'g \<Rightarrow> u64 \<times> 'g) \<Rightarrow> u64 \<Rightarrow> idx_key_t list \<Rightarrow> nat \<Rightarrow> 'g \<Rightarrow> idx_key_t list option" where
  "uniform_stream udi n ks 0 g = Some []"
| "uniform_stream udi n ks (Suc q) g =
     (case udi 0 (n - 1) g of (i, g') \<Rightarrow>
        if unat i < length ks then map_option ((#) (ks ! unat i)) (uniform_stream udi n ks q g') else None)"

fun zipf_stream :: "'g mathlib \<Rightarrow> idx_key_t list \<Rightarrow> nat \<Rightarrow> 'g ZipfGen \<Rightarrow> idx_key_t list option" where
  "zipf_stream M ks 0 z = Some []"
| "zipf_stream M ks (Suc q) z =
     (case zipf_next M z of None \<Rightarrow> None
      | Some (i, z') \<Rightarrow>
          if unat i < length ks then map_option ((#) (ks ! unat i)) (zipf_stream M ks q z') else None)"

definition query_stream ::
  "'g mathlib \<Rightarrow> (u64 \<Rightarrow> u64 \<Rightarrow> 'g \<Rightarrow> u64 \<times> 'g) \<Rightarrow> (u64 \<Rightarrow> 'g) \<Rightarrow> Args \<Rightarrow> idx_key_t list \<Rightarrow> idx_key_t list outcome" where
  "query_stream M udi engine a ks =
     (if dist a = ''uniform''
        then (case uniform_stream udi (keys_n a) ks (unat (queries a)) (engine (seed a)) of
                None \<Rightarrow> Stuck | Some qs \<Rightarrow> Done qs)
      else if dist a = ''zipf''
        then (case zipf_stream M ks (unat (queries a)) (ZipfGen_new M (keys_n a) (theta a) (engine (seed a))) of
                None \<Rightarrow> Stuck | Some qs \<Rightarrow> Done qs)
      else Exit 2)"

subsection \<open>What the standard says of the parameters\<close>

definition uni_ok :: "'g mathlib \<Rightarrow> bool" where
  "uni_ok M \<longleftrightarrow> (\<forall>g. 0 \<le> fst (uni M g) \<and> fst (uni M g) < 1 \<and> fl (fst (uni M g)) = fst (uni M g))"

definition udi_ok :: "(u64 \<Rightarrow> u64 \<Rightarrow> 'g \<Rightarrow> u64 \<times> 'g) \<Rightarrow> bool" where
  "udi_ok udi \<longleftrightarrow> (\<forall>lo hi g. lo \<le> hi \<longrightarrow> lo \<le> fst (udi lo hi g) \<and> fst (udi lo hi g) \<le> hi)"

definition pow_ok :: "'g mathlib \<Rightarrow> bool" where
  "pow_ok M \<longleftrightarrow> (\<forall>y. cpow M 1 y = 1) \<and>
     (\<forall>x y. 0 \<le> x \<and> x \<le> 1 \<and> 0 \<le> y \<or> 1 \<le> x \<and> y \<le> 0 \<longrightarrow> 0 \<le> cpow M x y \<and> cpow M x y \<le> 1)"

text \<open>With more than one key the generator interpolates with \<open>z_eta\<close>, which is in \<open>[0, 1]\<close> for exponents
  below one and not positive for exponents above one.\<close>

definition zipf_ok :: "'g ZipfGen \<Rightarrow> bool" where
  "zipf_ok z \<longleftrightarrow> z_n z = 1 \<or>
     (\<exists>e. z_eta z = Some e \<and> fl e = e \<and> (0 \<le> e \<and> e \<le> 1 \<and> 0 \<le> z_alpha z \<or> e \<le> 0 \<and> z_alpha z \<le> 0))"

subsection \<open>Every Zipf index is in range\<close>

lemma fl_base:
  assumes "0 \<le> u" "u < 1" "fl e = e"
  shows "0 \<le> e \<Longrightarrow> e \<le> 1 \<Longrightarrow> 0 \<le> fl (fl (fl (e * u) - e) + 1) \<and> fl (fl (fl (e * u) - e) + 1) \<le> 1"
    and "e \<le> 0 \<Longrightarrow> 1 \<le> fl (fl (fl (e * u) - e) + 1)"
proof -
  show "0 \<le> fl (fl (fl (e * u) - e) + 1) \<and> fl (fl (fl (e * u) - e) + 1) \<le> 1" if "0 \<le> e" "e \<le> 1"
  proof -
    have "e * u \<le> e" using that assms(1,2) by (simp add: mult_left_le)
    then have "fl (e * u) \<le> e" using fl_mono [of "e * u" e] assms(3) by simp
    moreover have "0 \<le> fl (e * u)" using that assms by (intro fl_nonneg) simp
    ultimately have "fl (- e) \<le> fl (fl (e * u) - e)" "fl (fl (e * u) - e) \<le> 0"
      by (auto intro: fl_mono fl_nonpos)
    then have "0 \<le> fl (fl (e * u) - e) + 1" "fl (fl (e * u) - e) + 1 \<le> of_int 1"
      using that assms(3) by (simp_all add: fl_minus)
    then show ?thesis using fl_nonneg fl_le_of_int [of 1] by auto
  qed
  show "1 \<le> fl (fl (fl (e * u) - e) + 1)" if "e \<le> 0"
  proof -
    have "e * 1 \<le> e * u" using that assms(2) by (intro mult_left_mono_neg) simp_all
    then have "e \<le> fl (e * u)" using fl_mono [of e "e * u"] assms(3) by simp
    then have "0 \<le> fl (fl (e * u) - e)" by (intro fl_nonneg) simp
    then have "of_int 1 \<le> fl (fl (e * u) - e) + 1" by simp
    then show ?thesis using fl_ge_of_int [of 1] by simp
  qed
qed

lemma zipf_index_converts:
  assumes "0 \<le> p" "p \<le> 1" "unat n \<le> 2 ^ 63"
  shows "\<exists>v. u64_of_double (fl (double_of_u64 n * p)) = Some v"
proof -
  have "fl (real (unat n)) \<le> fl (2 powi 63)" using assms(3) by (intro fl_mono) simp
  also have "fl (2 powi 63) = 2 powi 63" by (rule fl_pow) simp
  finally have n: "0 \<le> double_of_u64 n" "double_of_u64 n \<le> 2 powi 63"
    by (simp_all add: double_of_u64_def fl_nonneg)
  have "double_of_u64 n * p \<le> 2 powi 63 * 1" using n assms(1,2) by (intro mult_mono) simp_all
  then have "fl (double_of_u64 n * p) \<le> fl (2 powi 63)" by (intro fl_mono) simp
  also have "fl (2 powi 63) = 2 powi 63" by (rule fl_pow) simp
  also have "\<dots> < 2 ^ 64" by simp
  finally have "fl (double_of_u64 n * p) < 2 ^ 64" .
  moreover have "0 \<le> fl (double_of_u64 n * p)" using n(1) assms(1) by (intro fl_nonneg) simp
  ultimately show ?thesis using u64_of_double_Some by blast
qed

lemma zipf_next_range:
  assumes "uni_ok M" "pow_ok M" "zipf_ok z" "z_n z \<noteq> 0" "unat (z_n z) \<le> 2 ^ 63" "z_n z = 1 \<longrightarrow> z_zetan z = 1"
  shows "\<exists>v g. zipf_next M z = Some (v, z\<lparr>z_rng := g\<rparr>) \<and> v < z_n z"
proof -
  obtain u g where u: "uni M (z_rng z) = (u, g)" by fastforce
  with assms(1) have u1: "0 \<le> u" "u < 1" "fl u = u" unfolding uni_ok_def by (metis fst_conv)+
  consider "fl (u * z_zetan z) < 1" | "z_n z \<noteq> 1" "\<not> fl (u * z_zetan z) < 1"
    using assms(6) u1 by fastforce
  then show ?thesis
  proof cases
    case 1
    then show ?thesis using assms(4) by (auto simp: zipf_next_def u Let_def word_neq_0_conv)
  next
    case 2
    from assms(3) 2(1) obtain e where e: "z_eta z = Some e" "fl e = e"
      "0 \<le> e \<and> e \<le> 1 \<and> 0 \<le> z_alpha z \<or> e \<le> 0 \<and> z_alpha z \<le> 0" by (auto simp: zipf_ok_def)
    let ?p = "cpow M (fl (fl (fl (e * u) - e) + 1)) (z_alpha z)"
    have p: "0 \<le> ?p" "?p \<le> 1" using assms(2) fl_base [OF u1(1,2) e(2)] e(3) unfolding pow_ok_def by blast+
    have n1: "unat (z_n z - 1) = unat (z_n z) - 1" using assms(4) by (simp add: unat_minus_one)
    have "unat (z_n z - 1) \<le> 2 ^ 63" unfolding n1 using assms(5) by linarith
    from zipf_index_converts [OF p this] obtain v where
      v: "u64_of_double (fl (double_of_u64 (z_n z - 1) * ?p)) = Some v" by blast
    have "unat (z_n z) \<noteq> 0" "unat (z_n z) \<noteq> 1" using 2(1) assms(4) by (metis unat_eq_0_iff, metis unat_1 word_unat_eq_iff)
    then have "1 < z_n z" by (simp add: word_less_nat_alt)
    moreover have "z_n z - 1 < z_n z" using assms(4) by (simp add: word_less_nat_alt n1 unat_gt_0)
    ultimately show ?thesis using 2(2) v by (auto simp: zipf_next_def u e(1) Let_def not_le)
  qed
qed


lemma zetan_1: "pow_ok M \<Longrightarrow> zetan M th 1 = 1"
  by (simp add: zetan_def pow_ok_def)

lemma ZipfGen_new_one: "pow_ok M \<Longrightarrow> z_n (ZipfGen_new M n th g) = 1 \<longrightarrow> z_zetan (ZipfGen_new M n th g) = 1"
  using zetan_1 [of M "nudge th"] by (auto simp: ZipfGen_new_def Let_def)

subsection \<open>The streams\<close>

lemma uniform_stream_range:
  assumes "udi_ok udi" "n \<noteq> 0" "length ks = unat n"
  shows "\<exists>qs. uniform_stream udi n ks q g = Some qs \<and> length qs = q \<and> set qs \<subseteq> set ks"
proof (induction q arbitrary: g)
  case (Suc q)
  obtain i g' where i: "udi 0 (n - 1) g = (i, g')" by fastforce
  have "i \<le> n - 1" using assms(1) i unfolding udi_ok_def by (metis fst_conv word_zero_le)
  then have "unat i < length ks" using assms(2,3) 
    by (metis add_diff_inverse_nat le_imp_less_Suc less_one plus_1_eq_Suc unat_eq_0_iff unat_minus_one word_le_nat_alt)
  then show ?case using Suc [of g'] by (fastforce simp: i)
qed simp

lemma zipf_stream_range:
  assumes "uni_ok M" "pow_ok M" "zipf_ok z" "z_n z \<noteq> 0" "unat (z_n z) \<le> 2 ^ 63" "z_n z = 1 \<longrightarrow> z_zetan z = 1"
    and "length ks = unat (z_n z)"
  shows "\<exists>qs. zipf_stream M ks q z = Some qs \<and> length qs = q \<and> set qs \<subseteq> set ks"
  using assms
proof (induction q arbitrary: z)
  case (Suc q)
  from zipf_next_range [OF Suc.prems(1-6)] obtain v g where
    v: "zipf_next M z = Some (v, z\<lparr>z_rng := g\<rparr>)" "v < z_n z" by blast
  have "zipf_ok (z\<lparr>z_rng := g\<rparr>)" using Suc.prems(3) by (simp add: zipf_ok_def)
  then have "\<exists>qs. zipf_stream M ks q (z\<lparr>z_rng := g\<rparr>) = Some qs \<and> length qs = q \<and> set qs \<subseteq> set ks"
    using Suc.prems by (intro Suc.IH) simp_all
  moreover have "unat v < length ks" using v(2) Suc.prems(7) by (simp add: word_less_nat_alt)
  ultimately show ?case by (fastforce simp: v(1))
qed simp

definition dist_ok :: "'g mathlib \<Rightarrow> (u64 \<Rightarrow> u64 \<Rightarrow> 'g \<Rightarrow> u64 \<times> 'g) \<Rightarrow> (u64 \<Rightarrow> 'g) \<Rightarrow> Args \<Rightarrow> bool" where
  "dist_ok M udi engine a \<longleftrightarrow> dist a = ''uniform'' \<and> udi_ok udi \<or>
     dist a = ''zipf'' \<and> uni_ok M \<and> pow_ok M \<and> unat (keys_n a) \<le> 2 ^ 63 \<and>
     zipf_ok (ZipfGen_new M (keys_n a) (theta a) (engine (seed a)))"

lemma query_stream_range:
  assumes "dist_ok M udi engine a" "keys_n a \<noteq> 0" "length ks = unat (keys_n a)"
  shows "\<exists>qs. query_stream M udi engine a ks = Done qs \<and> length qs = unat (queries a) \<and> set qs \<subseteq> set ks"
proof (cases "dist a = ''uniform''")
  case True
  with assms(1) have "udi_ok udi" by (simp add: dist_ok_def)
  from uniform_stream_range [OF this assms(2,3), of "unat (queries a)" "engine (seed a)"] True show ?thesis
    by (auto simp: query_stream_def)
next
  case False
  let ?z = "ZipfGen_new M (keys_n a) (theta a) (engine (seed a))"
  have z: "z_n ?z = keys_n a" by (simp add: ZipfGen_new_def Let_def)
  from False assms(1) have d: "dist a = ''zipf''" "uni_ok M" "pow_ok M" "unat (keys_n a) \<le> 2 ^ 63" "zipf_ok ?z"
    by (auto simp: dist_ok_def)
  have "\<exists>qs. zipf_stream M ks (unat (queries a)) ?z = Some qs \<and> length qs = unat (queries a) \<and> set qs \<subseteq> set ks"
    
    by (rule zipf_stream_range [OF d(2,3,5)]) (use d(4) assms(2,3) ZipfGen_new_one [OF d(3)] z in \<open>auto simp only:\<close>)
  with False d(1) show ?thesis by (auto simp: query_stream_def)
qed

lemma length_gen_loop [simp]: "length (gen_loop u h n g) = n"
  by (induction n arbitrary: g) (simp_all split: prod.split)

lemma length_gen_vals [simp]: "length (gen_vals a) = unat (keys_n a)"
  by (simp add: gen_vals_def)

definition gen_ok :: "Args \<Rightarrow> bool" where
  "gen_ok a \<longleftrightarrow> (use_skew_gen a \<longrightarrow> 0 < hash_intervals a \<and> hash_intervals a dvd 64)"

lemma dense_keys:
  assumes "n < 2 ^ 64"
  shows "distinct (map (\<lambda>i. of_nat (i + 1) :: u64) [0..<n])"
proof -
  have "i = j" if "i < n" "j < n" "(of_nat (i + 1) :: u64) = of_nat (j + 1)" for i j
  proof -
    from that(3) have "(of_nat i :: u64) = of_nat j" by simp
    then have "unat (of_nat i :: u64) = unat (of_nat j :: u64)" by simp
    then show ?thesis using that(1,2) assms by (simp add: unsigned_of_nat take_bit_nat_eq_self)
  qed
  then show ?thesis by (auto simp: distinct_map inj_on_def)
qed

lemma gen_keys_Done:
  assumes "gen_ok a"
  shows "\<exists>ks. gen_keys M cexp engine a = Done ks \<and> length ks = unat (keys_n a) \<and> (\<not> use_skew_gen a \<longrightarrow> distinct ks)"
proof (cases "use_skew_gen a")
  case True
  with assms have i: "0 < hash_intervals a" "64 mod hash_intervals a = 0" by (auto simp: gen_ok_def)
  obtain h g where "HashKeyGen_new (uni M) cexp (hash_intervals a) (hash_sigma a) (hash_dom_fixed a)
      (engine (seed a XOR 0xBEEFCAFE)) = Some (h, g)"
    using i by (cases "draw_offs (uni M) (nat (64 div hash_intervals a)) (nat (hash_intervals a))
      (engine (seed a XOR 0xBEEFCAFE))") (simp add: HashKeyGen_new_def Let_def)
  with True show ?thesis by (simp add: gen_keys_def)
next
  case False
  then show ?thesis using dense_keys [of "unat (keys_n a)"] unat_u64_lt [of "keys_n a"]
    by (simp add: gen_keys_def del: of_nat_Suc of_nat_add)
qed

lemma gen_keys_dense: "\<not> use_skew_gen a \<Longrightarrow> gen_keys M cexp engine a = Done (gen_vals a)"
  by (simp add: gen_keys_def gen_vals_def)


subsection \<open>Properties\<close>


definition powr_math :: "unit mathlib" where
  "powr_math = \<lparr>uni = (\<lambda>g. (1 / 2, g)), expd = (\<lambda>g. (1, g)), csin = sin, ccos = cos, cpow = (\<lambda>x y. fl (x powr y))\<rparr>"

lemma powr_math_ok: "uni_ok powr_math" "pow_ok powr_math"
proof -
  show "uni_ok powr_math" by (simp add: uni_ok_def powr_math_def fl_half)
  have "x powr y \<le> of_int 1" if "0 \<le> x \<and> x \<le> 1 \<and> 0 \<le> y \<or> 1 \<le> x \<and> y \<le> 0" for x y :: real
    using that powr_le1 [of y x] powr_mono [of y 0 x] by auto
  then show "pow_ok powr_math"
    using fl_le_of_int [of 1] by (auto simp: pow_ok_def powr_math_def intro: fl_nonneg)
qed

definition zipf_args :: Args where
  "zipf_args = Args_default\<lparr>keys_n := 4, queries := 3, dist := ''zipf'', theta := 0\<rparr>"

lemma fl_quarters: "fl (2 / 4) = 1 / 2" "fl (1 - 1 / 2) = 1 / 2"
  using fl_half by simp_all

lemma zipf_demo_ok: "zipf_ok (ZipfGen_new powr_math 4 0 ())"
proof -
  have "fl (1 / 10 ^ 9) \<le> of_int 1" by (rule fl_le_of_int) simp_all
  then have n: "nudge 0 = 0" by (simp add: nudge_def fl_minus)
  have zn: "zetan powr_math 0 4 = 4" by (simp add: zetan_def powr_math_def upt_rec)
  have d: "double_of_u64 4 = 4" by (simp add: double_of_u64_def)
  show ?thesis unfolding zipf_ok_def ZipfGen_new_def Let_def n
    using fl_half by (simp add: zn d fl_quarters) (simp add: powr_math_def fl_half)
qed


text \<open>Without keys there is no query stream: the first access is outside the vector.\<close>

lemma no_keys_no_queries:
  assumes "keys_n a = 0" "queries a \<noteq> 0"
  shows "gen_keys M cexp engine a = Done ks \<Longrightarrow> query_stream M udi engine a ks \<noteq> Done qs"
proof -
  assume "gen_keys M cexp engine a = Done ks"
  then have ks: "ks = []" using assms(1) by (auto simp: gen_keys_def split: if_splits option.splits)
  from assms(2) obtain q where q: "unat (queries a) = Suc q" by (metis not0_implies_Suc unat_eq_0_iff)
  show ?thesis unfolding query_stream_def ks q by (auto split: option.splits prod.splits)
qed

end
