(* ===== verification/Bench_Report.thy ===== *)
theory Bench_Report
  imports Batch_Run Bench_Args
begin

text \<open>
  What the driver reports (\<^verbatim>\<open>bench.cpp\<close>): the number formatting, the throughput, the policy over the
  repeats of \<^verbatim>\<open>main\<close> (scalar results of the fastest run, histograms of all runs merged), the check for a
  late producer and the columns of the CSV output. A CSV field is the value with the conversion it is
  printed with; the rendering of a double is the C library's.
\<close>

subsection \<open>Numbers\<close>

definition digit :: "nat \<Rightarrow> char" where
  "digit d = char_of (48 + d)"

fun to_string :: "nat \<Rightarrow> string" where
  "to_string n = (if n < 10 then [digit n] else to_string (n div 10) @ [digit (n mod 10)])"

text \<open>The loop \<^verbatim>\<open>for (int i = size - 3; i > 0; i -= 3) s.insert(i, ",")\<close>.\<close>

function insert_commas :: "int \<Rightarrow> string \<Rightarrow> string" where
  "insert_commas i s = (if i > 0 then insert_commas (i - 3) (take (nat i) s @ '','' @ drop (nat i) s) else s)"
  by pat_completeness auto
termination by (relation "measure (\<lambda>(i, s). nat i)") auto

definition format_count :: "u64 \<Rightarrow> string" where
  "format_count v = (let s = to_string (unat v) in insert_commas (int (length s) - 3) s)"

definition throughput_mops :: "RunResult \<Rightarrow> real" where
  "throughput_mops r =
     (let sec = fl (wall_ns_total r * fl (1 / 10 ^ 9))
      in if sec > 0 then fl (fl (double_of_u64 (r_consumed r) / sec) / 10 ^ 6) else 0)"

subsection \<open>Repeats\<close>

definition RunResult_init :: RunResult where
  "RunResult_init = \<lparr>wall_ns_total = 0, r_h = OpHists_init, r_produced = 0, r_consumed = 0,
     producer_lag_ns_total = 0, lambda_mean = 0, lambda_min = 0, lambda_max = 0\<rparr>"

definition run_step :: "RunResult \<times> OpHists \<Rightarrow> RunResult \<Rightarrow> RunResult \<times> OpHists" where
  "run_step bm cur = (case bm of (best, merged) \<Rightarrow>
     (if wall_ns_total cur < wall_ns_total best then cur else best, merge_hists merged (r_h cur)))"

definition combine_runs :: "RunResult list \<Rightarrow> RunResult" where
  "combine_runs rs =
     (case foldl run_step (RunResult_init\<lparr>wall_ns_total := fl (10 ^ 30)\<rparr>, OpHists_init) rs of
        (best, merged) \<Rightarrow> best\<lparr>r_h := merged\<rparr>)"

definition producer_late :: "Args \<Rightarrow> RunResult \<Rightarrow> bool" where
  "producer_late a best \<longleftrightarrow> arrival a = Poisson \<and> r_produced best > 0 \<and> rate a > 0 \<and>
     (let lag_per_op_ns = fl (double_of_u64 (producer_lag_ns_total best) / double_of_u64 (r_produced best));
          inter_arrival_ns = fl (10 ^ 9 / rate a)
      in lag_per_op_ns > fl (2 * inter_arrival_ns))"

subsection \<open>CSV\<close>

text \<open>\<open>CQuoted\<close> is printed between double quotes, \<open>CDbl\<close> with the given number of decimals, \<open>CPct\<close> is a
  percentile.\<close>

datatype csv_field = CStr string | CQuoted string | CUint u64 | CInt int | CDbl nat real | CPct "u64 option"

definition csv_header :: "string list" where
  "csv_header =
     [''workload'', ''bytes_per_call'', ''universe'', ''dist'', ''theta'', ''arrival'', ''rate'', ''cv2'', ''clients'',
      ''workers'',
      ''queue_capacity'', ''op_mix'', ''scan_len'', ''sin_amp'', ''sin_period'', ''level_period'',
      ''level_lo'', ''level_hi'', ''burst_prob'', ''keys'', ''queries'', ''wall_ns'', ''throughput_mops'',
      ''produced'',
      ''consumed'', ''producer_lag_ns'', ''lambda_mean'', ''lambda_min'', ''lambda_max'',
      ''svc_mean_ns'', ''svc_p50_ns'', ''svc_p99_ns'', ''svc_p999_ns'', ''svc_p9999_ns'',
      ''svc_max_ns'', ''queue_mean_ns'', ''queue_p50_ns'', ''queue_p99_ns'', ''queue_p999_ns'',
      ''queue_p9999_ns'', ''queue_max_ns'',
      ''e2e_mean_ns'', ''e2e_p50_ns'', ''e2e_p99_ns'', ''e2e_p999_ns'', ''e2e_p9999_ns'',
      ''e2e_max_ns'',
      ''lookup_mean_ns'', ''lookup_p50_ns'', ''lookup_p99_ns'', ''lookup_p999_ns'',
      ''lookup_p9999_ns'', ''lookup_max_ns'',
      ''poll_mean_ns'', ''poll_p50_ns'', ''poll_p99_ns'', ''poll_p999_ns'',
      ''poll_p9999_ns'', ''poll_max_ns''] @
     concat (map (\<lambda>i. [op_name (op_of_nat i) @ ''_mean_ns'', op_name (op_of_nat i) @ ''_p99_ns'',
                       op_name (op_of_nat i) @ ''_p9999_ns'']) [0..<5])"

definition p50 :: real where "p50 = 1 / 2"
definition p99 :: real where "p99 = fl (99 / 100)"
definition p999 :: real where "p999 = fl (999 / 1000)"
definition p9999 :: real where "p9999 = fl (9999 / 10000)"

definition hist_fields :: "Histogram \<Rightarrow> csv_field list" where
  "hist_fields h = [CDbl 2 (mean_ns h), CPct (percentile h p50), CPct (percentile h p99),
     CPct (percentile h p999), CPct (percentile h p9999), CUint (h_max h)]"

definition emit_csv :: "Args \<Rightarrow> u64 \<Rightarrow> RunResult \<Rightarrow> csv_field list" where
  "emit_csv a bytes_per_call best =
     [CStr (workload_name (workload a)), CUint bytes_per_call, CUint (universe a),
      CStr (dist a), CDbl 3 (theta a),
      CStr (arrival_name (arrival a)), CDbl 0 (rate a), CDbl 3 (cv2 a), CInt (clients a), CInt (workers a),
      CUint (queue_capacity a),
      CQuoted (op_mix_str a), CInt (scan_len a),
      CDbl 3 (sin_amp (traffic a)), CDbl 3 (sin_period_s (traffic a)),
      CDbl 3 (level_period_s (traffic a)), CDbl 3 (level_lo (traffic a)), CDbl 3 (level_hi (traffic a)),
      CDbl 5 (burst_prob (traffic a)),
      CUint (keys_n a), CUint (queries a), CDbl 0 (wall_ns_total best), CDbl 4 (throughput_mops best),
      CUint (r_produced best), CUint (r_consumed best), CUint (producer_lag_ns_total best),
      CDbl 0 (lambda_mean best), CDbl 0 (lambda_min best), CDbl 0 (lambda_max best)] @
     hist_fields (total (r_h best)) @ hist_fields (total_queue (r_h best)) @ hist_fields (total_e2e (r_h best)) @
     hist_fields (total_lookup (r_h best)) @ hist_fields (total_poll (r_h best)) @
     concat (map (\<lambda>i. let h = per_op (r_h best) ! i
                      in [CDbl 2 (mean_ns h), CPct (percentile h p99), CPct (percentile h p9999)]) [0..<5])"

declare insert_commas.simps [simp del] to_string.simps [simp del]

subsection \<open>Thousands separators\<close>

text \<open>Groups of three from the right, written on the reversed digits, and the value of a digit string.\<close>

fun groups :: "string \<Rightarrow> string" where
  "groups (a # b # c # d # ds) = a # b # c # CHR '','' # groups (d # ds)"
| "groups ds = ds"

definition digits_value :: "string \<Rightarrow> nat" where
  "digits_value s = foldl (\<lambda>v c. 10 * v + (of_char c - 48)) 0 s"

lemma groups_three: "length p = 3 \<Longrightarrow> groups (p @ q) = (if q = [] then p else p @ '','' @ groups q)"
  by (cases q) (auto simp: length_Suc_conv numeral_3_eq_3)

lemma groups_short: "length p \<le> 3 \<Longrightarrow> groups p = p"
  by (induction p rule: groups.induct) simp_all

lemma insert_commas_groups:
  "0 < length p \<Longrightarrow> insert_commas (int (length p)) (p @ q) = rev (groups (rev p)) @ '','' @ q"
proof (induction "length p" arbitrary: p q rule: less_induct)
  case less
  show ?case
  proof (cases "length p \<le> 3")
    case True
    then show ?thesis using less.prems
      by (simp add: insert_commas.simps [of "int (length p)"] insert_commas.simps [of "int (length p) - 3"] groups_short)
  next
    case False
    define m where "m = length p - 3"
    let ?a = "take m p" and ?b = "drop m p"
    have m: "length ?a = m" "length ?b = 3" "0 < m" "m < length p" "int (length p) - 3 = int m"
      using False by (simp_all add: m_def)
    have "rev p = rev ?b @ rev ?a" by (metis append_take_drop_id rev_append)
    then have g: "groups (rev p) = rev ?b @ '','' @ groups (rev ?a)"
      using groups_three [of "rev ?b" "rev ?a"] m by auto
    have "insert_commas (int (length p)) (p @ q) = insert_commas (int m) (?a @ (?b @ '','' @ q))"
      
      unfolding append_assoc [symmetric] append_take_drop_id
      using less.prems m(5) by (simp add: insert_commas.simps [of "int (length p)"])
    also have "\<dots> = rev (groups (rev ?a)) @ '','' @ ?b @ '','' @ q"
      using less.hyps [of ?a "?b @ '','' @ q"] m by simp
    finally show ?thesis by (simp add: g)
  qed
qed

lemma format_count_groups: "format_count v = rev (groups (rev (to_string (unat v))))"
proof (cases "length (to_string (unat v)) \<le> 3")
  case True
  then show ?thesis by (simp add: format_count_def Let_def insert_commas.simps groups_short)
next
  case False
  let ?s = "to_string (unat v)"
  define m where "m = length ?s - 3"
  let ?a = "take m ?s" and ?b = "drop m ?s"
  have m: "length ?a = m" "length ?b = 3" "0 < m" "int (length ?s) - 3 = int m" using False by (simp_all add: m_def)
  have s: "?a @ ?b = ?s" by simp
  have "rev ?s = rev ?b @ rev ?a" by (metis s rev_append)
  then have "groups (rev ?s) = rev ?b @ '','' @ groups (rev ?a)"
    using groups_three [of "rev ?b" "rev ?a"] m by auto
  moreover have "format_count v = rev (groups (rev ?a)) @ '','' @ ?b"
    using insert_commas_groups [of ?a ?b] m s by (simp add: format_count_def Let_def)
  ultimately show ?thesis by simp
qed

lemma digit_value: "d < 10 \<Longrightarrow> of_char (digit d) - 48 = (d :: nat)" "d < 10 \<Longrightarrow> digit d \<noteq> CHR '',''"
proof -
  assume d: "d < 10"
  then have v: "of_char (digit d) = (48 + d :: nat)" by (simp add: digit_def)
  then show "of_char (digit d) - 48 = (d :: nat)" by simp
  show "digit d \<noteq> CHR '',''"
  proof
    assume "digit d = CHR '',''"
    with v have "(48 + d :: nat) = of_char CHR '',''" by simp
    then show False by simp
  qed
qed

lemma to_string_digits:
  "CHR '','' \<notin> set (to_string n) \<and> digits_value (to_string n) = n"
proof (induction n rule: to_string.induct)
  case (1 n)
  then show ?case by (subst (1 2) to_string.simps) (auto simp: digits_value_def digit_value dest: sym [THEN digit_value(2) [THEN notE, rotated]])
qed

lemma filter_groups: "CHR '','' \<notin> set s \<Longrightarrow> filter (\<lambda>c. c \<noteq> CHR '','') (groups s) = s"
  by (induction s rule: groups.induct) auto

subsection \<open>The fastest run\<close>

lemma run_step_fold:
  "snd (foldl run_step (b, h) rs) = foldl merge_hists h (map r_h rs)"
  "fst (foldl run_step (b, h) rs) \<in> insert b (set rs)"
  "\<forall>r \<in> insert b (set rs). wall_ns_total (fst (foldl run_step (b, h) rs)) \<le> wall_ns_total r"
proof (induction rs arbitrary: b h)
  case (Cons r rs)
  case 1
  show ?case using Cons(1) by (simp add: run_step_def)
  case 2
  show ?case using Cons(2) [of "if wall_ns_total r < wall_ns_total b then r else b" "merge_hists h (r_h r)"]
    by (auto simp: run_step_def split: if_splits)
  case 3
  show ?case using Cons(3) [of "if wall_ns_total r < wall_ns_total b then r else b" "merge_hists h (r_h r)"]
    by (auto simp: run_step_def split: if_splits)
qed simp_all

lemma combine_runs_best:
  assumes "rs \<noteq> []" "\<forall>r \<in> set rs. wall_ns_total r < fl (10 ^ 30)"
  shows "\<exists>r \<in> set rs. (\<forall>r' \<in> set rs. wall_ns_total r \<le> wall_ns_total r') \<and>
    combine_runs rs = r\<lparr>r_h := foldl merge_hists OpHists_init (map r_h rs)\<rparr>"
proof -
  let ?b = "RunResult_init\<lparr>wall_ns_total := fl (10 ^ 30)\<rparr>"
  let ?f = "foldl run_step (?b, OpHists_init) rs"
  note f = run_step_fold [where b = ?b and h = OpHists_init and rs = rs]
  have "hd rs \<in> set rs" "wall_ns_total (hd rs) < wall_ns_total ?b" using assms by simp_all
  with f(3) have "fst ?f \<noteq> ?b" by force
  with f(2) have "fst ?f \<in> set rs" by blast
  moreover have "combine_runs rs = (fst ?f)\<lparr>r_h := snd ?f\<rparr>" by (simp add: combine_runs_def split: prod.split)
  ultimately show ?thesis using f(1,3) by auto
qed


subsection \<open>Properties\<close>

text \<open>A count is printed with its decimal digits in groups of three from the right, separated by
  commas; without the commas it reads back as the number.\<close>

theorem format_count_reads_back:
  "format_count v = rev (groups (rev (to_string (unat v)))) \<and>
   digits_value (filter (\<lambda>c. c \<noteq> CHR '','') (format_count v)) = unat v"
  using to_string_digits [of "unat v"]
  by (simp add: format_count_groups filter_groups flip: rev_filter)


definition demo_runs :: "RunResult list" where
  "demo_runs = [RunResult_init\<lparr>wall_ns_total := 500, r_produced := 7\<rparr>, RunResult_init\<lparr>wall_ns_total := 300, r_produced := 8\<rparr>]"


text \<open>The CSV columns of a histogram.\<close>

definition csv_value :: "Args \<Rightarrow> u64 \<Rightarrow> RunResult \<Rightarrow> string \<Rightarrow> csv_field option" where
  "csv_value a bytes best col = map_of (zip csv_header (emit_csv a bytes best)) col"

definition hist_columns :: "Args \<Rightarrow> u64 \<Rightarrow> RunResult \<Rightarrow> string \<Rightarrow> Histogram \<Rightarrow> bool" where
  "hist_columns a bytes best pre h \<longleftrightarrow>
     csv_value a bytes best (pre @ ''_mean_ns'') = Some (CDbl 2 (mean_ns h)) \<and>
     csv_value a bytes best (pre @ ''_p50_ns'') = Some (CPct (percentile h p50)) \<and>
     csv_value a bytes best (pre @ ''_p99_ns'') = Some (CPct (percentile h p99)) \<and>
     csv_value a bytes best (pre @ ''_p999_ns'') = Some (CPct (percentile h p999)) \<and>
     csv_value a bytes best (pre @ ''_p9999_ns'') = Some (CPct (percentile h p9999)) \<and>
     csv_value a bytes best (pre @ ''_max_ns'') = Some (CUint (h_max h))"

lemmas csv_eval = csv_value_def csv_header_def emit_csv_def hist_fields_def op_of_nat_def op_name_def upt_rec Let_def

lemma csv_hist_svc: "hist_columns a bytes best ''svc'' (total (r_h best))"
  by (simp add: hist_columns_def csv_eval)

lemma csv_hist_queue: "hist_columns a bytes best ''queue'' (total_queue (r_h best))"
  by (simp add: hist_columns_def csv_eval)

lemma csv_hist_e2e: "hist_columns a bytes best ''e2e'' (total_e2e (r_h best))"
  by (simp add: hist_columns_def csv_eval)

lemma csv_hist_lookup: "hist_columns a bytes best ''lookup'' (total_lookup (r_h best))"
  by (simp add: hist_columns_def csv_eval)

lemma csv_hist_poll: "hist_columns a bytes best ''poll'' (total_poll (r_h best))"
  by (simp add: hist_columns_def csv_eval)

lemmas csv_hist_columns = csv_hist_svc csv_hist_queue csv_hist_e2e csv_hist_lookup csv_hist_poll

lemma csv_header_distinct: "distinct csv_header"
  by (simp add: csv_eval)

lemma csv_length: "length csv_header = 74" "length (emit_csv a bytes best) = 74"
  by (simp_all add: csv_eval)

lemma csv_value_at: "i < 74 \<Longrightarrow> csv_value a bytes best (csv_header ! i) = Some (emit_csv a bytes best ! i)"
  unfolding csv_value_def by (rule map_of_zip_nth) (simp_all add: csv_length csv_header_distinct)

lemma csv_op_names:
  "csv_header ! (59 + 3 * nat_of_op op) = op_name op @ ''_mean_ns''"
  "csv_header ! (60 + 3 * nat_of_op op) = op_name op @ ''_p99_ns''"
  "csv_header ! (61 + 3 * nat_of_op op) = op_name op @ ''_p9999_ns''"
  by (cases op; simp add: csv_header_def op_of_nat_def op_name_def nat_of_op_def upt_rec nth_append)+

lemma emit_csv_split:
  "\<exists>F. length F = 59 \<and> emit_csv a bytes best = F @ concat (map (\<lambda>i. let h = per_op (r_h best) ! i
     in [CDbl 2 (mean_ns h), CPct (percentile h p99), CPct (percentile h p9999)]) [0..<5])"
  unfolding emit_csv_def append_assoc [symmetric]
  by (rule exI, rule conjI [rotated], rule refl, simp add: hist_fields_def)

lemma csv_op_fields:
  "emit_csv a bytes best ! (59 + 3 * nat_of_op op) = CDbl 2 (mean_ns (per_op (r_h best) ! nat_of_op op))"
  "emit_csv a bytes best ! (60 + 3 * nat_of_op op) = CPct (percentile (per_op (r_h best) ! nat_of_op op) p99)"
  "emit_csv a bytes best ! (61 + 3 * nat_of_op op) = CPct (percentile (per_op (r_h best) ! nat_of_op op) p9999)"
proof -
  let ?G = "concat (map (\<lambda>i. let h = per_op (r_h best) ! i
     in [CDbl 2 (mean_ns h), CPct (percentile h p99), CPct (percentile h p9999)]) [0..<5])"
  from emit_csv_split obtain F where F: "length F = 59" "emit_csv a bytes best = F @ ?G" by blast
  have n: "emit_csv a bytes best ! (59 + k) = ?G ! k" for k
    unfolding F(2) F(1) [symmetric] by (rule nth_append_length_plus)
  have G: "?G = [CDbl 2 (mean_ns (per_op (r_h best) ! 0)), CPct (percentile (per_op (r_h best) ! 0) p99),
      CPct (percentile (per_op (r_h best) ! 0) p9999), CDbl 2 (mean_ns (per_op (r_h best) ! 1)),
      CPct (percentile (per_op (r_h best) ! 1) p99), CPct (percentile (per_op (r_h best) ! 1) p9999),
      CDbl 2 (mean_ns (per_op (r_h best) ! 2)), CPct (percentile (per_op (r_h best) ! 2) p99),
      CPct (percentile (per_op (r_h best) ! 2) p9999), CDbl 2 (mean_ns (per_op (r_h best) ! 3)),
      CPct (percentile (per_op (r_h best) ! 3) p99), CPct (percentile (per_op (r_h best) ! 3) p9999),
      CDbl 2 (mean_ns (per_op (r_h best) ! 4)), CPct (percentile (per_op (r_h best) ! 4) p99),
      CPct (percentile (per_op (r_h best) ! 4) p9999)]"
    by (simp add: upt_rec Let_def eval_nat_numeral)
  have o: "60 + 3 * nat_of_op op = 59 + (1 + 3 * nat_of_op op)" "61 + 3 * nat_of_op op = 59 + (2 + 3 * nat_of_op op)" by simp_all
  show "emit_csv a bytes best ! (59 + 3 * nat_of_op op) = CDbl 2 (mean_ns (per_op (r_h best) ! nat_of_op op))"
    "emit_csv a bytes best ! (60 + 3 * nat_of_op op) = CPct (percentile (per_op (r_h best) ! nat_of_op op) p99)"
    "emit_csv a bytes best ! (61 + 3 * nat_of_op op) = CPct (percentile (per_op (r_h best) ! nat_of_op op) p9999)"
    unfolding o n G by (cases op; simp add: nat_of_op_def)+
qed

lemma csv_op_columns:
  "csv_value a bytes best (op_name op @ ''_mean_ns'') = Some (CDbl 2 (mean_ns (per_op (r_h best) ! nat_of_op op)))"
  "csv_value a bytes best (op_name op @ ''_p99_ns'') = Some (CPct (percentile (per_op (r_h best) ! nat_of_op op) p99))"
  "csv_value a bytes best (op_name op @ ''_p9999_ns'') = Some (CPct (percentile (per_op (r_h best) ! nat_of_op op) p9999))"
proof -
  have "nat_of_op op \<le> 4" by (simp add: nat_of_op_def split: Op.split)
  then show "csv_value a bytes best (op_name op @ ''_mean_ns'') = Some (CDbl 2 (mean_ns (per_op (r_h best) ! nat_of_op op)))"
    "csv_value a bytes best (op_name op @ ''_p99_ns'') = Some (CPct (percentile (per_op (r_h best) ! nat_of_op op) p99))"
    "csv_value a bytes best (op_name op @ ''_p9999_ns'') = Some (CPct (percentile (per_op (r_h best) ! nat_of_op op) p9999))"
    unfolding csv_op_names [symmetric] csv_op_fields(1) [of a bytes, symmetric] csv_op_fields(2) [of a bytes, symmetric]
      csv_op_fields(3) [of a bytes, symmetric]
    by (simp_all only: csv_value_at)
qed

text \<open>The CSV row matches its header: as many fields as column names, no name twice, and under each
  name of a latency column the statistic of the histogram it names, for the five kinds of latency and
  for the service time of the five operations.\<close>

theorem csv_columns_match:
  "distinct csv_header \<and> length (emit_csv a bytes best) = length csv_header \<and>
   hist_columns a bytes best ''svc'' (total (r_h best)) \<and>
   hist_columns a bytes best ''queue'' (total_queue (r_h best)) \<and>
   hist_columns a bytes best ''e2e'' (total_e2e (r_h best)) \<and>
   hist_columns a bytes best ''lookup'' (total_lookup (r_h best)) \<and>
   hist_columns a bytes best ''poll'' (total_poll (r_h best)) \<and>
   (\<forall>op. csv_value a bytes best (op_name op @ ''_mean_ns'') = Some (CDbl 2 (mean_ns (per_op (r_h best) ! nat_of_op op))) \<and>
     csv_value a bytes best (op_name op @ ''_p99_ns'') = Some (CPct (percentile (per_op (r_h best) ! nat_of_op op) p99)) \<and>
     csv_value a bytes best (op_name op @ ''_p9999_ns'') =
       Some (CPct (percentile (per_op (r_h best) ! nat_of_op op) p9999))) \<and>
   csv_value a bytes best ''throughput_mops'' = Some (CDbl 4 (throughput_mops best)) \<and>
   csv_value a bytes best ''produced'' = Some (CUint (r_produced best)) \<and>
   csv_value a bytes best ''consumed'' = Some (CUint (r_consumed best)) \<and>
   csv_value a bytes best ''lambda_mean'' = Some (CDbl 0 (lambda_mean best))"
proof -
  have "csv_value a bytes best ''throughput_mops'' = Some (CDbl 4 (throughput_mops best))"
    "csv_value a bytes best ''produced'' = Some (CUint (r_produced best))"
    "csv_value a bytes best ''consumed'' = Some (CUint (r_consumed best))"
    "csv_value a bytes best ''lambda_mean'' = Some (CDbl 0 (lambda_mean best))" by (simp_all add: csv_eval)
  then show ?thesis by (simp add: csv_hist_columns csv_op_columns csv_header_distinct csv_length)
qed

end
