(* ===== verification/Bench_Main.thy ===== *)
theory Bench_Main
  imports Index_Factory Query_Stream Bench_Report Arrival_Schedule Poisson_Progress
begin

text \<open>
  \<^verbatim>\<open>main\<close> of \<^verbatim>\<open>bench.cpp\<close> after parsing: the set-up (keys, index, workloads, mix, lock policy, query
  stream, checks, queue capacity, warm-up) and the repeated runs of the two drivers, with the index and the
  workloads of one run handed to the next. The random engine and its distributions, the C library and the
  external adapters are the parameters of the components (\<open>host\<close>).
\<close>

record ('g, 'e) host =
  h_math :: "'g mathlib"
  h_exp :: "real \<Rightarrow> real"
  h_udi :: "u64 \<Rightarrow> u64 \<Rightarrow> 'g \<Rightarrow> u64 \<times> 'g"
  h_engine :: "u64 \<Rightarrow> 'g"
  h_shuffle_lines :: "u64 \<Rightarrow> u32 list \<Rightarrow> u32 list"
  h_shuffle_slots :: "u64 \<Rightarrow> u64 list \<Rightarrow> u64 list"
  h_clib :: clib
  h_ext :: "string \<Rightarrow> ('e IIndex \<times> 'e) option"

definition bytes_per_call :: "Args \<Rightarrow> u64" where
  "bytes_per_call a =
     (if (workload a = ObjectAccess \<or> workload a = StorageStack) \<and> bytes_n a = 0 then 4096 else bytes_n a)"

definition make_work :: "('g, 'e) host \<Rightarrow> Args \<Rightarrow> nat \<Rightarrow> Workload" where
  "make_work H a w =
     (let sd = seed a XOR (0xABCDEF + 0x9E3779B9 * of_nat w)
      in Workload_new (h_shuffle_lines H sd) (h_shuffle_slots H sd) (workload a) (bytes_per_call a) (universe a))"

text \<open>The warm-up looks up the first queries; their values are discarded.\<close>

fun warm_up :: "'s IIndex \<Rightarrow> 's \<Rightarrow> idx_key_t list \<Rightarrow> u64 \<Rightarrow> u64 option" where
  "warm_up ix s [] acc = Some acc"
| "warm_up ix s (k # ks) acc = (case ii_lookup ix s k of None \<Rightarrow> None | Some v \<Rightarrow> warm_up ix s ks (acc XOR v))"

record 'e bench_setup =
  su_args :: Args
  su_keys :: "idx_key_t list"
  su_ix :: "'e index_state IIndex"
  su_idx :: "'e index_state"
  su_works :: "nat \<Rightarrow> Workload"
  su_mix :: OpMix
  su_table :: "Op list"
  su_needs_lock :: bool
  su_qkeys :: "idx_key_t list"

fun and_then :: "'a outcome \<Rightarrow> ('a \<Rightarrow> 'b outcome) \<Rightarrow> 'b outcome" where
  "and_then (Done x) f = f x"
| "and_then (Exit c) f = Exit c"
| "and_then Stuck f = Stuck"

definition of_option :: "'a option \<Rightarrow> 'a outcome" where
  "of_option r = (case r of None \<Rightarrow> Stuck | Some x \<Rightarrow> Done x)"

text \<open>An operation of a placeholder adapter ends the process; another operation without a result has none.\<close>

definition of_call :: "'e index_state \<Rightarrow> 'a option \<Rightarrow> 'a outcome" where
  "of_call s r = (case r of Some x \<Rightarrow> Done x | None \<Rightarrow> (case s of NoState \<Rightarrow> Exit 2 | _ \<Rightarrow> Stuck))"

definition of_sum :: "int + 'a \<Rightarrow> 'a outcome" where
  "of_sum r = (case r of Inl c \<Rightarrow> Exit c | Inr x \<Rightarrow> Done x)"

text \<open>\<^verbatim>\<open>main\<close> up to the runs: keys, index and load, then workloads, mix, lock policy, query stream, checks, capacity
  and warm-up.\<close>

definition main_load :: "('g, 'e) host \<Rightarrow> Args \<Rightarrow> (idx_key_t list \<times> 'e index_state IIndex \<times> 'e index_state) outcome" where
  "main_load H a =
     and_then (gen_keys (h_math H) (h_exp H) (h_engine H) a) (\<lambda>ks.
     and_then (make_index (h_ext H) (index_name a) (hash_buckets a)) (\<lambda>(ix, s0).
     and_then (of_call s0 (ii_bulk_load ix ks (gen_vals a) s0)) (\<lambda>s. Done (ks, ix, s))))"

definition main_prepare ::
  "('g, 'e) host \<Rightarrow> Args \<Rightarrow> idx_key_t list \<times> 'e index_state IIndex \<times> 'e index_state \<Rightarrow> 'e bench_setup outcome" where
  "main_prepare H a0 = (\<lambda>(ks, ix, s).
     let a1 = a0\<lparr>workers := (if workers a0 < 1 then 1 else workers a0)\<rparr> in
     and_then (of_sum (parse_opmix (c_strtod (h_clib H)) (op_mix_str a1))) (\<lambda>m.
     and_then (of_option (OpMixSampler m)) (\<lambda>tbl.
     let threads = (if arrival a1 = Batch then workers a1 else clients a1) in
     and_then (query_stream (h_math H) (h_udi H) (h_engine H) a1 ks) (\<lambda>qs.
     if arrival a1 = Poisson \<and> rate a1 \<le> 0 then Exit 2 else
     and_then (of_option (resolve_capacity a1)) (\<lambda>a.
     and_then (of_call s (warm_up ix s (take 200000 qs) 0)) (\<lambda>_.
     Done \<lparr>su_args = a, su_keys = ks, su_ix = ix, su_idx = s, su_works = make_work H a, su_mix = m, su_table = tbl,
           su_needs_lock = needs_lock m threads ix, su_qkeys = qs\<rparr>))))))"

definition main_setup :: "('g, 'e) host \<Rightarrow> Args \<Rightarrow> 'e bench_setup outcome" where
  "main_setup H a = and_then (main_load H a) (main_prepare H a)"

definition setup_batch :: "'e bench_setup \<Rightarrow> 'e index_state batch_cfg" where
  "setup_batch su = batch_config (su_ix su) (su_qkeys su) (su_table su) (su_needs_lock su)
     (scan_len (su_args su)) (workers (su_args su)) (seed (su_args su))"

text \<open>\<open>n\<close> runs of the batch driver, one after the other.\<close>

inductive batch_repeats ::
  "'s batch_cfg \<Rightarrow> 's \<Rightarrow> (nat \<Rightarrow> Workload) \<Rightarrow> RunResult list \<Rightarrow> 's \<Rightarrow> (nat \<Rightarrow> Workload) \<Rightarrow> bool" for c s0 works0 where
  none: "batch_repeats c s0 works0 [] s0 works0"
| run: "batch_repeats c s0 works0 rs s works \<Longrightarrow> batch_reachable c s works b \<Longrightarrow> batch_finished c b \<Longrightarrow>
    batch_repeats c s0 works0 (rs @ [batch_result c wall b]) (b_idx b) (\<lambda>w. bw_work (b_ws b w))"

text \<open>And of the open-loop driver: every run makes its queue and its schedule anew, from the same arguments and
  seeds, and all clients work on the first workload.\<close>

definition setup_poisson :: "'e bench_setup \<Rightarrow> sched_acc \<Rightarrow> 'e index_state poisson_cfg" where
  "setup_poisson su acc = poisson_config (su_ix su) (su_args su) (su_mix su) (su_qkeys su) acc"

inductive poisson_repeats ::
  "'s poisson_cfg \<Rightarrow> QueueEntry MPMCQueue \<Rightarrow> real \<times> real \<times> real \<Rightarrow> 's \<Rightarrow> Workload \<Rightarrow>
    RunResult list \<Rightarrow> 's \<Rightarrow> Workload \<Rightarrow> bool" for c q lams s0 work0 where
  none: "poisson_repeats c q lams s0 work0 [] s0 work0"
| run: "poisson_repeats c q lams s0 work0 rs s work \<Longrightarrow> poisson_reachable c q s work b \<Longrightarrow> poisson_finished c b \<Longrightarrow>
    poisson_repeats c q lams s0 work0 (rs @ [poisson_result c wall lams b]) (p_idx b) (p_work b)"

subsection \<open>Setting up\<close>

lemma warm_up_Some: "(\<And>k. \<exists>v. ii_lookup ix s k = Some v) \<Longrightarrow> \<exists>x. warm_up ix s ks acc = Some x"
proof (induction ks arbitrary: acc)
  case (Cons k ks)
  from Cons.prems obtain v where "ii_lookup ix s k = Some v" by blast
  with Cons show ?case by simp
qed simp

definition builtin :: "string \<Rightarrow> bool" where
  "builtin nm \<longleftrightarrow> nm = ''btree'' \<or> nm = ''builtin-btree'' \<or> nm = ''hash'' \<or> nm = ''builtin-hash''"

text \<open>The state of a built-in index: a loaded tree or a hash table.\<close>

definition builtin_state :: "'e index_state \<Rightarrow> bool" where
  "builtin_state s = (case s of BTreeState t \<Rightarrow> \<exists>m. bt_rel t m | HashState h \<Rightarrow> True | _ \<Rightarrow> False)"

lemma factory_load:
  fixes ext :: "string \<Rightarrow> ('e IIndex \<times> 'e) option"
  assumes "builtin nm" "unat buckets \<le> 2 ^ 63" "length ks = length vs"
    and "nm \<noteq> ''hash'' \<Longrightarrow> nm \<noteq> ''builtin-hash'' \<Longrightarrow> distinct ks"
  shows "\<exists>ix s0 rel s m. make_index ext nm buckets = Done (ix, s0) \<and> point_index ix rel \<and>
    ii_bulk_load ix ks vs s0 = Some s \<and> rel s m \<and> dom m = set ks \<and> builtin_state s"
proof (cases "nm = ''hash'' \<or> nm = ''builtin-hash''")
  case True
  from hash_new [OF assms(2), of 0] obtain h where h: "HashIndex_new buckets 0 = Some h" "hash_inv h"
    "hash_map h = Map.empty" "hi_items h = 0" by blast
  from hash_load_empty [OF h(2-4) assms(3)] obtain h' where
    h': "default_bulk_load hash_insert_op ks vs h = Some h'" "hash_inv h'" "hash_map h' = Map.empty(ks [\<mapsto>] vs)" by blast
  have "ii_bulk_load hash_index ks vs (HashState h) = Some (HashState h')"
    using h'(1) by (simp add: hash_index_def lift_index_def BuiltinHashAdapter_def hash_insert_op_eq)
  moreover have "lift_rel HashState hash_rel (HashState h') (hash_map h')"
    using h'(2) by (intro lift_relI) (simp add: hash_rel_def)
  moreover have "dom (hash_map h') = set ks" using assms(3) by (simp add: h'(3) dom_map_upds)
  moreover have "make_index ext nm buckets = Done (hash_index, HashState h)" using True h(1) by (auto simp: make_index_def)
  moreover have "builtin_state (HashState h')" by (simp add: builtin_state_def)
  ultimately show ?thesis using fh.point_index_axioms by blast
next
  case False
  with assms(1) have mk: "make_index ext nm buckets = Done (btree_index, BTreeState BPlusTree_new)"
    by (auto simp: make_index_def builtin_def)
  from False assms(4) have d: "distinct ks" by blast
  have "\<exists>s. (BTreeState BPlusTree_new :: 'e index_state) = BTreeState s \<and> True" by blast
  from fbt.load_law [OF this d assms(3)] obtain s :: "'e index_state" where
    "ii_bulk_load btree_index ks vs (BTreeState BPlusTree_new) = Some s"
    "lift_rel BTreeState bt_rel s (map_of (zip ks vs))" by blast
  moreover have "dom (map_of (zip ks vs)) = set ks" using assms(3) by (rule dom_map_of_zip)
  moreover from calculation(2) have "builtin_state s" by (auto simp: builtin_state_def lift_rel_def)
  ultimately show ?thesis using mk fbt.point_index_axioms by blast
qed

text \<open>What the command line and the environment have to be for a run on a built-in index.\<close>

definition runnable :: "('g, 'e) host \<Rightarrow> Args \<Rightarrow> OpMix \<Rightarrow> bool" where
  "runnable H a m \<longleftrightarrow> builtin (index_name a) \<and> unat (hash_buckets a) \<le> 2 ^ 63 \<and> gen_ok a \<and> keys_n a \<noteq> 0 \<and>
     dist_ok (h_math H) (h_udi H) (h_engine H) a \<and> unat (queries a) \<le> 2 ^ 63 \<and>
     parse_opmix (c_strtod (h_clib H)) (op_mix_str a) = Inr m \<and> shares_ok m \<and>
     (arrival a = Poisson \<longrightarrow> 0 < rate a) \<and> params_fit (workload a) (bytes_per_call a) (universe a) \<and>
     (\<forall>sd xs. mset (h_shuffle_lines H sd xs) = mset xs) \<and> (\<forall>sd xs. mset (h_shuffle_slots H sd xs) = mset xs)"

lemma make_work_ready: "runnable H a m \<Longrightarrow> wl_ready (make_work H a w)"
  unfolding make_work_def Let_def by (rule Workload_new_ready) (simp_all add: runnable_def)

lemma resolve_capacity_keeps:
  assumes "resolve_capacity a = Some a'"
  shows "workers a' = workers a" "seed a' = seed a" "workload a' = workload a" "universe a' = universe a"
    "bytes_n a' = bytes_n a" "scan_len a' = scan_len a" "queries a' = queries a" "arrival a' = arrival a" "clients a' = clients a"
    "traffic a' = traffic a" "dist a' = dist a" "op_mix_str a' = op_mix_str a"
  using assms by (auto simp: resolve_capacity_def split: if_splits)

lemma resolve_capacity_Some: "unat (queries a) \<le> 2 ^ 63 \<Longrightarrow> \<exists>a'. resolve_capacity a = Some a'"
  using pow2_ceil_Some [of "queries a"] by (auto simp: resolve_capacity_def)

lemma main_load_Done:
  assumes "gen_ok a" "builtin (index_name a)" "unat (hash_buckets a) \<le> 2 ^ 63"
  shows "\<exists>ks ix rel s mp. main_load H a = Done (ks, ix, s) \<and> length ks = unat (keys_n a) \<and> point_index ix rel \<and>
    rel s mp \<and> dom mp = set ks \<and> builtin_state s"
proof -
  from gen_keys_Done [OF assms(1)] obtain ks where ks: "gen_keys (h_math H) (h_exp H) (h_engine H) a = Done ks"
    "length ks = unat (keys_n a)" "\<not> use_skew_gen a \<Longrightarrow> distinct ks" by blast
  have "\<exists>ix s0 rel s mp. make_index (h_ext H) (index_name a) (hash_buckets a) = Done (ix, s0) \<and> point_index ix rel \<and>
      ii_bulk_load ix ks (gen_vals a) s0 = Some s \<and> rel s mp \<and> dom mp = set ks \<and> builtin_state s"
    by (rule factory_load) (use assms ks(2,3) in \<open>auto simp: use_skew_gen_def\<close>)
  then obtain ix s0 rel s mp where ix: "make_index (h_ext H) (index_name a) (hash_buckets a) = Done (ix, s0)"
    "point_index ix rel" "ii_bulk_load ix ks (gen_vals a) s0 = Some s" "rel s mp" "dom mp = set ks" "builtin_state s" by blast
  have "main_load H a = Done (ks, ix, s)" by (simp add: main_load_def ks(1) ix(1,3) of_call_def)
  with ks(2) ix(2,4-6) show ?thesis by blast
qed

lemma main_setup_Done:
  fixes H :: "('g, 'e) host"
  assumes "runnable H a m"
  shows "\<exists>su rel mp. main_setup H a = Done su \<and> point_index (su_ix su) rel \<and> rel (su_idx su) mp \<and>
    dom mp = set (su_keys su) \<and> length (su_keys su) = unat (keys_n a) \<and> set (su_qkeys su) \<subseteq> set (su_keys su) \<and>
    length (su_qkeys su) = unat (queries a) \<and> su_mix su = m \<and> OpMixSampler m = Some (su_table su) \<and>
    su_needs_lock su = needs_lock m (if arrival a = Batch then workers (su_args su) else clients a) (su_ix su) \<and>
    0 < workers (su_args su) \<and> (\<forall>w. wl_ready (su_works su w)) \<and>
    resolve_capacity (a\<lparr>workers := (if workers a < 1 then 1 else workers a)\<rparr>) = Some (su_args su) \<and>
    builtin_state (su_idx su)"
proof -
  note R = assms [unfolded runnable_def]
  let ?M = "h_math H"
  from R have g: "gen_ok a" by blast
  from main_load_Done [OF g, of H] R obtain ks ix rel s mp where ld: "main_load H a = Done (ks, ix, s)"
    and ks: "length ks = unat (keys_n a)" and ix: "point_index ix rel" "rel s mp" "dom mp = set ks" "builtin_state s" by blast
  define a1 where "a1 = a\<lparr>workers := (if workers a < 1 then 1 else workers a)\<rparr>"
  from R sampler_total obtain tbl where tbl: "OpMixSampler m = Some tbl" by blast
  have "dist_ok ?M (h_udi H) (h_engine H) a1" using R by (simp add: dist_ok_def a1_def)
  from query_stream_range [OF this, of ks] R ks obtain qs where
    qs: "query_stream ?M (h_udi H) (h_engine H) a1 ks = Done qs" "length qs = unat (queries a)" "set qs \<subseteq> set ks"
    by (auto simp: a1_def)
  from R resolve_capacity_Some [of a1] obtain a2 where a2: "resolve_capacity a1 = Some a2" by (auto simp: a1_def)
  note keep = resolve_capacity_keeps [OF a2]
  have "\<exists>v. ii_lookup ix s k = Some v" for k using point_index.lookup_law [OF ix(1,2)] by blast
  from warm_up_Some [OF this] obtain x where x: "warm_up ix s (take 200000 qs) 0 = Some x" by blast
  have wk: "0 < workers a2" unfolding keep(1) by (simp add: a1_def)
  have work: "make_work H a2 = make_work H a" using keep(2-5)
    by (simp add: fun_eq_iff make_work_def bytes_per_call_def a1_def)
  let ?su = "\<lparr>su_args = a2, su_keys = ks, su_ix = ix, su_idx = s, su_works = make_work H a2, su_mix = m, su_table = tbl,
    su_needs_lock = needs_lock m (if arrival a1 = Batch then workers a1 else clients a1) ix, su_qkeys = qs\<rparr>"
  have "main_setup H a = Done ?su"
    using R qs(1) a2 by (auto simp: main_setup_def main_prepare_def ld of_call_def of_sum_def of_option_def tbl x Let_def a1_def)
  moreover have "su_needs_lock ?su = needs_lock m (if arrival a = Batch then workers (su_args ?su) else clients a) ix"
    using keep(1) by (simp add: a1_def)
  ultimately show ?thesis
    using ix ks qs(2,3) tbl wk a2 make_work_ready [OF assms] unfolding work a1_def by fastforce
qed

subsection \<open>Repeated runs\<close>

context point_index
begin

lemma finds_keys: "rel s m \<Longrightarrow> dom m = K \<Longrightarrow> \<exists>v. ii_lookup ix s k = Some v \<and> (k \<notin> K \<longrightarrow> v = 0)"
  using lookup_law [of s m k] by (auto simp: val_or_0_def split: option.splits)

text \<open>After any number of runs the index represents a map with the same keys and the workloads stay ready.\<close>

lemma repeats_rel:
  assumes "batch_repeats c s0 works0 rs s works" "bc_ix c = ix" "rel s0 m" "\<forall>w < bc_workers c. wl_ready (works0 w)"
  shows "(\<exists>m'. rel s m' \<and> dom m' = dom m) \<and> (\<forall>w < bc_workers c. wl_ready (works w))"
  using assms(1)
proof (induction rule: batch_repeats.induct)
  case none
  show ?case using assms(3,4) by blast
next
  case (run rs s works b wall)
  then obtain m' where m': "rel s m'" "dom m' = dom m" by blast
  from batch_rel [OF assms(2) m'(1) run.hyps(2)] obtain m'' where "rel (b_idx b) m''" "dom m'' = dom m'"
    by (auto simp: drifted_def)
  with m'(2) batch_ready [OF run.hyps(2)] run.IH show ?case by auto
qed

lemma repeats_can_run:
  assumes "bc_ix c = ix" "rel s0 m" "\<forall>w < bc_workers c. wl_ready (works0 w)"
  shows "\<exists>rs s works. batch_repeats c s0 works0 rs s works \<and> length rs = n"
proof (induction n)
  case 0
  show ?case using batch_repeats.none by fastforce
next
  case (Suc n)
  then obtain rs s works where r: "batch_repeats c s0 works0 rs s works" "length rs = n" by blast
  from repeats_rel [OF r(1) assms] obtain m' where "rel s m'" "\<forall>w < bc_workers c. wl_ready (works w)" by blast
  from batch_can_finish [OF assms(1) this batch_reachable.start] obtain b where
    "batch_reachable c s works b" "batch_finished c b" by blast
  from batch_repeats.run [OF r(1) this] r(2) show ?case by fastforce
qed

lemma poisson_repeats_rel:
  assumes "poisson_repeats c q lams s0 work0 rs s work" "queue_fits c q" "pc_ix c = ix" "rel s0 m" "wl_ready work0"
  shows "(\<exists>m'. rel s m' \<and> dom m' = dom m) \<and> wl_ready work"
  using assms(1)
proof (induction rule: poisson_repeats.induct)
  case none
  show ?case using assms(4,5) by blast
next
  case (run rs s work b wall)
  then obtain m' where m': "rel s m'" "dom m' = dom m" "wl_ready work" by blast
  from poisson_rel [OF run.hyps(2) assms(2,3) m'(1)] obtain m'' where "rel (p_idx b) m''" "dom m'' = dom m'"
    by (auto simp: drifted_def)
  with m'(2) poisson_ready [OF run.hyps(2) assms(2) m'(3)] show ?case by auto
qed

lemma poisson_repeats_can_run:
  assumes "queue_fits c q" "1 \<le> pc_clients c" "pc_ix c = ix" "rel s0 m" "wl_ready work0"
  shows "\<exists>rs s work. poisson_repeats c q lams s0 work0 rs s work \<and> length rs = n"
proof (induction n)
  case 0
  show ?case using poisson_repeats.none by fastforce
next
  case (Suc n)
  then obtain rs s work where r: "poisson_repeats c q lams s0 work0 rs s work" "length rs = n" by blast
  from poisson_repeats_rel [OF r(1) assms(1,3-5)] obtain m' where "rel s m'" "wl_ready work" by blast
  from poisson_can_finish [OF assms(1-3) this poisson_reachable.start] obtain b where
    "poisson_reachable c q s work b" "poisson_finished c b" by blast
  from poisson_repeats.run [OF r(1) this] r(2) show ?case by fastforce
qed

end

lemma repeats_totals:
  assumes "batch_repeats c s0 works0 rs s works" "0 < bc_workers c"
  shows "(\<Sum>r \<leftarrow> rs. h_total (total (r_h r))) = of_nat (length rs * length (bc_qkeys c))"
  using assms(1)
proof (induction rule: batch_repeats.induct)
  case (run rs s works b wall)
  then show ?case using finished_totals(2) [OF assms(2) batch_reachable_inv [OF run.hyps(2)] run.hyps(3), of wall]
    by (simp add: algebra_simps)
qed simp

lemma poisson_repeats_totals:
  assumes "poisson_repeats c q lams s0 work0 rs s work" "queue_fits c q" "1 \<le> pc_clients c"
    "length (pc_ops c) = length (pc_qkeys c)"
  shows "(\<Sum>r \<leftarrow> rs. h_total (total (r_h r))) = of_nat (length rs * length (pc_qkeys c)) \<and>
    (\<forall>r \<in> set rs. r_produced r = of_nat (length (pc_qkeys c)) \<and> r_consumed r = of_nat (length (pc_qkeys c)))"
  using assms(1)
proof (induction rule: poisson_repeats.induct)
  case (run rs s work b wall)
  then show ?case using poisson_totals [OF assms(2-4) run.hyps(2,3), of wall lams]
    by (simp add: algebra_simps)
qed simp

lemma combine_runs_total: "h_total (total (r_h (combine_runs rs))) = (\<Sum>r \<leftarrow> rs. h_total (total (r_h r)))"
proof -
  have "r_h (combine_runs rs) = foldl merge_hists OpHists_init (map r_h rs)"
    using run_step_fold(1) [of "RunResult_init\<lparr>wall_ns_total := fl (10 ^ 30)\<rparr>" OpHists_init rs]
    by (auto simp: combine_runs_def split: prod.split)
  then show ?thesis by (simp add: op_total_foldl comp_def)
qed

subsection \<open>The configurations of the runs\<close>

lemma setup_batch_sel [simp]:
  "bc_ix (setup_batch su) = su_ix su" "bc_qkeys (setup_batch su) = su_qkeys su" "bc_mix (setup_batch su) = su_table su"
  "bc_use_lock (setup_batch su) = su_needs_lock su"
  "0 < workers (su_args su) \<Longrightarrow> int (bc_workers (setup_batch su)) = workers (su_args su)"
  by (simp_all add: setup_batch_def batch_config_def)

definition capacity_ok :: "Args \<Rightarrow> bool" where
  "capacity_ok a \<longleftrightarrow> args_ok a \<and>
     (queue_capacity a = 0 \<and> 2 \<le> unat (queries a) \<and> unat (queries a) \<le> 2 ^ 62 \<or>
      2 \<le> unat (queue_capacity a) \<and> unat (queries a) + unat (queue_capacity a) < 2 ^ 63)"

lemma capacity_fits:
  assumes "capacity_ok a" "arrival a = Poisson" "resolve_capacity a = Some a'"
  shows "2 \<le> unat (queue_capacity a') \<and> unat (queries a) + unat (queue_capacity a') < 2 ^ 63 \<and>
    (\<exists>q. MPMCQueue_new dflt (queue_capacity a') = Some q)"
proof -
  have ok: "args_ok a" using assms(1) by (simp add: capacity_ok_def)
  have "MPMCQueue_new dflt (queue_capacity a') \<noteq> None"
    using and_pred_pow2 [OF resolve_capacity_pow2 [OF ok assms(3)]] by (simp add: MPMCQueue_new_def)
  moreover have "2 \<le> unat (queue_capacity a') \<and> unat (queries a) + unat (queue_capacity a') < 2 ^ 63"
  proof (cases "queue_capacity a = 0")
    case True
    with assms(1) have q: "2 \<le> unat (queries a)" "unat (queries a) \<le> 2 ^ 62" by (auto simp: capacity_ok_def)
    from q(2) have "unat (queries a) \<le> 2 ^ 63" by (rule order_trans) simp
    from pow2_ceil_Some [OF this] obtain y where y: "pow2_ceil (queries a) = Some y" "unat (queries a) \<le> unat y" by blast
    have "unat (min y (push_bit 24 1)) = min (unat y) (2 ^ 24)" by (simp add: min_def word_le_nat_alt)
    then have c: "unat (queue_capacity a') = min (unat y) (2 ^ 24)"
      using assms(2,3) True y(1) by (auto simp: resolve_capacity_def)
    have "unat (queue_capacity a') \<le> 2 ^ 24" "2 \<le> unat (queue_capacity a')" unfolding c using q(1) y(2) by simp_all
    moreover have "(2 :: nat) ^ 62 + 2 ^ 24 < 2 ^ 63" by simp
    ultimately show ?thesis using q(2) by linarith
  next
    case False
    with assms show ?thesis by (auto simp: capacity_ok_def resolve_capacity_def)
  qed
  ultimately show ?thesis by blast
qed

subsection \<open>Errors of the set-up\<close>

lemma disabled_load:
  assumes "nm \<in> set external_names" "h_ext H nm = None" "ks \<noteq> []" "length vs = length ks"
  shows "\<exists>ix. make_index (h_ext H) nm b = Done (ix, NoState) \<and> ii_bulk_load ix ks vs NoState = None"
proof -
  have "nm \<notin> {''btree'', ''builtin-btree'', ''hash'', ''builtin-hash''}" using assms(1) by (auto simp: external_names_def)
  then have "make_index (h_ext H) nm b = Done (lift_index (\<lambda>_. NoState) as_none (disabled nm), NoState)"
    using assms(1,2) by (simp add: make_index_def placeholder_disabled)
  moreover have "default_bulk_load (\<lambda>k v s. None) ks vs () = None"
    using assms(3,4) by (cases ks; cases vs) simp_all
  ultimately show ?thesis by (simp add: lift_index_def disabled_def)
qed

text \<open>C21. The set-up ends the process with an exit code on every invalid argument, before a query runs: with code 2 for
  an index name the factory does not know and for an adapter that is not compiled in (whose first insert
  exits), with the code of the parser for a mix it rejects, and with code 2 for an unknown distribution and for
  Poisson arrivals without a positive rate.\<close>

theorem main_setup_exits:
  assumes "gen_ok a" "keys_n a \<noteq> 0" "unat (hash_buckets a) \<le> 2 ^ 63"
  shows "(\<not> builtin (index_name a) \<and> index_name a \<notin> set external_names \<longrightarrow> main_setup H a = Exit 2) \<and>
    (index_name a \<in> set external_names \<and> h_ext H (index_name a) = None \<longrightarrow> main_setup H a = Exit 2) \<and>
    (builtin (index_name a) \<and> parse_opmix (c_strtod (h_clib H)) (op_mix_str a) = Inl e \<longrightarrow> main_setup H a = Exit e) \<and>
    (builtin (index_name a) \<and> parse_opmix (c_strtod (h_clib H)) (op_mix_str a) = Inr m \<and> shares_ok m \<longrightarrow>
      (dist a \<noteq> ''uniform'' \<and> dist a \<noteq> ''zipf'' \<longrightarrow> main_setup H a = Exit 2) \<and>
      (dist_ok (h_math H) (h_udi H) (h_engine H) a \<and> arrival a = Poisson \<and> rate a \<le> 0 \<longrightarrow> main_setup H a = Exit 2))"
proof -
  let ?a1 = "a\<lparr>workers := (if workers a < 1 then 1 else workers a)\<rparr>"
  from gen_keys_Done [OF assms(1)] obtain ks where ks: "gen_keys (h_math H) (h_exp H) (h_engine H) a = Done ks"
    "length ks = unat (keys_n a)" by blast
  have ne: "ks \<noteq> []" using ks(2) assms(2) by (auto simp: unat_eq_0)
  have "main_setup H a = Exit 2" if "\<not> builtin (index_name a)" "index_name a \<notin> set external_names"
    using that by (simp add: main_setup_def main_load_def ks(1) make_index_def builtin_def)
  moreover have "main_setup H a = Exit 2" if "index_name a \<in> set external_names" "h_ext H (index_name a) = None"
  proof -
    have "length (gen_vals a) = length ks" using ks(2) by simp
    from disabled_load [OF that ne this, of "hash_buckets a"] show ?thesis
      by (auto simp: main_setup_def main_load_def ks(1) of_call_def)
  qed
  moreover have ld: "\<exists>ks ix s. main_load H a = Done (ks, ix, s) \<and> length ks = unat (keys_n a)" if "builtin (index_name a)"
    using main_load_Done [OF assms(1) that assms(3), of H] by blast
  then have "main_setup H a = Exit e" if "builtin (index_name a)" "parse_opmix (c_strtod (h_clib H)) (op_mix_str a) = Inl e"
    using that by (auto simp: main_setup_def main_prepare_def of_sum_def Let_def)
  moreover have "main_setup H a = Exit 2" if "builtin (index_name a)" "parse_opmix (c_strtod (h_clib H)) (op_mix_str a) = Inr m"
    "shares_ok m" "dist a \<noteq> ''uniform''" "dist a \<noteq> ''zipf''"
    using ld [OF that(1)] that sampler_total [OF that(3)]
    by (auto simp: main_setup_def main_prepare_def of_sum_def of_option_def query_stream_def Let_def)
  moreover have "main_setup H a = Exit 2" if "builtin (index_name a)" "parse_opmix (c_strtod (h_clib H)) (op_mix_str a) = Inr m"
    "shares_ok m" "dist_ok (h_math H) (h_udi H) (h_engine H) a" "arrival a = Poisson" "rate a \<le> 0"
  proof -
    from ld [OF that(1)] obtain ks ix s where l: "main_load H a = Done (ks, ix, s)" "length ks = unat (keys_n a)" by blast
    have "dist_ok (h_math H) (h_udi H) (h_engine H) ?a1" using that(4) by (simp add: dist_ok_def)
    from query_stream_range [OF this, of ks] l(2) assms(2) obtain qs where
      "query_stream (h_math H) (h_udi H) (h_engine H) ?a1 ks = Done qs" by auto
    with l(1) that sampler_total [OF that(3)] show ?thesis
      by (auto simp: main_setup_def main_prepare_def of_sum_def of_option_def Let_def)
  qed
  ultimately show ?thesis by blast
qed

theorem main_setup_exits_witness:
  "main_setup \<lparr>h_math = powr_math, h_exp = exp, h_udi = (\<lambda>lo hi g. (lo, g)), h_engine = (\<lambda>s. ()), h_shuffle_lines = (\<lambda>sd xs. xs),
     h_shuffle_slots = (\<lambda>sd xs. xs), h_clib = demo_clib, h_ext = (\<lambda>nm. None)\<rparr> (Args_default\<lparr>index_name := ''fptree''\<rparr>) =
   (Exit 2 :: unit bench_setup outcome)"
proof -
  let ?H = "\<lparr>h_math = powr_math, h_exp = exp, h_udi = (\<lambda>lo hi g. (lo, g)), h_engine = (\<lambda>s. ()), h_shuffle_lines = (\<lambda>sd xs. xs),
     h_shuffle_slots = (\<lambda>sd xs. xs), h_clib = demo_clib, h_ext = (\<lambda>nm. None :: (unit IIndex \<times> unit) option)\<rparr>"
  have "gen_ok (Args_default\<lparr>index_name := ''fptree''\<rparr>)" "keys_n (Args_default\<lparr>index_name := ''fptree''\<rparr>) \<noteq> 0"
    "unat (hash_buckets (Args_default\<lparr>index_name := ''fptree''\<rparr>)) \<le> 2 ^ 63" "''fptree'' \<in> set external_names"
    by (simp_all add: Args_default_def gen_ok_def use_skew_gen_def external_names_def)
  with main_setup_exits [of "Args_default\<lparr>index_name := ''fptree''\<rparr>" ?H] show ?thesis by simp
qed

end
