(* ===== verification/MPMC_Order.thy ===== *)
theory MPMC_Order
  imports MPMC_Queue
begin

text \<open>
  The memory orders of the queue (\<^verbatim>\<open>mpmc_queue.hpp\<close>). Every step of a call is labelled with the access it makes and the order
  the source gives it: the positions are accessed relaxed, the sequence number of a cell is loaded with acquire and
  stored with release, the value of a cell is accessed plainly. Vector clocks record which steps happen before which:
  an acquiring load of a sequence number joins the clock that the store it reads from released; nothing else orders two
  threads. The interleavings are those of \<open>MPMC_Queue\<close>. The result: the accesses to the value of a cell are all ordered by
  happens-before, through the release and acquire of the sequence number alone.
\<close>

subsection \<open>Accesses and clocks\<close>

datatype memory_order = Relaxed | Acquire | Release

datatype access =
    PosRelaxed                    \<comment> \<open>\<open>enq_pos_\<close>, \<open>deq_pos_\<close>\<close>
  | SeqLoad u64 memory_order      \<comment> \<open>\<open>cell->seq.load\<close> at a position\<close>
  | SeqStore u64 memory_order     \<comment> \<open>\<open>cell->seq.store\<close> at a position\<close>
  | ValueAt u64                   \<comment> \<open>\<open>cell->value\<close> at a position\<close>
  | NoAccess

fun access_of :: "'a pc \<Rightarrow> access" where
  "access_of (EnqLoad v) = PosRelaxed"
| "access_of (EnqSeq v pos) = SeqLoad pos Acquire"
| "access_of (EnqCas v pos) = PosRelaxed"
| "access_of (EnqWrite v pos) = ValueAt pos"
| "access_of (EnqStore v pos) = SeqStore pos Release"
| "access_of DeqLoad = PosRelaxed"
| "access_of (DeqSeq pos) = SeqLoad pos Acquire"
| "access_of (DeqCas pos) = PosRelaxed"
| "access_of (DeqRead pos) = ValueAt pos"
| "access_of (DeqStore pos x) = SeqStore pos Release"
| "access_of _ = NoAccess"

text \<open>\<open>cl_vc t u\<close>: how much of thread \<open>u\<close> happens before the present of thread \<open>t\<close>; \<open>cl_rel j\<close>: the clock released with the
  sequence number of cell \<open>j\<close>; \<open>cl_acc j\<close>: the accesses to its value so far, each with its thread and its time there.\<close>

record clocks =
  cl_vc :: "nat \<Rightarrow> nat \<Rightarrow> nat"
  cl_rel :: "nat \<Rightarrow> nat \<Rightarrow> nat"
  cl_acc :: "nat \<Rightarrow> (nat \<times> nat) list"

definition clocks_init :: clocks where
  "clocks_init = \<lparr>cl_vc = (\<lambda>t u. if t = u then 1 else 0), cl_rel = (\<lambda>j u. 0), cl_acc = (\<lambda>j. [])\<rparr>"

fun apply_access :: "(u64 \<Rightarrow> nat) \<Rightarrow> nat \<Rightarrow> access \<Rightarrow> clocks \<Rightarrow> clocks" where
  "apply_access ix t (SeqLoad pos m) c =
     (if m = Acquire
      then c\<lparr>cl_vc := (cl_vc c)(t := (\<lambda>u. max (cl_vc c t u) (cl_rel c (ix pos) u)))\<rparr>
      else c)"
| "apply_access ix t (SeqStore pos m) c =
     c\<lparr>cl_rel := (cl_rel c)(ix pos := (if m = Release then cl_vc c t else (\<lambda>u. 0))),
       cl_vc := (cl_vc c)(t := (cl_vc c t)(t := cl_vc c t t + 1))\<rparr>"
| "apply_access ix t (ValueAt pos) c =
     c\<lparr>cl_acc := (cl_acc c)(ix pos := (t, cl_vc c t t) # cl_acc c (ix pos))\<rparr>"
| "apply_access ix t PosRelaxed c = c"
| "apply_access ix t NoAccess c = c"

fun hb_step :: "'a action \<Rightarrow> 'a sys \<times> clocks \<Rightarrow> ('a sys \<times> clocks) option" where
  "hb_step a (s, c) = map_option (\<lambda>s'. (s', case a of
       Run t b \<Rightarrow> apply_access (cell_ix (queue s)) t (access_of (pcs s t)) c
     | _ \<Rightarrow> c)) (sys_step a s)"

inductive hb_reachable :: "'a MPMCQueue \<Rightarrow> 'a sys \<Rightarrow> clocks \<Rightarrow> bool" for q where
  start: "hb_reachable q (mpmc_init q) clocks_init"
| step: "hb_reachable q s c \<Longrightarrow> hb_step a (s, c) = Some (s', c') \<Longrightarrow> hb_reachable q s' c'"

text \<open>The clocks only watch: the states are those of the interleaving model.\<close>

lemma sys_step_complete: "mpmc_step s s' \<Longrightarrow> \<exists>a. sys_step a s = Some s'"
proof (induction rule: mpmc_step.induct)
  case (call_enqueue s t v)
  then show ?case by (intro exI [of _ "CallEnq t v"]) simp
next
  case (call_dequeue s t)
  then show ?case by (intro exI [of _ "CallDeq t"]) simp
next
  case (return_enqueue s t b)
  then show ?case by (intro exI [of _ "Return t"]) simp
next
  case (return_dequeue s t r)
  then show ?case by (intro exI [of _ "Return t"]) simp
next
  case (run b s t q' c')
  then show ?case by (intro exI [of _ "Run t b"]) simp
qed

lemma hb_reachable_sys: "mpmc_reachable q s \<longleftrightarrow> (\<exists>c. hb_reachable q s c)"
proof
  show "\<exists>c. hb_reachable q s c" if "mpmc_reachable q s" using that
  proof (induction rule: mpmc_reachable.induct)
    case (step s s')
    from step.IH obtain c where c: "hb_reachable q s c" by blast
    from sys_step_complete [OF step.hyps(2)] obtain a where a: "sys_step a s = Some s'" by blast
    have "hb_step a (s, c) = Some (s', snd (the (hb_step a (s, c))))" using a by simp
    from hb_reachable.step [OF c this] show ?case by blast
  qed (blast intro: hb_reachable.start)
  show "mpmc_reachable q s" if "\<exists>c. hb_reachable q s c"
  proof -
    from that obtain c where "hb_reachable q s c" by blast
    then show ?thesis by (induction rule: hb_reachable.induct) (auto intro: mpmc_reachable.intros sys_step_sound)
  qed
qed

subsection \<open>The invariant\<close>

text \<open>A thread about to compare and exchange the present position.\<close>

fun cas_pos :: "'a sys \<Rightarrow> 'a pc \<Rightarrow> u64 option" where
  "cas_pos s (EnqCas v p) = (if p = enq_pos (queue s) then Some p else None)"
| "cas_pos s (DeqCas p) = (if p = deq_pos (queue s) then Some p else None)"
| "cas_pos s _ = None"

definition knows :: "(nat \<Rightarrow> nat) \<Rightarrow> (nat \<times> nat) list \<Rightarrow> bool" where
  "knows v as \<longleftrightarrow> (\<forall>(u, n) \<in> set as. n \<le> v u)"

text \<open>The owner of a cell knows all accesses to its value; when it has no owner, the clock released with its sequence number
  does; and a thread that can win the cell knows this clock.\<close>

definition hb_inv :: "nat \<Rightarrow> 'a sys \<Rightarrow> clocks \<Rightarrow> bool" where
  "hb_inv k s c \<longleftrightarrow>
     (\<forall>t p. owned_pos (pcs s t) = Some p \<longrightarrow> knows (cl_vc c t) (cl_acc c (unat p mod 2 ^ k))) \<and>
     (\<forall>j. (\<forall>t p. owned_pos (pcs s t) = Some p \<longrightarrow> unat p mod 2 ^ k \<noteq> j) \<longrightarrow> knows (cl_rel c j) (cl_acc c j)) \<and>
     (\<forall>t p. cas_pos s (pcs s t) = Some p \<longrightarrow> cl_rel c (unat p mod 2 ^ k) \<le> cl_vc c t)"

lemma knows_mono: "knows v as \<Longrightarrow> v \<le> w \<Longrightarrow> knows w as"
  by (auto simp: knows_def le_fun_def intro: order_trans)

text \<open>Nobody owns a cell that can be won.\<close>

lemma cas_unowned:
  assumes inv: "mpmc_inv s k tk full" and b: "length (enq_log s) + 2 ^ k < 2 ^ 63"
    and "cas_pos s (pcs s t) = Some p" "owned_pos (pcs s u) = Some r"
  shows "unat r mod 2 ^ k \<noteq> unat p mod 2 ^ k"
proof -
  have e: "unat (enq_pos (queue s)) = length (enq_log s)" using inv b by (simp add: mpmc_inv_def unat_of_nat_u64)
  have "\<not> full (unat p mod 2 ^ k) \<and> tk (unat p mod 2 ^ k) = length (enq_log s) \<or>
      full (unat p mod 2 ^ k) \<and> tk (unat p mod 2 ^ k) = unat (deq_pos (queue s))"
    using assms(3) inv_pc [OF inv, of t] e by (cases "pcs s t") (auto split: if_splits)
  moreover have "\<not> full (unat r mod 2 ^ k) \<and> tk (unat r mod 2 ^ k) < length (enq_log s) \<or>
      full (unat r mod 2 ^ k) \<and> tk (unat r mod 2 ^ k) < unat (deq_pos (queue s))"
    using assms(4) inv_pc [OF inv, of u] by (cases "pcs s u") auto
  ultimately show ?thesis by auto
qed

text \<open>A step of a thread that owns nothing and wins nothing.\<close>

lemma hb_free:
  assumes inv: "hb_inv k s c" and s': "pcs s' = (pcs s)(t := x)"
      "enq_pos (queue s') = enq_pos (queue s)" "deq_pos (queue s') = deq_pos (queue s)"
    and own: "owned_pos (pcs s t) = None" "owned_pos x = None"
    and c': "cl_rel c' = cl_rel c" "cl_acc c' = cl_acc c" "cl_vc c t \<le> cl_vc c' t" "\<And>u. u \<noteq> t \<Longrightarrow> cl_vc c' u = cl_vc c u"
    and cas: "\<And>p. cas_pos s' x = Some p \<Longrightarrow> cl_rel c (unat p mod 2 ^ k) \<le> cl_vc c' t"
  shows "hb_inv k s' c'"
proof -
  have o: "owned_pos (pcs s' u) = owned_pos (pcs s u)" for u using own by (simp add: s'(1))
  have cp: "cas_pos s' pc = cas_pos s pc" for pc by (cases pc) (simp_all add: s'(2,3))
  have v: "owned_pos (pcs s u) = Some p \<Longrightarrow> u \<noteq> t" for u p using own(1) by auto
  show ?thesis
    using inv v cas unfolding hb_inv_def o c'(1,2) cp by (auto simp: s'(1) c'(4))
qed
text \<open>Winning a cell.\<close>

lemma hb_win:
  assumes inv: "hb_inv k s c" and mi: "mpmc_inv s k tk full" and b: "length (enq_log s) + 2 ^ k < 2 ^ 63"
    and s': "pcs s' = (pcs s)(t := x)" and win: "cas_pos s (pcs s t) = Some p" "owned_pos x = Some p"
    and cas: "\<And>u r. u \<noteq> t \<Longrightarrow> cas_pos s' (pcs s u) = Some r \<Longrightarrow> cas_pos s (pcs s u) = Some r" "cas_pos s' x = None"
  shows "hb_inv k s' c"
proof -
  have none: "owned_pos (pcs s t) = None" using win(1) by (cases "pcs s t") (auto split: if_splits)
  have free: "\<forall>u r. owned_pos (pcs s u) = Some r \<longrightarrow> unat r mod 2 ^ k \<noteq> unat p mod 2 ^ k"
    using cas_unowned [OF mi b win(1)] by blast
  then have "knows (cl_rel c (unat p mod 2 ^ k)) (cl_acc c (unat p mod 2 ^ k))" using inv by (simp add: hb_inv_def)
  moreover have "cl_rel c (unat p mod 2 ^ k) \<le> cl_vc c t" using inv win(1) by (simp add: hb_inv_def)
  ultimately have me: "knows (cl_vc c t) (cl_acc c (unat p mod 2 ^ k))" by (rule knows_mono)
  have "knows (cl_vc c u) (cl_acc c (unat r mod 2 ^ k))" if "owned_pos (pcs s' u) = Some r" for u r
    using that me win(2) inv by (cases "u = t") (simp_all add: s' hb_inv_def)
  moreover have "\<forall>u r. owned_pos (pcs s u) = Some r \<longrightarrow> unat r mod 2 ^ k \<noteq> j"
    if "\<forall>u r. owned_pos (pcs s' u) = Some r \<longrightarrow> unat r mod 2 ^ k \<noteq> j" for j
    using that none by (metis s' fun_upd_apply option.distinct(1))
  then have "knows (cl_rel c j) (cl_acc c j)" if "\<forall>u r. owned_pos (pcs s' u) = Some r \<longrightarrow> unat r mod 2 ^ k \<noteq> j" for j
    using inv that unfolding hb_inv_def by blast
  moreover have "cl_rel c (unat r mod 2 ^ k) \<le> cl_vc c u" if "cas_pos s' (pcs s' u) = Some r" for u r
    using that cas inv by (cases "u = t") (simp_all add: s' hb_inv_def)
  ultimately show ?thesis unfolding hb_inv_def by blast
qed

text \<open>An access to the value of a cell by its owner.\<close>

lemma hb_value:
  assumes inv: "hb_inv k s c" and mi: "mpmc_inv s k tk full" and s': "pcs s' = (pcs s)(t := x)"
      "enq_pos (queue s') = enq_pos (queue s)" "deq_pos (queue s') = deq_pos (queue s)"
    and own: "owned_pos (pcs s t) = Some p" "owned_pos x = Some p"
    and c': "c' = c\<lparr>cl_acc := (cl_acc c)(unat p mod 2 ^ k := (t, cl_vc c t t) # cl_acc c (unat p mod 2 ^ k))\<rparr>"
  shows "hb_inv k s' c'"
proof -
  have o: "owned_pos (pcs s' u) = owned_pos (pcs s u)" for u using own by (simp add: s'(1))
  have cp: "cas_pos s' pc = cas_pos s pc" for pc by (cases pc) (simp_all add: s'(2,3))
  have "cas_pos s x = None" using own(2) by (cases x) auto
  then have cs: "cas_pos s' (pcs s' u) = Some r \<Longrightarrow> cas_pos s (pcs s u) = Some r" for u r
    unfolding cp by (cases "u = t") (simp_all add: s'(1))
  have me: "knows (cl_vc c t) ((t, cl_vc c t t) # cl_acc c (unat p mod 2 ^ k))"
    using inv own(1) by (auto simp: hb_inv_def knows_def)
  have other: "unat r mod 2 ^ k \<noteq> unat p mod 2 ^ k" if "owned_pos (pcs s u) = Some r" "u \<noteq> t" for u r
    using owned_exclusive [OF mi that(2) that(1) own(1)] .
  have "knows (cl_vc c' u) (cl_acc c' (unat r mod 2 ^ k))" if "owned_pos (pcs s u) = Some r" for u r
  proof (cases "u = t")
    case True
    with that own(1) me show ?thesis by (simp add: c')
  next
    case False
    then show ?thesis using inv that other [OF that False] by (simp add: c' hb_inv_def)
  qed
  moreover have "knows (cl_rel c' j) (cl_acc c' j)"
    if "\<forall>u r. owned_pos (pcs s u) = Some r \<longrightarrow> unat r mod 2 ^ k \<noteq> j" for j
    using inv that own(1) by (auto simp: c' hb_inv_def)
  moreover have "cl_rel c' (unat r mod 2 ^ k) \<le> cl_vc c' u" if "cas_pos s' (pcs s' u) = Some r" for u r
    using inv cs [OF that] by (simp add: c' hb_inv_def)
  ultimately show ?thesis unfolding hb_inv_def o by blast
qed

text \<open>The releasing store.\<close>

lemma hb_store:
  assumes inv: "hb_inv k s c" and mi: "mpmc_inv s k tk full" and b: "length (enq_log s) + 2 ^ k < 2 ^ 63"
    and s': "pcs s' = (pcs s)(t := x)" "enq_pos (queue s') = enq_pos (queue s)" "deq_pos (queue s') = deq_pos (queue s)"
    and own: "owned_pos (pcs s t) = Some p" "owned_pos x = None" "cas_pos s x = None"
    and c': "c' = c\<lparr>cl_rel := (cl_rel c)(unat p mod 2 ^ k := cl_vc c t), cl_vc := (cl_vc c)(t := (cl_vc c t)(t := cl_vc c t t + 1))\<rparr>"
  shows "hb_inv k s' c'"
proof -
  have cp: "cas_pos s' pc = cas_pos s pc" for pc by (cases pc) (simp_all add: s'(2,3))
  have le: "cl_vc c u \<le> cl_vc c' u" for u by (simp add: c' le_fun_def)
  have o: "u \<noteq> t \<and> owned_pos (pcs s u) = Some r" if "owned_pos (pcs s' u) = Some r" for u r
    using that own(2) by (cases "u = t") (simp_all add: s'(1))
  have "knows (cl_vc c' u) (cl_acc c' (unat r mod 2 ^ k))" if "owned_pos (pcs s' u) = Some r" for u r
  proof -
    have "knows (cl_vc c u) (cl_acc c (unat r mod 2 ^ k))" using inv o [OF that] by (simp add: hb_inv_def)
    from knows_mono [OF this le] show ?thesis by (simp add: c')
  qed
  moreover have "knows (cl_rel c' j) (cl_acc c' j)"
    if "\<forall>u r. owned_pos (pcs s' u) = Some r \<longrightarrow> unat r mod 2 ^ k \<noteq> j" for j
  proof (cases "j = unat p mod 2 ^ k")
    case True
    then show ?thesis using inv own(1) by (simp add: c' hb_inv_def)
  next
    case False
    then have "\<forall>u r. owned_pos (pcs s u) = Some r \<longrightarrow> unat r mod 2 ^ k \<noteq> j"
      using that own(1) by (metis fun_upd_apply option.inject s'(1))
    then show ?thesis using inv False by (simp add: c' hb_inv_def)
  qed
  moreover have "cl_rel c' (unat r mod 2 ^ k) \<le> cl_vc c' u" if "cas_pos s' (pcs s' u) = Some r" for u r
  proof -
    have u: "cas_pos s (pcs s u) = Some r" using that own(3) unfolding cp by (cases "u = t") (simp_all add: s'(1))
    then have "unat r mod 2 ^ k \<noteq> unat p mod 2 ^ k" using cas_unowned [OF mi b u own(1)] by simp
    then have "cl_rel c' (unat r mod 2 ^ k) \<le> cl_vc c u" using inv u by (simp add: c' hb_inv_def)
    then show ?thesis using le by (rule order_trans)
  qed
  ultimately show ?thesis unfolding hb_inv_def by blast
qed

lemma thread_step_pos:
  assumes "thread_step sp q pc = Some (q', x)" "\<forall>v p. pc \<noteq> EnqCas v p" "\<forall>p. pc \<noteq> DeqCas p"
  shows "enq_pos q' = enq_pos q" "deq_pos q' = deq_pos q"
  using assms by (cases pc; auto simp: Let_def split: if_splits)+

lemma hb_run:
  assumes inv: "hb_inv k s c" and mi: "mpmc_inv s k tk full" and b: "length (enq_log s) + 2 ^ k < 2 ^ 63"
    and st: "thread_step sp (queue s) (pcs s t) = Some (q', x)"
    and s': "queue s' = q'" "pcs s' = (pcs s)(t := x)"
    and c': "c' = apply_access (cell_ix (queue s)) t (access_of (pcs s t)) c"
  shows "hb_inv k s' c'"
proof -
  have ix: "cell_ix (queue s) p = unat p mod 2 ^ k" for p using mi by (intro cell_ix_mod) (simp add: mpmc_inv_def)
  have e: "unat (enq_pos (queue s)) = length (enq_log s)" using mi b by (simp add: mpmc_inv_def unat_of_nat_u64)
  have d: "unat (deq_pos (queue s)) \<le> length (enq_log s)" using mi by (simp add: mpmc_inv_def)
  note free = hb_free [OF inv s'(2)] and same = thread_step_pos [OF st, folded s'(1)]
  note pos = inv_pc [OF mi]
  show ?thesis
  proof (cases "pcs s t")
    case (EnqSeq v p)
    show ?thesis using same EnqSeq st by (intro free) (auto simp: c' ix le_fun_def Let_def split: if_splits)
  next
    case (DeqSeq p)
    show ?thesis using same DeqSeq st by (intro free) (auto simp: c' ix le_fun_def Let_def split: if_splits)
  next
    case (EnqWrite v p)
    show ?thesis using same EnqWrite st by (intro hb_value [OF inv mi s'(2)]) (auto simp: c' ix)
  next
    case (DeqRead p)
    show ?thesis using same DeqRead st by (intro hb_value [OF inv mi s'(2)]) (auto simp: c' ix)
  next
    case (EnqStore v p)
    show ?thesis using same EnqStore st by (intro hb_store [OF inv mi b s'(2)]) (auto simp: c' ix)
  next
    case (DeqStore p v)
    show ?thesis using same DeqStore st by (intro hb_store [OF inv mi b s'(2)]) (auto simp: c' ix)
  next
    case (EnqCas v p)
    show ?thesis
    proof (cases "enq_pos (queue s) = p \<and> \<not> sp")
      case False
      then show ?thesis by (intro free) (use EnqCas st s'(1) in \<open>auto simp: c'\<close>)
    next
      case True
      then have q: "enq_pos q' = p + 1" "deq_pos q' = deq_pos (queue s)" "x = EnqWrite v p" using st EnqCas by auto
      have "unat (p + 1) = Suc (unat p)" using pos_inc_small(1) [OF _ b, of p] True e by simp
      then have "cas_pos s (pcs s u) = Some r" if "cas_pos s' (pcs s u) = Some r" for u r
        using that pos [of u] q s'(1) True e by (cases "pcs s u") (auto split: if_splits)
      then have "hb_inv k s' c" using True EnqCas q by (intro hb_win [OF inv mi b s'(2)]) auto
      then show ?thesis using EnqCas by (simp add: c')
    qed
  next
    case (DeqCas p)
    show ?thesis
    proof (cases "deq_pos (queue s) = p \<and> \<not> sp")
      case False
      then show ?thesis by (intro free) (use DeqCas st s'(1) in \<open>auto simp: c'\<close>)
    next
      case True
      then have q: "deq_pos q' = p + 1" "enq_pos q' = enq_pos (queue s)" "x = DeqRead p" using st DeqCas by auto
      have "unat (p + 1) = Suc (unat p)" using pos_inc_small(1) [OF _ b, of p] True d by simp
      then have "cas_pos s (pcs s u) = Some r" if "cas_pos s' (pcs s u) = Some r" for u r
        using that pos [of u] q s'(1) True by (cases "pcs s u") (auto split: if_splits)
      then have "hb_inv k s' c" using True DeqCas q by (intro hb_win [OF inv mi b s'(2)]) auto
      then show ?thesis using DeqCas by (simp add: c')
    qed
  qed (use st s'(1) in \<open>auto simp: c' intro!: free\<close>)
qed

lemma hb_inv_step:
  assumes inv: "hb_inv k s c" and mi: "mpmc_inv s k tk full" and b: "length (enq_log s) + 2 ^ k < 2 ^ 63"
    and st: "hb_step a (s, c) = Some (s', c')"
  shows "hb_inv k s' c'"
proof (cases a)
  case (Run t sp)
  with st obtain q' x where "thread_step sp (queue s) (pcs s t) = Some (q', x)" "queue s' = q'" "pcs s' = (pcs s)(t := x)"
    "c' = apply_access (cell_ix (queue s)) t (access_of (pcs s t)) c" by (auto split: option.splits)
  then show ?thesis by (rule hb_run [OF inv mi b])
next
  case (CallEnq t v)
  with st have "pcs s t = Ready" "s' = s\<lparr>pcs := (pcs s)(t := EnqLoad v)\<rparr>" "c' = c" by (auto split: pc.splits)
  then show ?thesis by (intro hb_free [OF inv, of s' t "EnqLoad v"]) simp_all
next
  case (CallDeq t)
  with st have "pcs s t = Ready" "s' = s\<lparr>pcs := (pcs s)(t := DeqLoad)\<rparr>" "c' = c" by (auto split: pc.splits)
  then show ?thesis by (intro hb_free [OF inv, of s' t DeqLoad]) simp_all
next
  case (Return t)
  with st have r: "is_ret (pcs s t)" "s' = s\<lparr>pcs := (pcs s)(t := Ready)\<rparr>" "c' = c" by (auto split: if_splits)
  then have "owned_pos (pcs s t) = None" by (cases "pcs s t") auto
  with r show ?thesis by (intro hb_free [OF inv, of s' t Ready]) simp_all
qed

lemma reachable_hb_inv:
  assumes n: "MPMCQueue_new dflt cap = Some q" "2 \<le> unat cap" and r: "hb_reachable q s c"
    and b: "length (enq_log s) + unat cap < 2 ^ 63" and k: "unat cap = 2 ^ k"
  shows "hb_inv k s c"
  using r b
proof (induction rule: hb_reachable.induct)
  case start
  show ?case by (simp add: hb_inv_def mpmc_init_def clocks_init_def knows_def)
next
  case (step s c a s' c')
  have "mpmc_step s s'" using step.hyps(2) by (auto intro: sys_step_sound)
  from step_log_mono [OF this] step.prems have b0: "length (enq_log s) + unat cap < 2 ^ 63" by linarith
  have "mpmc_reachable q s" using step.hyps(1) hb_reachable_sys by blast
  from reachable_facts [OF n this b0] obtain k' tk full where f: "unat cap = 2 ^ k'" "mpmc_inv s k' tk full" by metis
  then have "k' = k" using k by (metis one_less_numeral_iff power_inject_exp semiring_norm(76))
  with f(2) have mi: "mpmc_inv s k tk full" by simp
  show ?case by (rule hb_inv_step [OF step.IH [OF b0] mi _ step.hyps(2)]) (use b0 k in simp)
qed

subsection \<open>Properties\<close>

text \<open>C4. The memory orders of the queue suffice. In every interleaving, two threads between winning their position and
  publishing their cell work on different cells; and when a thread is about to write or to read the value
  of a cell, each earlier access to the value of this cell, by whatever thread, happens before: it is ordered by the release
  and acquire of sequence numbers and the order inside the threads alone (the positions are relaxed). So the plain
  accesses to \<open>cell->value\<close> are not a data race (capacity at least two, fewer than \<open>2 ^ 63\<close> positions used). The clocks do not
  restrict the interleavings.\<close>

theorem mpmc_happens_before:
  assumes "MPMCQueue_new dflt cap = Some q" "2 \<le> unat cap" "mpmc_reachable q s" "length (enq_log s) + unat cap < 2 ^ 63"
  shows "(\<exists>c. hb_reachable q s c) \<and>
    (\<forall>c t p u n. hb_reachable q s c \<and> access_of (pcs s t) = ValueAt p \<and> (u, n) \<in> set (cl_acc c (cell_ix (queue s) p)) \<longrightarrow>
      n \<le> cl_vc c t u) \<and>
    (\<forall>t u p r. t \<noteq> u \<and> owned_pos (pcs s t) = Some p \<and> owned_pos (pcs s u) = Some r \<longrightarrow>
      cell_ix (queue s) p \<noteq> cell_ix (queue s) r)"
proof (intro conjI allI impI)
  show "cell_ix (queue s) p \<noteq> cell_ix (queue s) r"
    if "t \<noteq> u \<and> owned_pos (pcs s t) = Some p \<and> owned_pos (pcs s u) = Some r" for t u p r
    using mpmc_no_race [OF assms] that by blast
  show "\<exists>c. hb_reachable q s c" using assms(3) hb_reachable_sys by blast
  fix c t p u n
  assume a: "hb_reachable q s c \<and> access_of (pcs s t) = ValueAt p \<and> (u, n) \<in> set (cl_acc c (cell_ix (queue s) p))"
  from reachable_facts [OF assms] obtain k tk full where k: "unat cap = 2 ^ k" "mpmc_inv s k tk full" by metis
  have "hb_inv k s c" using reachable_hb_inv [OF assms(1,2) _ assms(4) k(1)] a by blast
  moreover have "owned_pos (pcs s t) = Some p" using a by (cases "pcs s t") auto
  moreover have "cell_ix (queue s) p = unat p mod 2 ^ k" using k(2) by (intro cell_ix_mod) (simp add: mpmc_inv_def)
  ultimately show "n \<le> cl_vc c t u" using a unfolding hb_inv_def knows_def by fastforce
qed

text \<open>Thread 0 enqueues 7, then thread 1 has won the cell and is about to read it.\<close>

fun run_hb :: "'a action list \<Rightarrow> 'a sys \<times> clocks \<Rightarrow> ('a sys \<times> clocks) option" where
  "run_hb [] h = Some h"
| "run_hb (a # as) h = (case hb_step a h of None \<Rightarrow> None | Some h' \<Rightarrow> run_hb as h')"

lemma run_hb_reachable: "hb_reachable q (fst h) (snd h) \<Longrightarrow> run_hb as h = Some h' \<Longrightarrow> hb_reachable q (fst h') (snd h')"
proof (induction as arbitrary: h)
  case (Cons a as)
  from Cons.prems(2) obtain h1 where h1: "hb_step a h = Some h1" "run_hb as h1 = Some h'" by (auto split: option.splits)
  have "hb_reachable q (fst h1) (snd h1)" by (rule hb_reachable.step [OF Cons.prems(1)]) (use h1(1) in simp)
  from Cons.IH [OF this h1(2)] show ?case .
qed simp

definition handoff :: "u64 action list" where
  "handoff = [CallEnq 0 7] @ replicate 5 (Run 0 False) @ [Return 0, CallDeq 1] @ replicate 3 (Run 1 False)"

definition handoff_state :: "u64 sys \<times> clocks" where
  "handoff_state = the (run_hb handoff (mpmc_init two_cells, clocks_init))"

lemma handoff_state_eq:
  "run_hb handoff (mpmc_init two_cells, clocks_init) = Some handoff_state"
  "access_of (pcs (fst handoff_state) 1) = ValueAt 0" "enq_log (fst handoff_state) = [7]"
  "cell_ix (queue (fst handoff_state)) 0 = 0" "cl_acc (snd handoff_state) 0 = [(0, 1)]"
  by (simp_all add: handoff_state_def handoff_def clocks_init_def sched_simps)

theorem mpmc_happens_before_witness:
  "hb_reachable two_cells (fst handoff_state) (snd handoff_state) \<and> access_of (pcs (fst handoff_state) 1) = ValueAt 0 \<and>
    (0, 1) \<in> set (cl_acc (snd handoff_state) 0) \<and> 1 \<le> cl_vc (snd handoff_state) 1 0"
proof -
  have r: "hb_reachable two_cells (fst handoff_state) (snd handoff_state)"
    by (rule run_hb_reachable [OF _ handoff_state_eq(1)]) (simp add: hb_reachable.start)
  then have "mpmc_reachable two_cells (fst handoff_state)" using hb_reachable_sys by blast
  from mpmc_happens_before [OF two_cells_new _ this, THEN conjunct2, THEN conjunct1] have
    "\<forall>c t p u n. hb_reachable two_cells (fst handoff_state) c \<and> access_of (pcs (fst handoff_state) t) = ValueAt p \<and>
      (u, n) \<in> set (cl_acc c (cell_ix (queue (fst handoff_state)) p)) \<longrightarrow> n \<le> cl_vc c t u"
    using handoff_state_eq(3) by auto
  moreover have "(0, 1) \<in> set (cl_acc (snd handoff_state) (cell_ix (queue (fst handoff_state)) 0))"
    using handoff_state_eq(4,5) by simp
  ultimately have "1 \<le> cl_vc (snd handoff_state) 1 0" using r handoff_state_eq(2) by blast
  then show ?thesis using r handoff_state_eq(2,5) by simp
qed

end
