(* ===== verification/BTree_Destroy.thy ===== *)
theory BTree_Destroy
  imports BTree_Adapter
begin

text \<open>
  The destructor of the built-in B+tree (\<^verbatim>\<open>~BPlusTree\<close>, \<^verbatim>\<open>destroy\<close> of \<^verbatim>\<open>index.hpp\<close>) over the explicit heap
  of \<open>BPlus_Tree\<close>. The state is the list of the addresses freed so far; reading a node that is not allocated
  or already freed, and freeing it again, has no result. Bulk load puts every node it allocates into exactly one place of
  the tree, and the writes keep the shape, so the destructor frees the nodes of the load each once.
\<close>

text \<open>\<^verbatim>\<open>destroy\<close>, with the counter of its loop over the children: \<open>destroy h (Some a) i fr\<close> is the call for the
  node \<open>a\<close> from the iteration \<open>i\<close> on.\<close>

partial_function (option) destroy :: "heap \<Rightarrow> nat option \<Rightarrow> nat \<Rightarrow> nat list \<Rightarrow> nat list option" where
  "destroy h node i fr =
     (case node of None \<Rightarrow> Some fr
      | Some a \<Rightarrow>
          if a \<ge> length h \<or> a \<in> set fr then None
          else if \<not> is_leaf (h ! a) \<and> i \<le> num (h ! a)
          then Option.bind (destroy h (children (h ! a) ! i) 0 fr) (destroy h (Some a) (i + 1))
          else Some (fr @ [a]))"

definition BPlusTree_delete :: "BPlusTree \<Rightarrow> nat list option" where
  "BPlusTree_delete t = destroy (nodes t) (root t) 0 []"

definition bt_bytes :: "BPlusTree \<Rightarrow> u64" where
  "bt_bytes t = of_nat (node_count t) * 264"

subsection \<open>The addresses of a subtree\<close>

text \<open>In the order in which they are freed.\<close>

fun addrs :: "heap \<Rightarrow> nat \<Rightarrow> nat \<Rightarrow> nat list" where
  "addrs h 0 a = [a]"
| "addrs h (Suc d) a = concat (map (addrs h d) (kids (h ! a))) @ [a]"

lemma same_shape_addrs: "same_shape h h' \<Longrightarrow> wf_tree h d a \<Longrightarrow> addrs h' d a = addrs h d a"
proof (induction d arbitrary: a)
  case (Suc d)
  then have "kids (h' ! a) = kids (h ! a)" by (intro same_shape_leaf(4)) simp_all
  moreover have "\<forall>c \<in> set (kids (h ! a)). addrs h' d c = addrs h d c" using Suc by simp
  ultimately show ?case by (simp cong: map_cong)
qed simp

lemma concat_addrs_append: "\<forall>c \<in> set cs. wf_tree h d c \<Longrightarrow> concat (map (addrs (h @ hs) d) cs) = concat (map (addrs h d) cs)"
  using same_shape_addrs [OF same_shape_append] by (metis map_cong)

lemma addrs_new_inner:
  assumes "cs \<noteq> []" "length cs \<le> FANOUT + 1" "\<forall>c \<in> set cs. wf_tree h d c"
    and nd: "num nd = length cs - 1" "children nd = blit (map Some cs) (children Node_init)"
  shows "addrs (h @ [nd]) (Suc d) (length h) = concat (map (addrs h d) cs) @ [length h]"
proof -
  have "kids nd = cs" using assms by (simp add: kids_def blit_def o_def)
  then show ?thesis using concat_addrs_append [OF assms(3)] by simp
qed

subsection \<open>Bulk load allocates the tree\<close>

lemma build_leaves_addrs:
  "build_leaves ks vs i h prev level = (h', level') \<Longrightarrow> length h \<le> length h' \<and> level' = level @ [length h..<length h']"
proof (induction ks vs i h prev level rule: build_leaves.induct)
  case (1 ks vs i h prev level)
  show ?case
  proof (cases "i < length ks")
    case False
    with 1(2) show ?thesis by (simp add: build_leaves.simps [of ks vs i])
  next
    case True
    define h2 where "h2 = (case prev of None \<Rightarrow> h @ [Node_init\<lparr>is_leaf := True, num := min FANOUT (length ks - i),
        keys := blit (take (min FANOUT (length ks - i)) (drop i ks)) (keys Node_init),
        vals := blit (take (min FANOUT (length ks - i)) (drop i vs)) (vals Node_init), next_leaf := None\<rparr>]
      | Some p \<Rightarrow> (h @ [Node_init\<lparr>is_leaf := True, num := min FANOUT (length ks - i),
        keys := blit (take (min FANOUT (length ks - i)) (drop i ks)) (keys Node_init),
        vals := blit (take (min FANOUT (length ks - i)) (drop i vs)) (vals Node_init), next_leaf := None\<rparr>])
          [p := ((h @ [Node_init\<lparr>is_leaf := True, num := min FANOUT (length ks - i),
        keys := blit (take (min FANOUT (length ks - i)) (drop i ks)) (keys Node_init),
        vals := blit (take (min FANOUT (length ks - i)) (drop i vs)) (vals Node_init), next_leaf := None\<rparr>]) ! p)
            \<lparr>next_leaf := Some (length h)\<rparr>])"
    have len: "length h2 = Suc (length h)" by (simp add: h2_def split: option.split)
    have "build_leaves ks vs (i + FANOUT) h2 (Some (length h)) (level @ [length h]) = (h', level')"
      using 1(2) True by (subst (asm) build_leaves.simps) (simp add: Let_def h2_def)
    from 1(1) [OF True refl refl refl refl h2_def this] show ?thesis unfolding len
      by (auto simp: upt_conv_Cons)
  qed
qed

lemma build_parents_addrs:
  assumes "parent_level h d level i parents" "i < length level + (FANOUT + 1)" "build_parents h level i parents = Some (h', ps)"
  shows "length h \<le> length h' \<and> mset (concat (map (addrs h' (Suc d)) ps)) =
    mset (concat (map (addrs h (Suc d)) parents)) + mset (concat (map (addrs h d) (drop i level))) + mset [length h..<length h']"
  using assms
proof (induction h level i parents rule: build_parents.induct)
  case (1 h level i parents)
  show ?case
  proof (cases "i < length level")
    case False
    with 1(4) show ?thesis by (simp add: build_parents.simps [of h level i])
  next
    case True
    define cnt where "cnt = min (FANOUT + 1) (length level - i)"
    define cs where "cs = take cnt (drop i level)"
    define nd where "nd = Node_init\<lparr>is_leaf := False, num := cnt - 1,
        children := blit (map Some cs) (children Node_init),
        keys := blit (map (low h d) (drop 1 cs)) (keys Node_init), next_leaf := None\<rparr>"
    have wl: "\<forall>c \<in> set level. wf_tree h d c" and wp: "\<forall>p \<in> set parents. wf_tree h (Suc d) p"
      using 1(2) by (simp_all add: parent_level_def)
    have cs: "length cs = cnt" "cs \<noteq> []" "cnt \<le> FANOUT + 1" "\<forall>c \<in> set cs. wf_tree h d c"
      using True wl by (auto simp: cs_def cnt_def dest!: in_set_takeD in_set_dropD)
    have fk: "first_keys h (drop 1 cs) = Some (map (low h d) (drop 1 cs))"
      using cs(4) by (intro first_keys_wf) (auto dest: in_set_dropD)
    have step: "build_parents (h @ [nd]) level (i + (FANOUT + 1)) (parents @ [length h]) = Some (h', ps)"
      using True fk 1(4)
      by (subst (asm) build_parents.simps) (simp only: Let_def if_True option.case flip: cnt_def cs_def nd_def)
    have tk: "take (i + (FANOUT + 1)) level = take i level @ cs" "drop i level = cs @ drop (i + (FANOUT + 1)) level"
      using take_add [of i "FANOUT + 1" level] append_take_drop_id [of "FANOUT + 1" "drop i level"]
      by (simp_all only: cs_def cnt_def) (simp_all add: min_def add.commute)
    have "nd = Node_init\<lparr>is_leaf := False, num := length cs - 1,
        children := blit (map Some cs) (children Node_init),
        keys := blit (map (low h d) (drop 1 cs)) (keys Node_init), next_leaf := None\<rparr>"
      by (simp only: nd_def cs(1))
    note ni = new_inner [OF cs(2) _ cs(4) this, unfolded cs(1), OF cs(3)]
    have pl: "parent_level (h @ [nd]) d level (i + (FANOUT + 1)) (parents @ [length h])"
      by (intro parent_level_snoc [OF 1(2) ni]) (use tk in simp_all)
    have new: "addrs (h @ [nd]) (Suc d) (length h) = concat (map (addrs h d) cs) @ [length h]"
      by (rule addrs_new_inner) (use cs in \<open>simp_all add: nd_def\<close>)
    have old: "concat (map (addrs (h @ [nd]) (Suc d)) parents) = concat (map (addrs h (Suc d)) parents)"
      "concat (map (addrs (h @ [nd]) d) (drop (i + (FANOUT + 1)) level)) = concat (map (addrs h d) (drop (i + (FANOUT + 1)) level))"
      using wl wp by (auto intro!: concat_addrs_append dest: in_set_dropD)
    from 1(1) [OF True refl cnt_def cs_def fk nd_def pl _ step] True
    have "length (h @ [nd]) \<le> length h' \<and> mset (concat (map (addrs h' (Suc d)) ps)) =
      mset (concat (map (addrs (h @ [nd]) (Suc d)) (parents @ [length h]))) +
      mset (concat (map (addrs (h @ [nd]) d) (drop (i + (FANOUT + 1)) level))) + mset [length (h @ [nd])..<length h']" by (simp del: addrs.simps)
    then show ?thesis unfolding tk(2) map_append concat_append mset_append old
      using new by (simp add: upt_conv_Cons del: addrs.simps)
  qed
qed

lemma build_levels_addrs:
  assumes "level \<noteq> []" "\<forall>c \<in> set level. wf_tree h d c"
  shows "\<exists>hs r d'. build_levels h level = Some (h @ hs, [r]) \<and> wf_tree (h @ hs) d' r \<and>
    mset (addrs (h @ hs) d' r) = mset (concat (map (addrs h d) level)) + mset [length h..<length (h @ hs)]"
  using assms
proof (induction "length level" arbitrary: level h d rule: less_induct)
  case less
  show ?case
  proof (cases "length level > 1")
    case False
    then obtain r where "level = [r]" using less.prems(1) by (cases level) auto
    with less.prems show ?thesis by (subst build_levels.simps) auto
  next
    case True
    have pl: "parent_level h d level 0 []" using less.prems by (simp add: parent_level_def)
    from build_parents_spec [OF this] obtain hs ps j where p:
      "build_parents h level 0 [] = Some (h @ hs, ps)" "parent_level (h @ hs) d level j ps"
      "length level \<le> j" "j < length level + (FANOUT + 1)" by auto
    have "j = 16 * length ps" using p(2) by (simp add: parent_level_def FANOUT_def)
    then have bounds: "ps \<noteq> []" "length ps < length level" using p(3,4) True by (auto simp: FANOUT_def)
    have wp: "\<forall>p \<in> set ps. wf_tree (h @ hs) (Suc d) p" using p(2) by (simp add: parent_level_def)
    from less.hyps [OF bounds(2,1) wp] obtain hs' r d' where IH:
      "build_levels (h @ hs) ps = Some ((h @ hs) @ hs', [r])" "wf_tree ((h @ hs) @ hs') d' r"
      "mset (addrs ((h @ hs) @ hs') d' r) = mset (concat (map (addrs (h @ hs) (Suc d)) ps)) +
        mset [length (h @ hs)..<length ((h @ hs) @ hs')]" by blast
    from build_parents_addrs [OF pl _ p(1)] have "mset (concat (map (addrs (h @ hs) (Suc d)) ps)) =
      mset (concat (map (addrs h d) level)) + mset [length h..<length (h @ hs)]" by simp
    moreover have "[length h..<length (h @ hs)] @ [length (h @ hs)..<length (h @ hs @ hs')] = [length h..<length (h @ hs @ hs')]"
      by (rule upt_join) simp_all
    then have "mset [length h..<length (h @ hs)] + mset [length (h @ hs)..<length (h @ hs @ hs')] =
      mset [length h..<length (h @ hs @ hs')]" by (metis mset_append)
    ultimately have "mset (addrs (h @ (hs @ hs')) d' r) = mset (concat (map (addrs h d) level)) + mset [length h..<length (h @ (hs @ hs'))]"
      using IH(3) by (simp only: append_assoc add.assoc)
    moreover have "build_levels h level = Some (h @ (hs @ hs'), [r])"
      using True p(1) IH(1) by (subst build_levels.simps) simp
    ultimately show ?thesis using IH(2) by (metis append_assoc)
  qed
qed

text \<open>A tree that owns the addresses \<open>A\<close>: each is the place of one node.\<close>

definition owns :: "BPlusTree \<Rightarrow> nat set \<Rightarrow> bool" where
  "owns t A \<longleftrightarrow> (case root t of None \<Rightarrow> A = {}
     | Some a \<Rightarrow> \<exists>d. wf_tree (nodes t) d a \<and> distinct (addrs (nodes t) d a) \<and> set (addrs (nodes t) d a) = A)"

lemma bulk_load_owns:
  assumes "length ks = length vs" "bulk_load ks vs t = Some t'"
  shows "owns t' {length (nodes t)..<length (nodes t')} \<and> length (nodes t) \<le> length (nodes t') \<and>
    node_count t' = node_count t + (length (nodes t') - length (nodes t))"
proof -
  obtain h level where bl: "build_leaves ks vs 0 (nodes t) None [] = (h, level)" by fastforce
  from build_leaves_addrs [OF bl] have lv: "length (nodes t) \<le> length h" "level = [length (nodes t)..<length h]" by simp_all
  have "leaf_level (nodes t) [] 0 ks vs None" by (simp add: leaf_level_def)
  from build_leaves_spec [OF this assms(1) _ bl] have wf: "\<forall>l \<in> set level. wf_tree h 0 l"
    by (auto simp: FANOUT_def leaf_level_def)
  show ?thesis
  proof (cases "level = []")
    case True
    moreover have "build_levels h [] = Some (h, [])" by (subst build_levels.simps) simp
    ultimately have "t' = t\<lparr>root := None, nodes := h, node_count := node_count t + (length h - length (nodes t))\<rparr>"
      using assms bl by (simp add: bulk_load_def)
    with True lv show ?thesis by (auto simp: owns_def)
  next
    case False
    from build_levels_addrs [OF this wf] obtain hs r d where b:
      "build_levels h level = Some (h @ hs, [r])" "wf_tree (h @ hs) d r"
      "mset (addrs (h @ hs) d r) = mset (concat (map (addrs h 0) level)) + mset [length h..<length (h @ hs)]" by blast
    have "concat (map (addrs h 0) level) = level" by (induction level) simp_all
    moreover have "level @ [length h..<length (h @ hs)] = [length (nodes t)..<length (h @ hs)]"
      unfolding lv(2) by (rule upt_join) (use lv(1) in simp_all)
    ultimately have m: "mset (addrs (h @ hs) d r) = mset [length (nodes t)..<length (h @ hs)]"
      using b(3) by (metis mset_append)
    have t': "root t' = Some r" "nodes t' = h @ hs" "node_count t' = node_count t + (length (h @ hs) - length (nodes t))"
      using assms bl b(1) by (auto simp: bulk_load_def)
    have "distinct (addrs (h @ hs) d r)" using m by (metis distinct_upt mset_eq_imp_distinct_iff)
    moreover have "set (addrs (h @ hs) d r) = {length (nodes t)..<length (h @ hs)}" using mset_eq_setD [OF m] by simp
    ultimately show ?thesis using b(2) t' lv(1) by (auto simp: owns_def)
  qed
qed

lemma update_owns:
  assumes "owns t A" "update k v t = Some (t', b)"
  shows "owns t' A \<and> node_count t' = node_count t \<and> length (nodes t') = length (nodes t)"
proof -
  have "root t' = root t" "same_shape (nodes t) (nodes t')" "node_count t' = node_count t" "length (nodes t') = length (nodes t)"
    using assms(2) same_shape_vals [of "(vals (nodes t ! a))[i := v]" "nodes t" a for a i] same_shape_append [of "nodes t" "[]"]
    by (auto simp: update_def Let_def split: option.splits)
  moreover have "wf_tree (nodes t') d a \<and> addrs (nodes t') d a = addrs (nodes t) d a" if "wf_tree (nodes t) d a" for d a
    using same_shape_tree [OF calculation(2) that] same_shape_addrs [OF calculation(2) that] by simp
  ultimately show ?thesis using assms(1) by (auto simp: owns_def split: option.splits) metis
qed

subsection \<open>The destructor\<close>

lemma destroy_loop:
  assumes a: "a < length h" "inner_ok (h ! a)" and kd: "length (kids (h ! a)) = Suc (num (h ! a))"
    and IH: "\<And>c fr. c \<in> set (kids (h ! a)) \<Longrightarrow> distinct (fr @ addrs h d c) \<Longrightarrow> destroy h (Some c) 0 fr = Some (fr @ addrs h d c)"
  shows "i \<le> Suc (num (h ! a)) \<Longrightarrow> distinct (fr @ concat (map (addrs h d) (drop i (kids (h ! a)))) @ [a]) \<Longrightarrow>
    destroy h (Some a) i fr = Some (fr @ concat (map (addrs h d) (drop i (kids (h ! a)))) @ [a])"
proof (induction "Suc (num (h ! a)) - i" arbitrary: i fr)
  case 0
  then show ?case using a kd by (subst destroy.simps) (simp add: inner_ok_def)
next
  case (Suc n)
  let ?c = "kids (h ! a) ! i"
  have i: "i \<le> num (h ! a)" "i < length (kids (h ! a))" using Suc.hyps(2) kd by simp_all
  have dr: "drop i (kids (h ! a)) = ?c # drop (i + 1) (kids (h ! a))" using i(2) by (simp add: Cons_nth_drop_Suc)
  have "destroy h (Some ?c) 0 fr = Some (fr @ addrs h d ?c)"
    by (rule IH) (use i(2) Suc.prems(2) in \<open>auto simp: dr\<close>)
  moreover have "destroy h (Some a) (i + 1) (fr @ addrs h d ?c) =
      Some ((fr @ addrs h d ?c) @ concat (map (addrs h d) (drop (i + 1) (kids (h ! a)))) @ [a])"
    by (rule Suc.hyps(1)) (use Suc.hyps(2) Suc.prems(2) i in \<open>auto simp: dr\<close>)
  moreover have "children (h ! a) ! i = Some ?c" using inner_ok_kids(2) [OF a(2) i(1)] .
  moreover have "\<not> is_leaf (h ! a)" "a \<notin> set fr" using a(2) Suc.prems(2) by (auto simp: inner_ok_def)
  ultimately show ?case using a(1) i(1) by (subst destroy.simps) (simp add: dr)
qed

lemma destroy_tree:
  "wf_tree h d a \<Longrightarrow> distinct (fr @ addrs h d a) \<Longrightarrow> destroy h (Some a) 0 fr = Some (fr @ addrs h d a)"
proof (induction d arbitrary: a fr)
  case 0
  then show ?case by (subst destroy.simps) (simp add: leaf_ok_def)
next
  case (Suc d)
  then have "a < length h" "inner_ok (h ! a)" by simp_all
  from destroy_loop [OF this inner_ok_kids(1) [OF this(2)], of d 0 fr] Suc show ?case by simp
qed

lemma delete_owns:
  assumes "owns t A" "finite A"
  shows "\<exists>fr. BPlusTree_delete t = Some fr \<and> distinct fr \<and> set fr = A"
proof (cases "root t")
  case None
  then show ?thesis using assms by (simp add: owns_def BPlusTree_delete_def destroy.simps)
next
  case (Some a)
  with assms obtain d where "wf_tree (nodes t) d a" "distinct (addrs (nodes t) d a)" "set (addrs (nodes t) d a) = A"
    by (auto simp: owns_def)
  with destroy_tree [of "nodes t" d a "[]"] Some show ?thesis by (simp add: BPlusTree_delete_def)
qed

lemma bt_reachable_owns:
  assumes "bt_reachable ks vs t" "length ks = length vs"
  shows "owns t {..<length (nodes t)} \<and> node_count t = length (nodes t)"
  using assms
proof (induction rule: bt_reachable.induct)
  case (loaded t)
  then have "bulk_load (map (\<lambda>i. ks ! i) (cosort ks)) (map (\<lambda>i. vs ! i) (cosort ks)) BPlusTree_new = Some t"
    by (simp add: bt_bulk_load_def Let_def split: if_splits)
  from bulk_load_owns [OF _ this] show ?case by (simp add: BPlusTree_new_def atLeast0LessThan)
next
  case (updated t k v t' b)
  then show ?case using update_owns [OF _ updated.hyps(2), of "{..<length (nodes t)}"] by simp
next
  case (removed t k t' b)
  then show ?case using update_owns [of t "{..<length (nodes t)}" k 0 t' b] by (simp add: remove_def)
qed

text \<open>C15. The destructor of a loaded B+tree, after any history of updates and removals, returns; it reads no freed
  node, frees no node twice, and frees every node that was allocated: as many as the tree counted.\<close>

theorem btree_delete_exact:
  assumes "length ks = length vs" "bt_reachable ks vs t"
  shows "\<exists>fr. BPlusTree_delete t = Some fr \<and> distinct fr \<and> set fr = {..<length (nodes t)} \<and> length fr = node_count t"
proof -
  from bt_reachable_owns [OF assms(2,1)] have o: "owns t {..<length (nodes t)}" "node_count t = length (nodes t)" by simp_all
  from delete_owns [OF o(1)] obtain fr where fr: "BPlusTree_delete t = Some fr" "distinct fr" "set fr = {..<length (nodes t)}"
    by auto
  then have "length fr = length (nodes t)" by (metis card_lessThan distinct_card)
  with fr o(2) show ?thesis by auto
qed

theorem btree_delete_exact_witness:
  "\<exists>t t' fr. bt_bulk_load (map of_nat [0..<40]) (map of_nat [0..<40]) BPlusTree_new = Some t \<and> update 7 70 t = Some (t', True) \<and>
    BPlusTree_delete t' = Some fr \<and> distinct fr \<and> set fr = {..<length (nodes t')}"
proof -
  let ?ks = "map of_nat [0..<40] :: idx_key_t list"
  have d: "distinct ?ks" by (auto simp: distinct_map unat_of_nat_u64 intro!: inj_on_inverseI [of _ unat])
  from bt_load_holds [OF d, of ?ks BPlusTree_new] obtain t where t: "bt_bulk_load ?ks ?ks BPlusTree_new = Some t" by auto
  from bt_reachable_rel [OF bt_reachable.loaded [OF t] d] obtain m where m: "bt_rel t m" "dom m = set ?ks" by auto
  have "7 \<in> set ?ks" by (simp add: image_iff) (intro bexI [of _ 7]; simp)
  then have "m 7 \<noteq> None" using m(2) by blast
  moreover from bt_update_law [OF m(1), of 7 70] obtain t' where "update 7 70 t = Some (t', m 7 \<noteq> None)" by blast
  ultimately have t': "update 7 70 t = Some (t', True)" by simp
  from btree_delete_exact [OF refl bt_reachable.updated [OF bt_reachable.loaded [OF t] t']] t t' show ?thesis by blast
qed

end
