(* ===== verification/Text_Output.thy ===== *)
theory Text_Output
  imports Bench_Report
begin

text \<open>
  The text the driver prints. \<^verbatim>\<open>printf\<close>'s conversions on the values of the model: decimal integers, doubles in
  fixed notation (\<^verbatim>\<open>%.Nf\<close>: the nearest decimal, ties to even, as the C library rounds the exact value), padding;
  the line of the CSV output (\<^verbatim>\<open>emit_csv\<close>), and \<^verbatim>\<open>format_ns\<close> of \<^verbatim>\<open>bench.cpp\<close>. The numbers read back within half a unit
  of their last digit, and the line splits into its fields.
\<close>

subsection \<open>Conversions\<close>

definition fmt_u :: "u64 \<Rightarrow> string" where
  "fmt_u v = to_string (unat v)"

definition fmt_d :: "int \<Rightarrow> string" where
  "fmt_d i = (if i < 0 then ''-'' else []) @ to_string (nat \<bar>i\<bar>)"

definition fmt_f :: "nat \<Rightarrow> real \<Rightarrow> string" where
  "fmt_f d x =
     (let n = nat (rne (\<bar>x\<bar> * 10 ^ d)); fp = to_string (n mod 10 ^ d)
      in (if x < 0 then ''-'' else []) @ to_string (n div 10 ^ d) @
         (if d = 0 then [] else ''.'' @ replicate (d - length fp) (CHR ''0'') @ fp))"

definition pad_left :: "nat \<Rightarrow> string \<Rightarrow> string" where
  "pad_left w s = replicate (w - length s) (CHR '' '') @ s"

definition pad_right :: "nat \<Rightarrow> string \<Rightarrow> string" where
  "pad_right w s = s @ replicate (w - length s) (CHR '' '')"

text \<open>\<^verbatim>\<open>snprintf\<close> into a buffer of \<open>n\<close> characters, the last for the terminating zero.\<close>

definition snprintf :: "nat \<Rightarrow> string \<Rightarrow> string" where
  "snprintf n s = take (n - 1) s"

definition format_ns :: "real \<Rightarrow> string" where
  "format_ns ns = snprintf 64
     (if ns < 1000 then fmt_f 0 ns @ '' ns''
      else if ns < 1000 * 1000 then fmt_f 2 (fl (ns / 1000)) @ '' us''
      else if ns < 1000 * 1000 * 1000 then fmt_f 2 (fl (ns / 10 ^ 6)) @ '' ms''
      else fmt_f 2 (fl (ns / 10 ^ 9)) @ '' s'')"

subsection \<open>CSV\<close>

text \<open>A field as it is printed; a percentile that is undefined has no text.\<close>

fun csv_text :: "csv_field \<Rightarrow> string option" where
  "csv_text (CStr s) = Some s"
| "csv_text (CQuoted s) = Some ([CHR 0x22] @ s @ [CHR 0x22])"
| "csv_text (CUint v) = Some (fmt_u v)"
| "csv_text (CInt i) = Some (fmt_d i)"
| "csv_text (CDbl d x) = Some (fmt_f d x)"
| "csv_text (CPct p) = map_option fmt_u p"

fun join :: "string list \<Rightarrow> string" where
  "join [] = []"
| "join [s] = s"
| "join (s # t # ss) = s @ '','' @ join (t # ss)"

definition csv_line :: "csv_field list \<Rightarrow> string option" where
  "csv_line fs = map_option join (those (map csv_text fs))"

definition csv_header_line :: string where
  "csv_header_line = join csv_header"

text \<open>Reading a line: its fields are separated by the commas outside double quotes. The first argument says
  whether a quote is open, the second is the field read so far.\<close>

fun split_csv :: "bool \<Rightarrow> string \<Rightarrow> string \<Rightarrow> string list" where
  "split_csv q cur [] = [cur]"
| "split_csv q cur (c # cs) =
     (if c = CHR 0x22 then split_csv (\<not> q) (cur @ [c]) cs
      else if c = CHR '','' \<and> \<not> q then cur # split_csv q [] cs
      else split_csv q (cur @ [c]) cs)"

definition csv_cell :: "string \<Rightarrow> string \<Rightarrow> string option" where
  "csv_cell row col = map_of (zip (split_csv False [] csv_header_line) (split_csv False [] row)) col"

subsection \<open>Digits\<close>

definition is_digit :: "char \<Rightarrow> bool" where
  "is_digit c \<longleftrightarrow> 48 \<le> (of_char c :: nat) \<and> (of_char c :: nat) \<le> 57"

lemma digit_is_digit: "d < 10 \<Longrightarrow> is_digit (digit d)"
  by (simp add: is_digit_def digit_def)

lemma to_string_chars: "\<forall>c \<in> set (to_string n). is_digit c"
proof (induction n rule: to_string.induct)
  case (1 n)
  then show ?case by (subst to_string.simps) (auto simp: digit_is_digit)
qed

lemma is_digit_simps [simp]:
  "\<not> is_digit (CHR '','')" "\<not> is_digit (CHR ''.'')" "\<not> is_digit (CHR 0x22)" "is_digit (CHR ''0'')"
  by (simp_all add: is_digit_def)

lemma to_string_length: "n < 10 ^ k \<Longrightarrow> 0 < k \<Longrightarrow> length (to_string n) \<le> k"
proof (induction k arbitrary: n)
  case (Suc k)
  show ?case
  proof (cases "n < 10")
    case False
    then have "0 < k" "n div 10 < 10 ^ k" using Suc.prems by (cases k; simp add: div_less_iff_less_mult mult.commute)+
    with Suc.IH [of "n div 10"] False show ?thesis by (subst to_string.simps) simp
  qed (simp add: to_string.simps)
qed simp

lemma digits_value_append: "digits_value (s @ t) = digits_value s * 10 ^ length t + digits_value t"
proof (induction t rule: rev_induct)
  case (snoc c t)
  then show ?case by (simp add: digits_value_def flip: append_assoc)
qed (simp add: digits_value_def)

lemma digits_value_zeros: "digits_value (replicate n (CHR ''0'')) = 0"
  by (induction n) (simp_all add: digits_value_def)

subsection \<open>Reading a number back\<close>

definition dec_value :: "string \<Rightarrow> real" where
  "dec_value s =
     (let fp = drop 1 (dropWhile (\<lambda>c. c \<noteq> CHR ''.'') s)
      in real (digits_value (takeWhile (\<lambda>c. c \<noteq> CHR ''.'') s)) + real (digits_value fp) / 10 ^ length fp)"

lemma to_string_no_dot: "\<forall>c \<in> set (to_string n). c \<noteq> CHR ''.''"
  using to_string_chars [of n] by auto

lemma dec_value_int: "dec_value (to_string n) = real n"
proof -
  let ?P = "\<lambda>c. c \<noteq> CHR ''.''"
  have tk: "takeWhile ?P (to_string n) = to_string n" "dropWhile ?P (to_string n) = []"
    using to_string_no_dot [of n] by simp_all
  show ?thesis unfolding dec_value_def tk Let_def using to_string_digits [of n] by (simp add: digits_value_def [of "[]"])
qed

lemma dec_value_frac:
  "dec_value (to_string n @ ''.'' @ fp) = real n + real (digits_value fp) / 10 ^ length fp"
  using to_string_no_dot [of n] to_string_digits [of n]
  by (simp add: dec_value_def takeWhile_append dropWhile_append Let_def)

lemma rne_close: "\<bar>of_int (rne x) - x\<bar> \<le> 1 / 2"
  by (auto simp: rne_def Let_def abs_le_iff)

lemma fmt_f_value:
  assumes "0 \<le> x"
  shows "dec_value (fmt_f d x) = real (nat (rne (x * 10 ^ d))) / 10 ^ d"
proof (cases "d = 0")
  case True
  then show ?thesis using assms by (simp add: fmt_f_def Let_def dec_value_int)
next
  case False
  define n where "n = nat (rne (x * 10 ^ d))"
  define fp where "fp = to_string (n mod 10 ^ d)"
  let ?z = "replicate (d - length fp) (CHR ''0'') @ fp"
  have "length fp \<le> d" unfolding fp_def by (rule to_string_length) (use False in simp_all)
  then have len: "length ?z = d" by simp
  have "digits_value ?z = n mod 10 ^ d"
    using to_string_digits [of "n mod 10 ^ d"] by (simp add: digits_value_append digits_value_zeros flip: fp_def)
  moreover have "fmt_f d x = to_string (n div 10 ^ d) @ ''.'' @ ?z"
    using assms False by (simp add: fmt_f_def Let_def n_def fp_def)
  ultimately have "dec_value (fmt_f d x) = real (n div 10 ^ d) + real (n mod 10 ^ d) / 10 ^ d"
    by (simp only: dec_value_frac len)
  also have "\<dots> = real (n div 10 ^ d * 10 ^ d + n mod 10 ^ d) / 10 ^ d"
    by (simp only: of_nat_add of_nat_mult of_nat_power) (simp add: add_divide_distrib)
  finally show ?thesis unfolding div_mult_mod_eq n_def .
qed

lemma fmt_f_accurate:
  assumes "0 \<le> x"
  shows "\<bar>dec_value (fmt_f d x) - x\<bar> \<le> 1 / (2 * 10 ^ d)"
proof -
  have "rne (of_int 0) \<le> rne (x * 10 ^ d)" by (rule rne_mono) (use assms in simp)
  then have "real (nat (rne (x * 10 ^ d))) = of_int (rne (x * 10 ^ d))" by (simp only: rne_of_int of_nat_nat)
  then have "dec_value (fmt_f d x) - x = (of_int (rne (x * 10 ^ d)) - x * 10 ^ d) / 10 ^ d"
    unfolding fmt_f_value [OF assms] by (simp add: diff_divide_distrib)
  then have "\<bar>dec_value (fmt_f d x) - x\<bar> = \<bar>of_int (rne (x * 10 ^ d)) - x * 10 ^ d\<bar> / 10 ^ d" by simp
  also have "\<dots> \<le> (1 / 2) / 10 ^ d" by (intro divide_right_mono rne_close) simp
  finally show ?thesis by simp
qed

lemma fmt_f_length:
  assumes "0 \<le> x" "x < 10 ^ k - 1" "0 < k"
  shows "length (fmt_f d x) \<le> k + 1 + d"
proof -
  define n where "n = nat (rne (x * 10 ^ d))"
  have "rne (x * 10 ^ d) \<le> rne (of_int ((10 ^ k - 1) * 10 ^ d))"
    by (rule rne_mono) (use assms(2) in \<open>simp add: mult_right_mono\<close>)
  then have "n \<le> (10 ^ k - 1) * 10 ^ d" unfolding rne_of_int by (simp add: n_def nat_le_iff of_nat_diff)
  then have "n div 10 ^ d \<le> 10 ^ k - 1" by (simp add: div_le_mono order_trans [OF div_le_mono])
  then have "n div 10 ^ d < 10 ^ k" by (simp add: less_eq_Suc_le [symmetric] Suc_le_eq le_less_trans)
  then have "length (to_string (n div 10 ^ d)) \<le> k" by (rule to_string_length) (rule assms(3))
  moreover have "length (to_string (n mod 10 ^ d)) \<le> d" if "d \<noteq> 0"
    by (rule to_string_length) (use that in simp_all)
  ultimately show ?thesis using assms(1) by (auto simp: fmt_f_def Let_def n_def)
qed

subsection \<open>Splitting a line\<close>

definition plain :: "string \<Rightarrow> bool" where
  "plain s \<longleftrightarrow> CHR '','' \<notin> set s \<and> CHR 0x22 \<notin> set s"

text \<open>A field without separators, or one between double quotes.\<close>

definition field_ok :: "string \<Rightarrow> bool" where
  "field_ok s \<longleftrightarrow> plain s \<or> (\<exists>t. s = [CHR 0x22] @ t @ [CHR 0x22] \<and> CHR 0x22 \<notin> set t)"

lemma split_plain: "plain s \<Longrightarrow> split_csv False cur (s @ rest) = split_csv False (cur @ s) rest"
  by (induction s arbitrary: cur) (auto simp: plain_def)

lemma split_inside: "CHR 0x22 \<notin> set s \<Longrightarrow> split_csv True cur (s @ rest) = split_csv True (cur @ s) rest"
  by (induction s arbitrary: cur) auto

lemma split_field: "field_ok s \<Longrightarrow> split_csv False cur (s @ rest) = split_csv False (cur @ s) rest"
  unfolding field_ok_def using split_plain split_inside by (auto simp: split_inside)

lemma split_join: "fs \<noteq> [] \<Longrightarrow> \<forall>f \<in> set fs. field_ok f \<Longrightarrow> split_csv False [] (join fs) = fs"
proof (induction fs rule: join.induct)
  case (2 s)
  then show ?case using split_field [of s "[]" "[]"] by simp
next
  case (3 s t ss)
  then show ?case using split_field [of s "[]" "'','' @ join (t # ss)"] by simp
qed simp

lemma digits_plain: "\<forall>c \<in> set s. is_digit c \<Longrightarrow> plain s"
  by (auto simp: plain_def)

lemma plain_append [simp]: "plain (s @ t) \<longleftrightarrow> plain s \<and> plain t"
  by (auto simp: plain_def)

lemma numbers_plain: "plain (to_string n)" "plain (fmt_u v)" "plain (fmt_d i)" "plain (fmt_f d x)"
proof -
  show n: "plain (to_string n)" for n using to_string_chars digits_plain by blast
  then show "plain (fmt_u v)" by (simp add: fmt_u_def)
  have lit: "plain ''-''" "plain ''.''" "plain []" "plain (replicate k (CHR ''0''))" for k by (auto simp: plain_def)
  then show "plain (fmt_d i)" by (simp only: fmt_d_def plain_append n split: if_split) simp
  from lit show "plain (fmt_f d x)" by (simp only: fmt_f_def Let_def plain_append n split: if_split) simp
qed

subsection \<open>The fields always have a text\<close>

lemma percentile_defined:
  assumes "0 \<le> p" "p \<le> 1 - 1 / 2 ^ 20"
  shows "\<exists>v. percentile h p = Some v"
proof (cases "h_total h = 0")
  case False
  let ?d = "double_of_u64 (h_total h)"
  have "unat (h_total h) \<le> 2 ^ 64" using unat_u64_lt [of "h_total h"] by simp
  then have "real (unat (h_total h)) \<le> real (2 ^ 64)" by (rule of_nat_mono)
  then have "real (unat (h_total h)) \<le> 2 ^ 64" by simp
  then have "?d \<le> fl (2 ^ 64)" unfolding double_of_u64_def by (rule fl_mono)
  also have "fl (2 ^ 64) = (2 :: real) ^ 64" using fl_pow [of 64] by simp
  finally have d: "0 \<le> ?d" "?d \<le> 2 ^ 64" by (simp_all add: double_of_u64_def fl_nonneg)
  have "?d * p \<le> 2 ^ 64 * (1 - 1 / 2 ^ 20)" by (rule mult_mono [OF d(2) assms(2)]) (use assms(1) in simp_all)
  then have "fl (?d * p) \<le> fl (2 ^ 64 * (1 - 1 / 2 ^ 20))" by (rule fl_mono)
  also have "fl (2 ^ 64 * (1 - 1 / 2 ^ 20)) = 2 ^ 64 * (1 - 1 / 2 ^ 20)"
    using fl_repr [of "2 ^ 64 * (1 - 1 / 2 ^ 20)" "2 ^ 20 - 1" 44] by simp
  finally have "fl (?d * p) < 2 ^ 64" by simp
  moreover have "0 \<le> fl (?d * p)" using d(1) assms(1) by (intro fl_nonneg) simp
  ultimately obtain w where "u64_of_double (fl (?d * p)) = Some w" using u64_of_double_Some by blast
  with False show ?thesis by (simp add: percentile_def Let_def)
qed (simp add: percentile_def)

lemma levels_below_one: "0 \<le> p \<Longrightarrow> p \<le> 1 - 1 / 2 ^ 20 \<Longrightarrow> 0 \<le> fl p \<and> fl p \<le> 1 - 1 / 2 ^ 20"
  using fl_mono [of p "1 - 1 / 2 ^ 20"] fl_repr [of "1 - 1 / 2 ^ 20" "2 ^ 20 - 1" "- 20"]
  by (simp add: fl_nonneg power_int_minus divide_simps)

lemma percentiles_defined:
  "\<exists>v. percentile h p50 = Some v" "\<exists>v. percentile h p99 = Some v" "\<exists>v. percentile h p999 = Some v"
  "\<exists>v. percentile h p9999 = Some v"
  using levels_below_one [of "99 / 100"] levels_below_one [of "999 / 1000"] levels_below_one [of "9999 / 10000"]
  by (auto intro!: percentile_defined simp: p50_def p99_def p999_def p9999_def)

lemma those_texts:
  "(\<And>f. f \<in> set fs \<Longrightarrow> \<exists>s. csv_text f = Some s) \<Longrightarrow> \<exists>ss. those (map csv_text fs) = Some ss \<and> map csv_text fs = map Some ss"
proof (induction fs)
  case (Cons f fs)
  then obtain s ss where "csv_text f = Some s" "those (map csv_text fs) = Some ss" "map csv_text fs = map Some ss" by force
  then show ?case by (intro exI [of _ "s # ss"]) simp
qed simp

lemma hist_fields_text:
  "f \<in> set (hist_fields h) \<Longrightarrow> \<exists>s. csv_text f = Some s \<and> plain s"
  using percentiles_defined [of h] numbers_plain by (auto simp: hist_fields_def)

lemma emit_csv_text:
  assumes "plain (dist a)" "CHR 0x22 \<notin> set (op_mix_str a)" "f \<in> set (emit_csv a bytes best)"
  shows "\<exists>s. csv_text f = Some s \<and> field_ok s"
proof -
  have ok: "plain s \<Longrightarrow> field_ok s" for s by (simp add: field_ok_def)
  have names: "plain (workload_name w)" "plain (arrival_name r)" for w r
    by (auto simp: workload_name_def arrival_name_def plain_def split: WorkloadKind.splits)
  have quoted: "field_ok ([CHR 0x22] @ op_mix_str a @ [CHR 0x22])" using assms(2) unfolding field_ok_def by blast
  have op: "\<exists>s. csv_text g = Some s \<and> plain s"
    if "g \<in> set (let h = per_op (r_h best) ! i in [CDbl 2 (mean_ns h), CPct (percentile h p99), CPct (percentile h p9999)])" for i g
    using that percentiles_defined [of "per_op (r_h best) ! i"] numbers_plain by (auto simp: Let_def)
  from assms(3) consider "f \<in> set (take 29 (emit_csv a bytes best))" | h where "f \<in> set (hist_fields h)"
    | i where "f \<in> set (let h = per_op (r_h best) ! i in [CDbl 2 (mean_ns h), CPct (percentile h p99), CPct (percentile h p9999)])"
    by (auto simp: emit_csv_def)
  then show ?thesis
  proof cases
    case 1
    then show ?thesis using ok names numbers_plain assms(1) quoted by (auto simp: emit_csv_def)
  next
    case 2
    with hist_fields_text ok show ?thesis by blast
  next
    case 3
    with op ok show ?thesis by blast
  qed
qed

lemma header_fields: "split_csv False [] csv_header_line = csv_header"
  unfolding csv_header_line_def by (rule split_join) (simp_all add: csv_eval field_ok_def plain_def)

lemma csv_line_splits:
  assumes "plain (dist a)" "CHR 0x22 \<notin> set (op_mix_str a)"
  shows "\<exists>row. csv_line (emit_csv a bytes best) = Some row \<and> map csv_text (emit_csv a bytes best) = map Some (split_csv False [] row)"
proof -
  note tx = emit_csv_text [OF assms, of _ bytes best]
  from those_texts [of "emit_csv a bytes best"] tx obtain ss where
    ss: "those (map csv_text (emit_csv a bytes best)) = Some ss" "map csv_text (emit_csv a bytes best) = map Some ss" by blast
  have "field_ok s" if "s \<in> set ss" for s
  proof -
    from that have "Some s \<in> set (map csv_text (emit_csv a bytes best))" unfolding ss(2) by simp
    then obtain f where "f \<in> set (emit_csv a bytes best)" "csv_text f = Some s" by auto
    with tx [of f] show ?thesis by auto
  qed
  moreover have "ss \<noteq> []" using arg_cong [OF ss(2), of length] csv_length(2) [of a bytes best] by auto
  ultimately have "split_csv False [] (join ss) = ss" by (intro split_join) auto
  with ss show ?thesis by (simp add: csv_line_def)
qed

lemma csv_cell_value:
  assumes "map csv_text (emit_csv a bytes best) = map Some (split_csv False [] row)"
  shows "csv_cell row col = Option.bind (csv_value a bytes best col) csv_text"
proof -
  have "map_of (zip hs ss) col = Option.bind (map_of (zip hs fs) col) csv_text"
    if "map csv_text fs = map Some ss" for hs :: "string list" and fs ss
    using that
  proof (induction hs arbitrary: fs ss)
    case (Cons h hs)
    then show ?case by (cases fs; cases ss) auto
  qed simp
  with assms show ?thesis by (simp add: csv_cell_def csv_value_def header_fields)
qed

text \<open>The cells of a histogram in a row of text.\<close>

definition hist_cells :: "string \<Rightarrow> string \<Rightarrow> Histogram \<Rightarrow> bool" where
  "hist_cells row pre h \<longleftrightarrow>
     csv_cell row (pre @ ''_mean_ns'') = Some (fmt_f 2 (mean_ns h)) \<and>
     csv_cell row (pre @ ''_p50_ns'') = map_option fmt_u (percentile h p50) \<and>
     csv_cell row (pre @ ''_p99_ns'') = map_option fmt_u (percentile h p99) \<and>
     csv_cell row (pre @ ''_p999_ns'') = map_option fmt_u (percentile h p999) \<and>
     csv_cell row (pre @ ''_p9999_ns'') = map_option fmt_u (percentile h p9999) \<and>
     csv_cell row (pre @ ''_max_ns'') = Some (fmt_u (h_max h))"

lemma hist_cells_columns:
  assumes "map csv_text (emit_csv a bytes best) = map Some (split_csv False [] row)" "hist_columns a bytes best pre h"
  shows "hist_cells row pre h"
  using assms(2) unfolding hist_cells_def hist_columns_def csv_cell_value [OF assms(1)] by simp

subsection \<open>Properties\<close>

text \<open>C29. The CSV output reads back. When the distribution's name has no comma or quote and the operation mix no quote,
  the row is printed; split at the commas outside quotes, header and row have the same number of cells and no
  column name occurs twice; and the cell under each latency column is the printed statistic of the histogram the column
  names, for the five kinds of latency and for the service time of the five operations.\<close>

theorem csv_row_reads_back:
  assumes "plain (dist a)" "CHR 0x22 \<notin> set (op_mix_str a)"
  shows "\<exists>row. csv_line (emit_csv a bytes best) = Some row \<and> distinct (split_csv False [] csv_header_line) \<and>
    length (split_csv False [] row) = length (split_csv False [] csv_header_line) \<and>
    hist_cells row ''svc'' (total (r_h best)) \<and> hist_cells row ''queue'' (total_queue (r_h best)) \<and>
    hist_cells row ''e2e'' (total_e2e (r_h best)) \<and> hist_cells row ''lookup'' (total_lookup (r_h best)) \<and>
    hist_cells row ''poll'' (total_poll (r_h best)) \<and>
    (\<forall>op. csv_cell row (op_name op @ ''_mean_ns'') = Some (fmt_f 2 (mean_ns (per_op (r_h best) ! nat_of_op op))) \<and>
      csv_cell row (op_name op @ ''_p99_ns'') = map_option fmt_u (percentile (per_op (r_h best) ! nat_of_op op) p99) \<and>
      csv_cell row (op_name op @ ''_p9999_ns'') = map_option fmt_u (percentile (per_op (r_h best) ! nat_of_op op) p9999)) \<and>
    csv_cell row ''consumed'' = Some (fmt_u (r_consumed best)) \<and> csv_cell row ''produced'' = Some (fmt_u (r_produced best))"
proof -
  from csv_line_splits [OF assms] obtain row where row: "csv_line (emit_csv a bytes best) = Some row"
    "map csv_text (emit_csv a bytes best) = map Some (split_csv False [] row)" by blast
  note hc = csv_hist_columns [THEN hist_cells_columns [OF row(2)]]
  have "length (split_csv False [] row) = length csv_header"
    using arg_cong [OF row(2), of length] csv_length(1) csv_length(2) [of a bytes best] by simp
  moreover have "csv_cell row ''consumed'' = Some (fmt_u (r_consumed best))" "csv_cell row ''produced'' = Some (fmt_u (r_produced best))"
    unfolding csv_cell_value [OF row(2)] by (simp_all add: csv_eval)
  moreover have "csv_cell row (op_name op @ ''_mean_ns'') = Some (fmt_f 2 (mean_ns (per_op (r_h best) ! nat_of_op op)))"
    "csv_cell row (op_name op @ ''_p99_ns'') = map_option fmt_u (percentile (per_op (r_h best) ! nat_of_op op) p99)"
    "csv_cell row (op_name op @ ''_p9999_ns'') = map_option fmt_u (percentile (per_op (r_h best) ! nat_of_op op) p9999)" for op
    unfolding csv_cell_value [OF row(2)] csv_op_columns by simp_all
  ultimately show ?thesis using row(1) hc csv_header_distinct unfolding header_fields by blast
qed

theorem csv_row_reads_back_witness:
  "\<exists>row. csv_line (emit_csv (Args_default\<lparr>op_mix_str := ''s=0.5,u=0.5''\<rparr>) 0 (RunResult_init\<lparr>r_consumed := 7\<rparr>)) = Some row \<and>
    csv_cell row ''consumed'' = Some (to_string 7)"
proof -
  let ?a = "Args_default\<lparr>op_mix_str := ''s=0.5,u=0.5''\<rparr>" let ?r = "RunResult_init\<lparr>r_consumed := 7\<rparr>"
  have "plain (dist ?a)" "CHR 0x22 \<notin> set (op_mix_str ?a)" by (simp_all add: Args_default_def plain_def)
  from csv_row_reads_back [OF this, of 0 ?r] obtain row where
    "csv_line (emit_csv ?a 0 ?r) = Some row" "csv_cell row ''consumed'' = Some (fmt_u 7)" by auto
  then show ?thesis by (simp add: fmt_u_def)
qed

text \<open>Scaling by a rounded quotient.\<close>

lemma fl_close:
  assumes "1 \<le> x"
  shows "\<bar>fl x - x\<bar> \<le> x / 2 ^ 53"
proof -
  let ?u = "2 powi expo x :: real"
  have u: "0 < ?u" by simp
  have "0 \<le> \<lfloor>log 2 x\<rfloor>" using assms by (simp add: zero_le_log_cancel_iff)
  then have "-1074 < expo x" using assms unfolding expo_def less_max_iff_disj abs_of_nonneg [OF order_trans [OF zero_le_one assms]] by linarith
  from expo_lower [OF _ this] assms have "2 powi (expo x + 52) \<le> x" by simp
  then have le: "?u * 2 ^ 52 \<le> x" by (simp add: power_int_add)
  have "fl x - x = (of_int (rne (x / ?u)) - x / ?u) * ?u" using assms by (simp add: fl_def left_diff_distrib)
  then have "\<bar>fl x - x\<bar> = \<bar>of_int (rne (x / ?u)) - x / ?u\<bar> * ?u" using u by (simp add: abs_mult)
  also have "\<dots> \<le> 1 / 2 * ?u" using u by (intro mult_right_mono rne_close) simp_all
  also have "\<dots> \<le> x / 2 ^ 53" using le by (simp add: field_simps)
  finally show ?thesis .
qed

lemma errors_add:
  fixes x f y :: real
  assumes "\<bar>f - x\<bar> \<le> x / 2 ^ 53" "\<bar>y - f\<bar> \<le> 1 / 200" "1 \<le> x"
  shows "\<bar>y - x\<bar> \<le> 6 / 1000 * x"
  using assms by (simp add: abs_real_def split: if_splits)

lemma format_scaled:
  assumes "1 \<le> ns / u" "ns / u < 10 ^ 20 - 2" "0 < u" "length s \<le> 3"
  shows "snprintf 64 (fmt_f 2 (fl (ns / u)) @ s) = fmt_f 2 (fl (ns / u)) @ s \<and>
    \<bar>dec_value (fmt_f 2 (fl (ns / u))) * u - ns\<bar> \<le> 6 / 1000 * ns"
proof -
  let ?x = "ns / u"
  have f: "\<bar>fl ?x - ?x\<bar> \<le> ?x / 2 ^ 53" by (rule fl_close [OF assms(1)])
  have x0: "0 \<le> fl ?x" using assms(1) by (intro fl_nonneg) simp
  have "fl ?x < 10 ^ 22 - 1" using f assms(2) by (simp add: abs_le_iff)
  from fmt_f_length [OF x0 this, of 2] assms(4) have "length (fmt_f 2 (fl ?x) @ s) \<le> 63" by simp
  moreover have "\<bar>dec_value (fmt_f 2 (fl ?x)) - fl ?x\<bar> \<le> 1 / 200" using fmt_f_accurate [OF x0, of 2] by simp
  from errors_add [OF f this assms(1)] have "\<bar>dec_value (fmt_f 2 (fl ?x)) - ?x\<bar> \<le> 6 / 1000 * ?x" .
  then have "\<bar>dec_value (fmt_f 2 (fl ?x)) - ?x\<bar> * u \<le> 6 / 1000 * ?x * u" using assms(3) by (intro mult_right_mono) simp_all
  then have "\<bar>(dec_value (fmt_f 2 (fl ?x)) - ?x) * u\<bar> \<le> 6 / 1000 * ns" using assms(3) by (simp add: abs_mult)
  then have "\<bar>dec_value (fmt_f 2 (fl ?x)) * u - ns\<bar> \<le> 6 / 1000 * ns" using assms(3) by (simp add: left_diff_distrib)
  ultimately show ?thesis by (simp add: snprintf_def)
qed

text \<open>C34. A latency is printed in the unit that fits, and accurately: below 1000 ns as whole nanoseconds, within
  half a nanosecond; from there in microseconds, milliseconds or seconds with two decimals, and the number
  printed times its unit is within 0.6 per cent of the latency. The buffer of 64 characters is long enough.\<close>

theorem format_ns_accurate:
  assumes "0 \<le> ns" "ns < 10 ^ 20"
  shows "\<exists>x u unit. format_ns ns = x @ '' '' @ unit \<and>
    (ns < 1000 \<and> unit = ''ns'' \<and> u = 1 \<and> \<bar>dec_value x * u - ns\<bar> \<le> 1 / 2 \<or>
     1000 \<le> ns \<and> (unit, u) \<in> {(''us'', 10 ^ 3), (''ms'', 10 ^ 6), (''s'', 10 ^ 9)} \<and> u \<le> ns \<and>
     (unit \<noteq> ''s'' \<longrightarrow> ns < 1000 * u) \<and> \<bar>dec_value x * u - ns\<bar> \<le> 6 / 1000 * ns)"
proof -
  consider "ns < 1000" | "1000 \<le> ns" "ns < 10 ^ 6" | "10 ^ 6 \<le> ns" "ns < 10 ^ 9" | "10 ^ 9 \<le> ns" by linarith
  then show ?thesis
  proof cases
    case 1
    have "ns < 10 ^ 4 - 1" using 1 by simp
    from fmt_f_length [OF assms(1) this, of 0] have "length (fmt_f 0 ns @ '' ns'') \<le> 63" by simp
    then have "format_ns ns = fmt_f 0 ns @ '' '' @ ''ns''" using 1 by (simp add: format_ns_def snprintf_def)
    moreover have "\<bar>dec_value (fmt_f 0 ns) * 1 - ns\<bar> \<le> 1 / 2" using fmt_f_accurate [OF assms(1), of 0] by simp
    ultimately show ?thesis using 1 by blast
  next
    case 2
    then have "format_ns ns = snprintf 64 (fmt_f 2 (fl (ns / 10 ^ 3)) @ '' us'')" by (simp add: format_ns_def)
    with format_scaled [of ns "10 ^ 3" "'' us''"] 2 have
      "format_ns ns = fmt_f 2 (fl (ns / 10 ^ 3)) @ '' '' @ ''us''" "\<bar>dec_value (fmt_f 2 (fl (ns / 10 ^ 3))) * 10 ^ 3 - ns\<bar> \<le> 6 / 1000 * ns"
      by simp_all
    with 2 show ?thesis by (intro exI [of _ "fmt_f 2 (fl (ns / 10 ^ 3))"] exI [of _ "10 ^ 3"] exI [of _ "''us''"]) simp
  next
    case 3
    then have "format_ns ns = snprintf 64 (fmt_f 2 (fl (ns / 10 ^ 6)) @ '' ms'')" by (simp add: format_ns_def)
    with format_scaled [of ns "10 ^ 6" "'' ms''"] 3 have
      "format_ns ns = fmt_f 2 (fl (ns / 10 ^ 6)) @ '' '' @ ''ms''" "\<bar>dec_value (fmt_f 2 (fl (ns / 10 ^ 6))) * 10 ^ 6 - ns\<bar> \<le> 6 / 1000 * ns"
      by simp_all
    with 3 show ?thesis by (intro exI [of _ "fmt_f 2 (fl (ns / 10 ^ 6))"] exI [of _ "10 ^ 6"] exI [of _ "''ms''"]) simp
  next
    case 4
    then have "format_ns ns = snprintf 64 (fmt_f 2 (fl (ns / 10 ^ 9)) @ '' s'')" by (simp add: format_ns_def)
    with format_scaled [of ns "10 ^ 9" "'' s''"] 4 assms(2) have
      "format_ns ns = fmt_f 2 (fl (ns / 10 ^ 9)) @ '' '' @ ''s''" "\<bar>dec_value (fmt_f 2 (fl (ns / 10 ^ 9))) * 10 ^ 9 - ns\<bar> \<le> 6 / 1000 * ns"
      by simp_all
    with 4 show ?thesis by (intro exI [of _ "fmt_f 2 (fl (ns / 10 ^ 9))"] exI [of _ "10 ^ 9"] exI [of _ "''s''"]) simp
  qed
qed

theorem format_ns_accurate_witness:
  "\<exists>x u unit. format_ns 1234567 = x @ '' '' @ unit \<and> unit = ''ms'' \<and> \<bar>dec_value x * 10 ^ 6 - 1234567\<bar> \<le> 7408"
proof -
  from format_ns_accurate [of 1234567] obtain x u unit where
    "format_ns 1234567 = x @ '' '' @ unit" "(unit, u) \<in> {(''us'', 10 ^ 3 :: real), (''ms'', 10 ^ 6), (''s'', 10 ^ 9)}" "u \<le> 1234567"
    "unit \<noteq> ''s'' \<longrightarrow> 1234567 < 1000 * u" "\<bar>dec_value x * u - 1234567\<bar> \<le> 6 / 1000 * 1234567" by auto
  then have "unit = ''ms''" "u = 10 ^ 6" by auto
  with \<open>format_ns 1234567 = x @ '' '' @ unit\<close> \<open>\<bar>dec_value x * u - 1234567\<bar> \<le> 6 / 1000 * 1234567\<close> show ?thesis by fastforce
qed

end
