(* ===== verification/Human_Report.thy ===== *)
theory Human_Report
  imports Text_Output Bench_Main BTree_Destroy
begin

text \<open>
  What the driver writes for people (\<^verbatim>\<open>bench.cpp\<close>): the configuration, every run, the summary with the breakdown by
  operation, the warnings, and the output of \<^verbatim>\<open>main\<close> as a whole with the CSV part; the diagnostics of the two built-in
  indexes (\<^verbatim>\<open>diag()\<close>) and the warnings of the traffic model's constructor. Output is a list of lines. A line that prints
  an undefined percentile would have no text; that there is always one is proved.
\<close>

subsection \<open>Diagnostics of the indexes\<close>

definition mb :: "u64 \<Rightarrow> string" where
  "mb bytes = fmt_f 2 (fl (double_of_u64 bytes / (1024 * 1024))) @ '' MB''"

definition bt_diag :: "BPlusTree \<Rightarrow> string option" where
  "bt_diag t = map_option (\<lambda>h. snprintf 128
     (''nodes='' @ fmt_u (of_nat (node_count t)) @ '' bytes='' @ mb (bt_bytes t) @ '' height='' @ fmt_d (int h))) (height t)"

definition mean_chain :: "HashIndex \<Rightarrow> real" where
  "mean_chain h = (if hi_nb h \<noteq> 0 then fl (double_of_u64 (oc_total (occupancy_stats h 8)) / double_of_u64 (hi_nb h)) else 0)"

definition hash_diag :: "HashIndex \<Rightarrow> string" where
  "hash_diag h = (let oc = occupancy_stats h 8 in snprintf 160
     (''buckets='' @ fmt_u (hi_nb h) @ '' items='' @ fmt_u (hi_items h) @ '' bytes='' @ mb (hash_bytes h) @
      '' max_chain='' @ fmt_u (oc_max oc) @ '' mean='' @ fmt_f 2 (mean_chain h) @ '' empty='' @ fmt_u (oc_empty oc)))"

text \<open>The two external adapters with diagnostics of their own; the numbers are the native index's, as integers.\<close>

definition lb_diag :: "('b \<Rightarrow> int) \<Rightarrow> 'b \<Rightarrow> string" where
  "lb_diag level b = ''level='' @ fmt_d (level b)"

definition dp_diag :: "('b \<Rightarrow> int) \<Rightarrow> ('b \<Rightarrow> int) \<Rightarrow> ('b \<Rightarrow> int) \<Rightarrow> 'b \<Rightarrow> string" where
  "dp_diag get_buffer_tree_size get_static_size get_merges b =
     ''buffer='' @ fmt_d (get_buffer_tree_size b) @ '' static='' @ fmt_d (get_static_size b) @
     '' merges='' @ fmt_d (get_merges b)"

definition index_diag :: "('e \<Rightarrow> string) \<Rightarrow> 'e index_state \<Rightarrow> string option" where
  "index_diag dg s = (case s of BTreeState t \<Rightarrow> bt_diag t | HashState h \<Rightarrow> Some (hash_diag h)
     | ExtState e \<Rightarrow> Some (dg e) | NoState \<Rightarrow> Some [])"

subsection \<open>The human-readable output\<close>

definition locking_line :: "OpMix \<Rightarrow> bool \<Rightarrow> string" where
  "locking_line m locked = ''Locking      : '' @
     (if locked then ''global RW-lock (index not thread-safe)''
      else if m_search m < 1 then ''elided (single thread, or index has own concurrency control)''
      else ''not needed for read-only workload'')"

definition emit_human_setup :: "Args \<Rightarrow> u64 \<Rightarrow> string \<Rightarrow> string \<Rightarrow> OpMix \<Rightarrow> bool \<Rightarrow> string list" where
  "emit_human_setup a bytes name diag m locked =
     [[], ''=== Benchmark configuration ==='',
      ''Index        : '' @ name @ '' '' @ diag,
      ''Workload     : '' @ workload_name (workload a) @
        (if bytes > 0 then '' ('' @ fmt_u bytes @ '' B extra data access per op)'' else []),
      ''Data size    : '' @ format_count (keys_n a) @ '' keys, '' @ format_count (queries a) @ '' operations'',
      ''Key dist.    : '' @ dist a @ (if dist a = ''zipf'' then '' (theta='' @ fmt_f 3 (theta a) @ '')'' else []),
      ''Arrival      : '' @ arrival_name (arrival a) @
        (if arrival a = Poisson then '' (target rate='' @ fmt_f 0 (rate a) @ '' ops/s, cv2='' @ fmt_f 3 (cv2 a) @ '')'' else []),
      (if arrival a = Poisson
       then ''Clients      : '' @ fmt_d (clients a) @ '' (queue capacity='' @ fmt_u (queue_capacity a) @ '')''
       else ''Workers      : '' @ fmt_d (workers a) @ '' (closed-loop batch)''),
      ''Operation mix: search '' @ fmt_f 1 (fl (100 * m_search m)) @ ''%, update '' @ fmt_f 1 (fl (100 * m_update m)) @
        ''%, insert '' @ fmt_f 1 (fl (100 * m_insert m)) @ ''%, delete '' @ fmt_f 1 (fl (100 * m_del m)) @
        ''%, scan '' @ fmt_f 1 (fl (100 * m_scan m)) @ ''%'' @
        (if m_scan m > 0 then '' (scan_len='' @ fmt_d (scan_len a) @ '')'' else []),
      locking_line m locked,
      ''===============================''] "

text \<open>A line made of pieces, and a percentile in the unit that fits.\<close>

definition line :: "string option list \<Rightarrow> string option" where
  "line ps = map_option concat (those ps)"

definition hist_ns :: "Histogram \<Rightarrow> real \<Rightarrow> string option" where
  "hist_ns h p = map_option (\<lambda>v. format_ns (double_of_u64 v)) (percentile h p)"

definition emit_human_run :: "int \<Rightarrow> RunResult \<Rightarrow> string list option" where
  "emit_human_run run_id r =
     (let T = total (r_h r); Q = total_queue (r_h r)
      in those ([Some [], Some (''Run '' @ fmt_d run_id),
         Some (''  elapsed time : '' @ fmt_f 3 (fl (wall_ns_total r / 10 ^ 6)) @ '' ms''),
         Some (''  throughput   : '' @ fmt_f 3 (throughput_mops r) @ '' Mops/s''),
         Some (''  operations   : produced '' @ format_count (r_produced r) @ '', consumed '' @ format_count (r_consumed r)),
         line [Some ''  service time : mean '', Some (format_ns (mean_ns T)), Some '', p50 '', hist_ns T p50,
           Some '', p99 '', hist_ns T p99, Some '', p99.9 '', hist_ns T p999, Some '', p99.99 '', hist_ns T p9999,
           Some '', max '', Some (format_ns (double_of_u64 (h_max T)))],
         line [Some ''  queue delay  : mean '', Some (format_ns (mean_ns Q)), Some '', p99 '', hist_ns Q p99,
           Some '', max '', Some (format_ns (double_of_u64 (h_max Q)))]] @
         (if lambda_mean r > 0 \<or> lambda_max r > 0
          then [Some (''  arrival rate : min '' @ fmt_f 0 (lambda_min r) @ '', mean '' @ fmt_f 0 (lambda_mean r) @
                  '', max '' @ fmt_f 0 (lambda_max r) @ '' ops/s''),
                Some (''  producer lag : total '' @ format_ns (double_of_u64 (producer_lag_ns_total r)))]
          else [])))"

definition op_row :: "string \<Rightarrow> string \<Rightarrow> string \<Rightarrow> string \<Rightarrow> string" where
  "op_row op mean pa pb = ''  '' @ pad_right 8 op @ '' '' @ pad_left 12 mean @ '' '' @ pad_left 12 pa @ '' '' @ pad_left 12 pb"

definition op_line :: "RunResult \<Rightarrow> nat \<Rightarrow> string option" where
  "op_line r i =
     (let H = per_op (r_h r) ! i
      in case (hist_ns H p99, hist_ns H p9999) of
           (Some pa, Some pb) \<Rightarrow> Some (op_row (op_name (op_of_nat i)) (format_ns (mean_ns H)) pa pb)
         | _ \<Rightarrow> None)"

definition emit_human_op_breakdown :: "RunResult \<Rightarrow> string list option" where
  "emit_human_op_breakdown r =
     those ([Some [], Some ''Operation latency breakdown'', Some (op_row ''op'' ''mean'' ''p99'' ''p99.99'')] @
       concat (map (\<lambda>i. if h_total (per_op (r_h r) ! i) = 0 then [] else [op_line r i]) [0..<5]))"

definition emit_human_best :: "RunResult \<Rightarrow> int \<Rightarrow> string list option" where
  "emit_human_best best reps =
     (let T = total (r_h best)
      in case (those
          [Some [], Some (''=== Summary (throughput: best run; latency: all '' @ fmt_d reps @ '' runs merged) ===''),
           Some (''Throughput   : '' @ fmt_f 3 (throughput_mops best) @ '' Mops/s''),
           Some (''Elapsed time : '' @ fmt_f 3 (fl (wall_ns_total best / 10 ^ 6)) @ '' ms''),
           Some (''Mean latency : '' @ format_ns (mean_ns T)),
           line [Some ''p99 latency  : '', hist_ns T p99], line [Some ''p99.9 latency: '', hist_ns T p999],
           line [Some ''p99.99 lat.  : '', hist_ns T p9999]], emit_human_op_breakdown best) of
           (Some ls, Some bs) \<Rightarrow> Some (ls @ bs @ [''========================''])
         | _ \<Rightarrow> None)"

subsection \<open>Warnings\<close>

definition traffic_warnings :: "TrafficParams \<Rightarrow> string list" where
  "traffic_warnings p =
     (let T = total_duration_s p
      in if T > 0 then
           (if sin_amp p \<noteq> 0 \<and> T < sin_period_s p
            then [''[traffic] WARNING: experiment duration '' @ fmt_f 3 T @ ''s < sine period '' @ fmt_f 3 (sin_period_s p) @
                  ''s; the realised sine mean will vary run-to-run even after correction.''] else []) @
           (if level_lo p \<noteq> level_hi p \<and> T < fl (3 * level_period_s p)
            then [''[traffic] WARNING: experiment duration '' @ fmt_f 3 T @ ''s < 3x level period '' @ fmt_f 3 (level_period_s p) @
                  ''s; level shifts will be sparse and lambda_mean will vary run-to-run.''] else []) @
           (if burst_prob p > 0 \<and> T < fl (20 * burst_tick_s p)
            then [''[traffic] WARNING: experiment duration '' @ fmt_f 3 T @
                  ''s covers fewer than 20 burst ticks; the burst mean will be dominated by single events.''] else [])
         else [])"

definition queue_warning :: "Args \<Rightarrow> Args \<Rightarrow> string list" where
  "queue_warning a resolved =
     (if arrival a = Poisson \<and> queue_capacity a = 0 \<and> queue_capacity resolved < queries a
      then [''[queue] WARNING: auto capacity capped at '' @ fmt_u (queue_capacity resolved) @ '' entries (< '' @
            fmt_u (queries a) @ '' queries); producer backpressure is possible.''] else [])"

text \<open>The \<^verbatim>\<open>[setup]\<close> lines of a run that prints neither tables nor CSV; \<open>a\<close> has the capacity as it was given.\<close>

definition setup_lines :: "Args \<Rightarrow> string \<Rightarrow> string \<Rightarrow> OpMix \<Rightarrow> bool \<Rightarrow> string list" where
  "setup_lines a name diag m locked =
     (let tr = traffic a
      in if human_output a \<or> csv_output a then []
         else [''[setup] index='' @ name @ '' '' @ diag,
           ''[setup] workload='' @ workload_name (workload a) @ '' per_call='' @ fmt_u (bytes_per_call a) @ '' B universe='' @
             mb (universe a) @ '' x'' @ fmt_d (workers a) @ '' worker(s)'',
           ''[setup] op_mix s='' @ fmt_f 2 (m_search m) @ '' u='' @ fmt_f 2 (m_update m) @ '' i='' @ fmt_f 2 (m_insert m) @
             '' d='' @ fmt_f 2 (m_del m) @ '' sc='' @ fmt_f 2 (m_scan m) @ ''  scan_len='' @ fmt_d (scan_len a) @
             ''  needs_lock='' @ fmt_d (of_bool locked),
           ''[setup] arrival='' @ arrival_name (arrival a) @ '' rate='' @ fmt_f 0 (rate a) @ '' cv2='' @ fmt_f 3 (cv2 a) @
             '' clients='' @ fmt_d (clients a) @ '' queue='' @ fmt_u (queue_capacity a) @ '' dist='' @ dist a @ '' theta='' @ fmt_f 3 (theta a)] @
           (if arrival a = Poisson
            then [''[setup] traffic sin_amp='' @ fmt_f 2 (sin_amp tr) @ '' period='' @ fmt_f 2 (sin_period_s tr) @ ''s level_period='' @
              fmt_f 2 (level_period_s tr) @ ''s ['' @ fmt_f 2 (level_lo tr) @ ''..'' @ fmt_f 2 (level_hi tr) @ ''] burst_prob='' @
              fmt_f 4 (burst_prob tr) @ '' tick='' @ fmt_f 2 (burst_tick_s tr) @ ''s dur='' @ fmt_f 3 (burst_dur_mean_s tr) @ ''s pareto='' @
              fmt_f 2 (burst_pareto_alpha tr)]
            else []))"

definition producer_warning :: "Args \<Rightarrow> RunResult \<Rightarrow> string list" where
  "producer_warning a best =
     (if producer_late a best
      then [''[producer] WARNING: mean producer lateness '' @
            fmt_f 0 (fl (double_of_u64 (producer_lag_ns_total best) / double_of_u64 (r_produced best))) @
            '' ns/op vs mean inter-arrival '' @ fmt_f 0 (fl (10 ^ 9 / rate a)) @
            '' ns; the offered rate was not realised (queue backpressure or scheduler). Treat queue/e2e latencies with suspicion.'']
      else [])"

subsection \<open>The output of a benchmark\<close>

definition human :: "Args \<Rightarrow> string list option \<Rightarrow> string list option" where
  "human a ls = (if human_output a then ls else Some [])"

definition main_output :: "('e \<Rightarrow> string) \<Rightarrow> 'e bench_setup \<Rightarrow> RunResult list \<Rightarrow> string list option" where
  "main_output dg su rs =
     (let a = su_args su; best = combine_runs rs
      in map_option concat (those
        ([human a (map_option (\<lambda>d. emit_human_setup a (bytes_per_call a) (ii_name (su_ix su)) d (su_mix su) (su_needs_lock su))
                      (index_diag dg (su_idx su)))] @
         map (\<lambda>(r, cur). human a (emit_human_run (int r) cur)) (enumerate 0 rs) @
         [human a (emit_human_best best (repeats a)),
          if csv_output a
          then map_option (\<lambda>row. (if human_output a then [[], ''CSV output''] else []) @ [csv_header_line, row])
                 (csv_line (emit_csv a (bytes_per_call a) best))
          else Some []])))"

subsection \<open>There is always an output\<close>

lemma those_None [simp]: "those xs = None \<longleftrightarrow> None \<in> set xs"
  by (induction xs) (auto split: option.splits)

lemma those_length: "those xs = Some ys \<Longrightarrow> length ys = length xs"
  by (induction xs arbitrary: ys) (auto split: option.splits)

declare those.simps [simp del]

lemma line_None [simp]: "line ps = None \<longleftrightarrow> None \<in> set ps" "None = line ps \<longleftrightarrow> None \<in> set ps"
  unfolding eq_commute [of None "line ps"] by (simp_all add: line_def)

lemma hist_ns_defined [simp]: "hist_ns h p50 \<noteq> None" "hist_ns h p99 \<noteq> None" "hist_ns h p999 \<noteq> None" "hist_ns h p9999 \<noteq> None"
  using percentiles_defined [of h] by (auto simp: hist_ns_def)

lemmas hist_ns_defined' [simp] = hist_ns_defined [symmetric]

lemma emit_human_run_defined: "emit_human_run i r \<noteq> None"
  by (simp add: emit_human_run_def Let_def del: not_None_eq)

text \<open>The breakdown has three lines and one for each operation that occurred.\<close>

lemma op_line_defined [simp]: "op_line r i \<noteq> None"
  using hist_ns_defined(2,4) [of "per_op (r_h r) ! i"] by (auto simp: op_line_def Let_def simp del: hist_ns_defined hist_ns_defined')

lemma breakdown_lines:
  "\<exists>ls. emit_human_op_breakdown r = Some ls \<and>
    length ls = 3 + length (filter (\<lambda>i. h_total (per_op (r_h r) ! i) \<noteq> 0) [0..<5])"
proof -
  let ?f = "\<lambda>i. if h_total (per_op (r_h r) ! i) = 0 then [] else [op_line r i]"
  have len: "length (concat (map ?f xs)) = length (filter (\<lambda>i. h_total (per_op (r_h r) ! i) \<noteq> 0) xs)" for xs
    by (induction xs) simp_all
  have "emit_human_op_breakdown r \<noteq> None"
    using op_line_defined [of r] by (simp add: emit_human_op_breakdown_def del: not_None_eq op_line_defined split: if_split) metis
  then obtain ls where ls: "emit_human_op_breakdown r = Some ls" by blast
  from those_length [OF ls [unfolded emit_human_op_breakdown_def]] len [of "[0..<5]"] ls show ?thesis by simp
qed

lemma emit_human_best_defined: "emit_human_best best n \<noteq> None"
proof -
  from breakdown_lines [of best] obtain bs where "emit_human_op_breakdown best = Some bs" by blast
  then show ?thesis by (simp add: emit_human_best_def Let_def del: not_None_eq split: option.split)
qed

lemma bt_diag_defined: "bt_rel t m \<Longrightarrow> bt_diag t \<noteq> None"
proof -
  assume "bt_rel t m"
  then obtain kv where kv: "holds t kv" by (auto simp: bt_rel_def)
  have "height_loop (nodes t) (root t) 0 \<noteq> None"
  proof (cases "root t")
    case None
    then show ?thesis by (simp add: height_loop.simps)
  next
    case (Some a)
    with kv obtain d where "wf_tree (nodes t) d a" by (auto simp: holds_def tree_at_def)
    from height_loop_wf [OF this] Some show ?thesis by simp
  qed
  then show ?thesis by (auto simp: bt_diag_def height_def)
qed

lemma main_output_defined:
  assumes "plain (dist (su_args su))" "CHR 0x22 \<notin> set (op_mix_str (su_args su))" "index_diag dg (su_idx su) \<noteq> None"
  shows "main_output dg su rs \<noteq> None"
proof -
  have h: "human (su_args su) x \<noteq> None" if "x \<noteq> None" for x using that by (simp add: human_def)
  have "None \<notin> set (map (\<lambda>(r, cur). human (su_args su) (emit_human_run (int r) cur)) (enumerate 0 rs))"
  proof
    assume "None \<in> set (map (\<lambda>(r, cur). human (su_args su) (emit_human_run (int r) cur)) (enumerate 0 rs))"
    then obtain r cur where "None = human (su_args su) (emit_human_run (int r) cur)" by auto
    with h [OF emit_human_run_defined] show False by metis
  qed
  moreover from csv_line_splits [OF assms(1,2), of "bytes_per_call (su_args su)" "combine_runs rs"]
  have "csv_line (emit_csv (su_args su) (bytes_per_call (su_args su)) (combine_runs rs)) \<noteq> None" by blast
  moreover note h [OF emit_human_best_defined, of "combine_runs rs" "repeats (su_args su)"]
  moreover have "human (su_args su) (map_option f (index_diag dg (su_idx su))) \<noteq> None" for f
    by (rule h) (use assms(3) in simp)
  ultimately show ?thesis unfolding main_output_def Let_def
    by (simp only: option.map_disc_iff those_None set_append Un_iff list.set insert_iff empty_iff split: if_split)
      (simp del: not_None_eq add: eq_commute [of None "human (su_args su) x" for x])
qed

text \<open>So a benchmark of a built-in index that was set up prints its report, whatever its runs.\<close>

lemma index_diag_defined: "builtin_state s \<Longrightarrow> index_diag dg s \<noteq> None"
  using bt_diag_defined by (auto simp: builtin_state_def index_diag_def split: index_state.splits)

lemma benchmark_output:
  assumes "runnable H a m" "resolve_capacity (a\<lparr>workers := w\<rparr>) = Some (su_args su)" "builtin_state (su_idx su)"
    and "CHR 0x22 \<notin> set (op_mix_str a)"
  shows "main_output dg su rs \<noteq> None"
proof -
  have "dist a = ''uniform'' \<or> dist a = ''zipf''" using assms(1) by (auto simp: runnable_def dist_ok_def)
  then have "plain (dist a)" by (auto simp: plain_def)
  with main_output_defined [OF _ _ index_diag_defined [OF assms(3)]] resolve_capacity_keeps(11,12) [OF assms(2)] assms(4)
  show ?thesis by simp
qed

text \<open>The line on locking is about the batch driver: in Poisson mode a single client takes the lock for every write, while
  the report says that it is elided.\<close>

lemma elided_but_locked:
  assumes "m_search m < 1"
  shows "locking_line m (needs_lock m 1 ix) = ''Locking      : elided (single thread, or index has own concurrency control)'' \<and>
    client_lock (needs_lock m 1 ix) Update = Some Exclusive"
  using assms by (simp add: locking_line_def needs_lock_def client_lock_def)

end
