(* ===== verification/Skew_Check.thy ===== *)
theory Skew_Check
  imports Text_Output Hash_Key_Gen
begin

text \<open>
  The program of \<^verbatim>\<open>run_skew_check.cpp\<close>: its arguments, the buckets it fills with generated keys (\<open>skew_counts\<close>,
  \<open>top_mass\<close> and \<open>gini\<close> of \<open>Hash_Key_Gen\<close>) and the five lines it prints. The share it prints for the fullest quarter
  of the buckets is the true share, never less than a quarter.
\<close>

subsection \<open>The program\<close>

text \<open>\<open>argv\<close> starts with the program's name; a missing argument has its default.\<close>

definition skew_args :: "clib \<Rightarrow> string list \<Rightarrow> real \<times> int \<times> int \<times> u64" where
  "skew_args C argv =
     (if length argv > 1 then fst (c_strtod C (argv ! 1)) else fl (2 / 5),
      if length argv > 2 then c_atoi C (argv ! 2) else 8,
      if length argv > 3 then c_atoi C (argv ! 3) else 8,
      if length argv > 4 then c_strtoull C (argv ! 4) else 1000000)"

definition percent :: "u64 \<Rightarrow> u64 \<Rightarrow> real" where
  "percent c n = fl (fl (100 * double_of_u64 c) / double_of_u64 n)"

definition skew_lines :: "real \<Rightarrow> int \<Rightarrow> int \<Rightarrow> u64 \<Rightarrow> u64 list \<Rightarrow> string list" where
  "skew_lines sigma intervals bucketlog n counts =
     (let nb = length counts
      in [''sigma='' @ fmt_f 2 sigma @ '' intervals='' @ fmt_d intervals @ '' buckets='' @ to_string nb @
            '' (2^'' @ fmt_d bucketlog @ '') keys='' @ fmt_u n,
          ''top-25% buckets capture '' @ fmt_f 1 (percent (top_mass counts (nb div 4)) n) @
            ''% of keys  (paper: ~53% at sigma=0.4)'',
          ''top-10% buckets capture '' @ fmt_f 1 (percent (top_mass counts (nb div 10)) n) @ ''% of keys'',
          ''max bucket count = '' @ fmt_u (hd (rev (sort counts))) @
            '' (uniform expect = '' @ fmt_f 1 (fl (double_of_u64 n / fl (real nb))) @ '')'',
          ''Gini coefficient = '' @ fmt_f 4 (gini counts (unat n)) @ ''  (0=uniform, 1=all-in-one)''])"

text \<open>\<open>None\<close>: a shift by a negative amount or by 64 and more, a number of intervals that the generator does not
  take, or no keys, when the shares are not numbers.\<close>

definition skew_main ::
  "clib \<Rightarrow> ('g \<Rightarrow> real \<times> 'g) \<Rightarrow> (real \<Rightarrow> real) \<Rightarrow> (u64 \<Rightarrow> 'g) \<Rightarrow> string list \<Rightarrow> string list option" where
  "skew_main C unif cexp engine argv =
     (case skew_args C argv of (sigma, intervals, bucketlog, n) \<Rightarrow>
        if bucketlog < 0 \<or> 64 \<le> bucketlog \<or> n = 0 then None
        else (case HashKeyGen_new unif cexp intervals sigma True (engine 42) of
          None \<Rightarrow> None
        | Some (h, g) \<Rightarrow>
            Some (skew_lines sigma intervals bucketlog n (skew_counts unif h (nat bucketlog) (unat n) g))))"

subsection \<open>Counts without wrap-around\<close>

lemma nat_sum_inc:
  assumes "b < length xs" "sum_list (map unat xs) < 2 ^ 64 - 1"
  shows "sum_list (map unat (xs[b := xs ! b + (1 :: u64)])) = Suc (sum_list (map unat xs))"
proof -
  have le: "unat (xs ! b) \<le> sum_list (map unat xs)" using assms(1) by (intro member_le_sum_list) simp_all
  then have "unat (xs ! b) < 2 ^ 64 - 1" using assms(2) by linarith
  then have "unat (xs ! b + 1) = Suc (unat (xs ! b))" by (simp add: unat_word_ariths)
  with le assms(1) show ?thesis by (simp only: map_update sum_list_update length_map nth_map)
qed

lemma count_keys_nat:
  assumes "\<And>key. unat (key AND mk) < length counts" "sum_list (map unat counts) + n < 2 ^ 64"
  shows "sum_list (map unat (count_keys unif h mk n g counts)) = sum_list (map unat counts) + n"
  using assms
proof (induction n arbitrary: g counts)
  case (Suc n)
  obtain key g' where k: "next_key unif h g = (key, g')" by fastforce
  let ?b = "unat (key AND mk)"
  have "sum_list (map unat (counts[?b := counts ! ?b + 1])) = Suc (sum_list (map unat counts))"
    using Suc.prems by (intro nat_sum_inc) simp_all
  with Suc.IH [of "counts[?b := counts ! ?b + 1]" g'] Suc.prems show ?case by (simp add: k Let_def)
qed simp

lemma skew_counts_nat:
  assumes "bl < 64"
  shows "sum_list (map unat (skew_counts unif h bl (unat (n :: u64)) g)) = unat n"
    "length (skew_counts unif h bl (unat n) g) = 2 ^ bl"
proof -
  let ?nb = "push_bit bl 1 :: u64"
  have nb: "unat ?nb = 2 ^ bl" using assms by (simp only: unat_push_bit_1)
  have b: "unat (key AND (?nb - 1)) < length (replicate (unat ?nb) (0 :: u64))" for key
    by (simp only: unat_and_pow2 [OF assms nb] length_replicate nb) simp
  have z: "sum_list (map unat (replicate k (0 :: u64))) = 0" for k by (induction k) simp_all
  have "unat n < 2 ^ 64" using unsigned_less [of n, where ?'a = nat] by simp
  with count_keys_nat [OF b, of "unat n" unif h g] show "sum_list (map unat (skew_counts unif h bl (unat n) g)) = unat n"
    unfolding skew_counts_def Let_def z by simp
  from count_keys_total [OF b, of unif h "unat n" g] show "length (skew_counts unif h bl (unat n) g) = 2 ^ bl"
    unfolding skew_counts_def Let_def by (simp only: nb length_replicate)
qed

subsection \<open>The fullest buckets\<close>

text \<open>The first part of a descending list has at least its proportional share of the sum.\<close>

lemma descending_share:
  fixes ys :: "nat list"
  assumes "sorted (rev ys)" "k \<le> length ys"
  shows "k * sum_list ys \<le> length ys * sum_list (take k ys)"
proof (cases "k = length ys")
  case False
  let ?x = "ys ! k"
  have desc: "i \<le> j \<Longrightarrow> j < length ys \<Longrightarrow> ys ! j \<le> ys ! i" for i j
    using assms(1) by (simp add: sorted_rev_iff_nth_mono)
  have "sum_list (map (\<lambda>_. ?x) (take k ys)) \<le> sum_list (map id (take k ys))"
    using desc False assms(2) by (intro sum_list_mono) (auto simp: in_set_conv_nth)
  then have a: "k * ?x \<le> sum_list (take k ys)" using assms(2) by (simp add: sum_list_triv)
  have "sum_list (map id (drop k ys)) \<le> sum_list (map (\<lambda>_. ?x) (drop k ys))"
    using desc by (intro sum_list_mono) (auto simp: in_set_conv_nth)
  then have b: "sum_list (drop k ys) \<le> (length ys - k) * ?x" by (simp add: sum_list_triv)
  have s: "sum_list ys = sum_list (take k ys) + sum_list (drop k ys)" by (metis append_take_drop_id sum_list_append)
  have "k * sum_list (drop k ys) \<le> k * ((length ys - k) * ?x)" using b by (rule mult_le_mono2)
  also have "\<dots> = (length ys - k) * (k * ?x)" by (simp only: ac_simps)
  also have "\<dots> \<le> (length ys - k) * sum_list (take k ys)" using a by (rule mult_le_mono2)
  finally have "k * sum_list ys \<le> (k + (length ys - k)) * sum_list (take k ys)"
    unfolding s by (simp only: distrib_left distrib_right add_le_cancel_left)
  then show ?thesis using assms(2) by simp
qed simp

lemma unat_sum_list: "sum_list (map unat xs) < 2 ^ 64 \<Longrightarrow> unat (sum_list xs) = sum_list (map unat (xs :: u64 list))"
  by (induction xs) (simp_all add: unat_word_ariths)

lemma top_mass_bounds:
  assumes "sum_list (map unat counts) = unat n" "k \<le> length counts"
  shows "k * unat n \<le> length counts * unat (top_mass counts k)" "unat (top_mass counts k) \<le> unat (n :: u64)"
    "unat (top_mass counts k) = sum_list (take k (rev (sort (map unat counts))))"
proof -
  let ?d = "map unat (rev (sort counts))"
  have s: "sum_list ?d = unat n" unfolding assms(1) [symmetric]
    by (simp add: sum_list_rev flip: rev_map) (metis mset_map mset_sort sum_mset_sum_list)
  have le: "sum_list (take k ?d) \<le> unat n" unfolding s [symmetric]
    by (metis append_take_drop_id le_add1 sum_list_append)
  moreover have "unat n < 2 ^ 64" using unsigned_less [of n, where ?'a = nat] by simp
  ultimately have t: "unat (top_mass counts k) = sum_list (take k ?d)"
    unfolding top_mass_def by (subst unat_sum_list) (simp_all add: take_map)
  show "unat (top_mass counts k) \<le> unat n" unfolding t by (rule le)
  have so: "sorted (map unat (sort counts))" by (simp add: sorted_map word_le_nat_alt [symmetric])
  then have "sort (map unat counts) = map unat (sort counts)" by (intro properties_for_sort) simp_all
  then show "unat (top_mass counts k) = sum_list (take k (rev (sort (map unat counts))))"
    unfolding t by (simp only: rev_map)
  from so have "sorted (rev ?d)" by (simp add: rev_map)
  from descending_share [OF this] assms(2) show "k * unat n \<le> length counts * unat (top_mass counts k)"
    unfolding t s by simp
qed

subsection \<open>The printed share\<close>

lemma fl_between:
  assumes "1 \<le> x" "e = 1 / 10 ^ 9"
  shows "x * (1 - e) \<le> fl x" "fl x \<le> x * (1 + e)"
proof -
  have "\<bar>fl x - x\<bar> \<le> x * e" using fl_close [OF assms(1)] assms by (elim order_trans) simp
  then show "x * (1 - e) \<le> fl x" "fl x \<le> x * (1 + e)" by (simp_all add: algebra_simps abs_le_iff)
qed

lemma percent_close:
  assumes "unat n \<le> 4 * unat c" "unat c \<le> unat n" "n \<noteq> 0"
  shows "\<bar>percent c n - 100 * real (unat c) / real (unat n)\<bar> \<le> 1 / 1000" "0 \<le> percent c n"
proof -
  define t N e where "t = real (unat c)" and "N = real (unat n)" and "e = (1 / 10 ^ 9 :: real)"
  have "0 < unat n" using assms(3) by (simp add: unat_gt_0)
  then have "1 \<le> unat c" "1 \<le> unat n" using assms(1) by linarith+
  then have t: "1 \<le> t" "1 \<le> N" "t \<le> N" "N \<le> 4 * t" using assms(1,2) by (simp_all add: t_def N_def flip: of_nat_le_iff)
  define a where "a = fl (100 * fl t)"
  have e: "0 \<le> 1 - e" "0 \<le> 1 + e" by (simp_all add: e_def)
  note ft = fl_between [OF t(1) e_def] and fN = fl_between [OF t(2) e_def]
  have "1 / 2 \<le> fl t" using ft(1) t(1) by (simp add: e_def)
  then have fa: "100 * fl t * (1 - e) \<le> a" "a \<le> 100 * fl t * (1 + e)" using fl_between [of "100 * fl t" e] by (simp_all add: a_def e_def)
  have lo: "100 * t * (1 - e) * (1 - e) \<le> a" using mult_right_mono [OF ft(1) e(1)] fa(1) by linarith
  have hi: "a \<le> 100 * t * (1 + e) * (1 + e)" using mult_right_mono [OF ft(2) e(2)] fa(2) by linarith
  have b: "0 < fl N" using fN(1) t(2) by (simp add: e_def)
  define x where "x = 100 * t / N"
  have x: "25 \<le> x" "x \<le> 100" using t by (simp_all add: x_def field_simps)
  have xN: "x * N = 100 * t" using t(2) by (simp add: x_def)
  have "x * (1 - 4 * e) * fl N \<le> x * (1 - 4 * e) * (N * (1 + e))"
    using fN(2) x(1) by (intro mult_left_mono) (simp_all add: e_def)
  also have "\<dots> = 100 * t * ((1 - 4 * e) * (1 + e))" unfolding xN [symmetric] by (simp only: ac_simps)
  also have "\<dots> \<le> 100 * t * ((1 - e) * (1 - e))" using t(1) by (intro mult_left_mono) (simp_all add: e_def)
  also have "\<dots> \<le> a" using lo by (simp only: ac_simps)
  finally have q1: "x * (1 - 4 * e) \<le> a / fl N" using b by (simp only: pos_le_divide_eq)
  have "a \<le> 100 * t * ((1 + e) * (1 + e))" using hi by (simp only: ac_simps)
  also have "\<dots> \<le> 100 * t * ((1 + 4 * e) * (1 - e))" using t(1) by (intro mult_left_mono) (simp_all add: e_def)
  also have "\<dots> = x * (1 + 4 * e) * (N * (1 - e))" unfolding xN [symmetric] by (simp only: ac_simps)
  also have "\<dots> \<le> x * (1 + 4 * e) * fl N" using fN(1) x(1) by (intro mult_left_mono) (simp_all add: e_def)
  finally have q2: "a / fl N \<le> x * (1 + 4 * e)" using b by (simp only: pos_divide_le_eq)
  define q where "q = a / fl N"
  have p: "percent c n = fl q" by (simp add: percent_def double_of_u64_def q_def a_def t_def N_def)
  have q: "x * (1 - 4 * e) \<le> q" "q \<le> x * (1 + 4 * e)" using q1 q2 by (simp_all only: q_def)
  then have "1 \<le> q" using x(1) by (simp add: e_def)
  note fq = fl_between [OF this e_def]
  have "\<bar>fl q - x\<bar> \<le> 1 / 1000" unfolding abs_le_iff using fq q x by (simp add: e_def)
  then show "\<bar>percent c n - 100 * real (unat c) / real (unat n)\<bar> \<le> 1 / 1000" unfolding p x_def t_def N_def .
  show "0 \<le> percent c n" unfolding p using \<open>1 \<le> q\<close> by (intro fl_nonneg) simp
qed

lemma HashKeyGen_new_Some:
  assumes "0 < intervals" "intervals dvd 64"
  obtains h g' where "HashKeyGen_new unif cexp intervals sigma fx g = Some (h, g')"
proof -
  obtain offs g' where "draw_offs unif (nat (64 div intervals)) (nat intervals) g = (offs, g')" by fastforce
  with assms have "\<exists>h. HashKeyGen_new unif cexp intervals sigma fx g = Some (h, g')"
    by (simp add: HashKeyGen_new_def Let_def dvd_eq_mod_eq_0)
  with that show ?thesis by blast
qed

lemma skew_lines_share:
  "length (skew_lines sigma intervals bl n counts) = 5"
  "skew_lines sigma intervals bl n counts ! 1 =
     ''top-25% buckets capture '' @ fmt_f 1 (percent (top_mass counts (length counts div 4)) n) @
     ''% of keys  (paper: ~53% at sigma=0.4)''"
  by (simp_all only: skew_lines_def Let_def One_nat_def nth_Cons_Suc nth_Cons_0) simp

lemma skew_share_text:
  assumes "n \<noteq> 0" "sum_list (map unat counts) = unat n" "length counts = 4 * q"
  defines "p \<equiv> fmt_f 1 (percent (top_mass counts q) n)"
    and "x \<equiv> 100 * real (sum_list (take q (rev (sort (map unat counts))))) / real (unat (n :: u64))"
  shows "\<bar>dec_value p - x\<bar> \<le> 51 / 1000" "25 \<le> x" "x \<le> 100"
proof -
  have "q \<le> length counts" using assms(3) by simp
  note top = top_mass_bounds [OF assms(2) this]
  have n: "0 < unat n" using assms(1) by (simp add: unat_gt_0)
  have "0 < q" using assms(2,3) n by (cases q) auto
  then have quarter: "unat n \<le> 4 * unat (top_mass counts q)" using top(1) unfolding assms(3) by simp
  note pc = percent_close [OF quarter top(2) assms(1)]
  have "\<bar>dec_value p - percent (top_mass counts q) n\<bar> \<le> 1 / 20" unfolding p_def using fmt_f_accurate [OF pc(2), of 1] by simp
  with pc(1) show "\<bar>dec_value p - x\<bar> \<le> 51 / 1000" unfolding x_def top(3) [symmetric] by linarith
  have "real (unat n) \<le> 4 * real (unat (top_mass counts q))" "real (unat (top_mass counts q)) \<le> real (unat n)"
    using quarter top(2) by linarith+
  with n show "25 \<le> x" "x \<le> 100" unfolding x_def top(3) [symmetric] by (simp_all add: field_simps)
qed

subsection \<open>Properties\<close>

text \<open>C35. The skew check prints the true share of the fullest quarter of the buckets. For a number of intervals that
  divides 64, at least four and fewer than \<open>2 ^ 64\<close> buckets and at least one key, it ends with five lines; every key is counted once,
  without wrap-around; the share printed is within 0.051 of the percentage of the keys that the fullest quarter
  holds, which is at least 25 and at most 100.\<close>

theorem skew_check_share:
  assumes "skew_args C argv = (sigma, intervals, bl, n)" "0 < intervals" "intervals dvd 64"
    and "2 \<le> bl" "bl < 64" "n \<noteq> 0"
  shows "\<exists>h g counts ls p. HashKeyGen_new unif cexp intervals sigma True (engine 42) = Some (h, g) \<and>
    counts = map unat (skew_counts unif h (nat bl) (unat n) g) \<and> length counts = 2 ^ nat bl \<and> sum_list counts = unat n \<and>
    skew_main C unif cexp engine argv = Some ls \<and> length ls = 5 \<and>
    ls ! 1 = ''top-25% buckets capture '' @ p @ ''% of keys  (paper: ~53% at sigma=0.4)'' \<and>
    (let share = 100 * real (sum_list (take (2 ^ nat bl div 4) (rev (sort counts)))) / real (unat n)
     in \<bar>dec_value p - share\<bar> \<le> 51 / 1000 \<and> 25 \<le> share \<and> share \<le> 100)"
proof -
  obtain h g where h: "HashKeyGen_new unif cexp intervals sigma True (engine 42) = Some (h, g)"
    by (rule HashKeyGen_new_Some [OF assms(2,3)])
  let ?c = "skew_counts unif h (nat bl) (unat n) g" let ?q = "2 ^ nat bl div 4 :: nat"
  have "nat bl < 64" using assms(5) by simp
  note c = skew_counts_nat [OF this, of unif h n g]
  have "(2 :: nat) ^ 2 dvd 2 ^ nat bl" using assms(4) by (intro le_imp_power_dvd) simp
  then have q: "length ?c = 4 * ?q" unfolding c(2) by simp
  have "skew_main C unif cexp engine argv = Some (skew_lines sigma intervals bl n ?c)"
    using assms(1,4-6) h by (simp add: skew_main_def)
  moreover note skew_lines_share [of sigma intervals bl n ?c, unfolded c(2)]
  moreover note skew_share_text [OF assms(6) c(1) q]
  ultimately show ?thesis using h c
    by (intro exI [of _ h] exI [of _ g] exI [of _ "map unat ?c"] exI [of _ "skew_lines sigma intervals bl n ?c"]
        exI [of _ "fmt_f 1 (percent (top_mass ?c ?q) n)"]) (simp only: Let_def length_map)
qed

theorem skew_check_share_witness:
  "\<exists>ls p. skew_main demo_clib low_uni (\<lambda>_. 1) (\<lambda>_. 0) [''skew_check''] = Some ls \<and> length ls = 5 \<and>
    ls ! 1 = ''top-25% buckets capture '' @ p @ ''% of keys  (paper: ~53% at sigma=0.4)'' \<and>
    24 \<le> dec_value p \<and> dec_value p \<le> 101"
proof -
  have "skew_args demo_clib [''skew_check''] = (fl (2 / 5), 8, 8, 1000000)" by (simp add: skew_args_def)
  from skew_check_share [OF this, of low_uni "\<lambda>_. 1" "\<lambda>_. 0"] obtain ls p counts where
    l: "skew_main demo_clib low_uni (\<lambda>_. 1) (\<lambda>_. 0) [''skew_check''] = Some ls" "length ls = 5"
      "ls ! 1 = ''top-25% buckets capture '' @ p @ ''% of keys  (paper: ~53% at sigma=0.4)''" and
    "let share = 100 * real (sum_list (take (2 ^ nat 8 div 4) (rev (sort counts)))) / real (unat (1000000 :: u64))
     in \<bar>dec_value p - share\<bar> \<le> 51 / 1000 \<and> 25 \<le> share \<and> share \<le> 100" by auto
  then have "24 \<le> dec_value p" "dec_value p \<le> 101" by (auto simp only: Let_def)
  with l show ?thesis by blast
qed

end
