(* ===== verification/Clock_Spin.thy ===== *)
theory Clock_Spin
  imports Prelude
begin

text \<open>
  The clock and the busy wait of the producer (\<^verbatim>\<open>now_ns\<close> and \<^verbatim>\<open>spin_until\<close> of \<^verbatim>\<open>bench.cpp\<close>). \<open>clk i\<close> is the \<open>i\<close>-th reading of
  the steady clock, in nanoseconds; waiting reads it until the deadline and gives the number of the next
  reading, \<open>None\<close> if the deadline never comes. The thread models take the reading that ends the wait as an input of
  the producer's step, which is taken only when it is not before the deadline; here this is what the wait ensures on a
  clock that does not run backwards.
\<close>

definition now_ns :: "int \<Rightarrow> int \<Rightarrow> u64" where
  "now_ns t0 now = word_of_int (now - t0)"

partial_function (option) spin_until :: "(nat \<Rightarrow> int) \<Rightarrow> int \<Rightarrow> u64 \<Rightarrow> nat \<Rightarrow> nat option" where
  "spin_until clk t0 target_ns i =
     (if now_ns t0 (clk i) \<ge> target_ns then Some (i + 1) else spin_until clk t0 target_ns (i + 1))"

lemma spin_until_first:
  assumes "i \<le> j" "now_ns t0 (clk j) \<ge> target" "\<forall>l. i \<le> l \<and> l < j \<longrightarrow> now_ns t0 (clk l) < target"
  shows "spin_until clk t0 target i = Some (j + 1)"
  using assms
proof (induction "j - i" arbitrary: i)
  case 0
  then show ?case by (subst spin_until.simps) simp
next
  case (Suc n)
  then have "now_ns t0 (clk i) < target" "spin_until clk t0 target (i + 1) = Some (j + 1)" by simp_all
  then show ?case by (subst spin_until.simps) (auto dest: leD)
qed

text \<open>On a steady clock whose readings since \<open>t0\<close> fit 63 bits, waiting for a deadline that is reached returns, and every
  later reading is not before the deadline: the lag the producer adds up does not wrap around.\<close>

lemma spin_until_lag:
  assumes "mono clk" "\<forall>l. 0 \<le> clk l - t0 \<and> clk l - t0 < 2 ^ 63" "\<exists>j \<ge> i. now_ns t0 (clk j) \<ge> target"
  shows "\<exists>n > i. spin_until clk t0 target i = Some n \<and>
    (\<forall>l \<ge> n. target \<le> now_ns t0 (clk l) \<and> uint (now_ns t0 (clk l) - target) = (clk l - t0) - uint target)"
proof -
  let ?P = "\<lambda>j. i \<le> j \<and> now_ns t0 (clk j) \<ge> target"
  define j where "j = (LEAST j. ?P j)"
  have "\<exists>j. ?P j" using assms(3) by blast
  then have j: "?P j" unfolding j_def by (rule LeastI_ex)
  have "now_ns t0 (clk l) < target" if "i \<le> l" "l < j" for l
    using not_less_Least [of l ?P] that unfolding j_def by (simp add: not_le)
  with j have spin: "spin_until clk t0 target i = Some (j + 1)" by (intro spin_until_first) simp_all
  have u: "uint (now_ns t0 (clk l)) = clk l - t0" for l
    using spec [OF assms(2), of l] unfolding now_ns_def
    by (simp add: uint_word_of_int_eq take_bit_int_eq_self del: of_int_diff)
  have "target \<le> now_ns t0 (clk l) \<and> uint (now_ns t0 (clk l) - target) = (clk l - t0) - uint target" if "j + 1 \<le> l" for l
  proof -
    have "clk j \<le> clk l" using assms(1) that by (simp add: mono_def)
    moreover have "uint target \<le> clk j - t0" using j u [of j] by (simp add: word_le_def)
    ultimately have le: "target \<le> now_ns t0 (clk l)" using u [of l] by (simp add: word_le_def)
    then have "uint (now_ns t0 (clk l) - target) = uint (now_ns t0 (clk l)) - uint target" by (simp add: uint_minus_simple_alt word_le_def)
    with le u show ?thesis by simp
  qed
  then show ?thesis using spin j by (intro exI [of _ "j + 1"]) simp
qed

end
