(* ===== verification/Spec2Isabelle.thy ===== *)
theory Spec2Isabelle
  imports Prelude Ieee_Double Histogram MPMC_Queue BPlus_Tree Index_Iface BTree_Adapter Hash_Index
    Op_Mix Workload Hash_Key_Gen Traffic_Model Perf_Ctr Bench_Args Bench_Ops Batch_Run
    Poisson_Run Poisson_Progress Fair_Runs External_Adapters Arrival_Schedule Index_Factory Query_Stream Bench_Report Bench_Main
    MPMC_Order BTree_Destroy Text_Output Human_Report Skew_Check Clock_Spin
begin

text \<open>
  \<^bold>\<open>AuxIndexBench.\<close> The program measures in-memory index structures under load. \<^verbatim>\<open>bench.cpp\<close> parses a command
  line, generates keys, builds an index behind the interface \<^verbatim>\<open>IIndex\<close> and loads it, generates a stream of
  query keys, and performs the stream: in batch mode by workers that each take a contiguous shard, in
  Poisson mode by clients that take the queries out of a bounded lock-free queue into which one producer
  puts them at the deadlines of a pregenerated schedule. After every index operation a thread runs a
  workload that dirties the caches. Latencies go into histograms, which are merged and reported.

  \<^bold>\<open>Layout.\<close> One theory per component, in the order in which they build on each other:

  \<^item> \<open>Prelude\<close>: the machine words, the collections of facts and the lemmas on lists and words all use.
    \<open>Ieee_Double\<close>: doubles as real numbers rounded to binary64 after every operation (\<open>fl\<close>), and the
    conversions to integers, undefined out of range.
  \<^item> \<open>Histogram\<close> (\<^verbatim>\<open>histogram.hpp\<close>): buckets, \<open>add\<close>, \<open>merge\<close>, \<open>mean_ns\<close>, \<open>percentile\<close>. Every sample falls in its
    bucket, merging is concatenation of the samples, a percentile is within an eighth of the sample of its
    rank.
  \<^item> \<open>MPMC_Queue\<close> (\<^verbatim>\<open>mpmc_queue.hpp\<close>): every atomic access of \<^verbatim>\<open>try_enqueue\<close> and \<^verbatim>\<open>try_dequeue\<close> is one step of
    \<open>thread_step\<close>, with compare-exchanges that may fail spuriously; the reachable states of any number of
    threads are those of an inductive relation. The queue stays well-formed, no two threads hold a cell, the queue is FIFO with no loss or
    duplication, a failure is justified. A queue of one cell is broken. \<open>MPMC_Order\<close>: the memory orders of its
    accesses, with vector clocks for happens-before; the plain accesses to the cells are ordered.
  \<^item> \<open>BPlus_Tree\<close> (\<^verbatim>\<open>index.hpp\<close>): nodes in a heap of addresses; bulk load level by level, descent, update,
    scan over the leaf chain, height. \<open>Index_Iface\<close> (\<^verbatim>\<open>index_iface.hpp\<close>): the interface as a record of operations
    and its contract as the locales \<open>point_index\<close> and \<open>loadable_index\<close>. \<open>BTree_Adapter\<close> and \<open>Hash_Index\<close>
    (\<^verbatim>\<open>hash_index.hpp\<close> and the two built-in adapters) interpret them. \<open>BTree_Destroy\<close>: the destructor of the tree,
    which frees every node of a load exactly once.
  \<^item> \<open>External_Adapters\<close> (\<^verbatim>\<open>adapters/\<close>): the adapters of the vendored indexes, as functions of the native
    operations; what each relies on is a named predicate on those (\<open>kv_laws\<close> and its variants). The placeholder
    classes of a build without them, uTree's memory mapping, LB+-Tree's pools and BzTree's set-up.
  \<^item> \<open>Op_Mix\<close> (\<^verbatim>\<open>op_mix.hpp\<close>): the parser of the mix and the table of 1024 bins. \<open>Workload\<close> (\<^verbatim>\<open>workload.hpp\<close>): the
    buffers as byte lists with every access checked. \<open>Hash_Key_Gen\<close> (\<^verbatim>\<open>hash_key_gen.hpp\<close>) and
    \<open>Skew_Check\<close> (\<^verbatim>\<open>run_skew_check.cpp\<close>: the share it prints for the fullest buckets is the true one),
    \<open>Traffic_Model\<close> (\<^verbatim>\<open>traffic_model.hpp\<close>), \<open>Perf_Ctr\<close> (\<^verbatim>\<open>perfctr.hpp\<close>).
  \<^item> \<open>Bench_Args\<close> (\<^verbatim>\<open>parse_args\<close>, \<^verbatim>\<open>pow2_ceil\<close>, the queue capacity), \<open>Bench_Ops\<close> (the lock of an operation, the
    call on the index, the recording), \<open>Batch_Run\<close> (\<^verbatim>\<open>batch_worker\<close>, \<^verbatim>\<open>run_batch\<close>), \<open>Poisson_Run\<close>
    (\<^verbatim>\<open>client_thread\<close> and the producer of \<^verbatim>\<open>run_poisson\<close>, on top of the steps of the queue), \<open>Poisson_Progress\<close> (its
    threads can always come to their end: a well-founded order of states and, in every state, a step that goes down
    in it), \<open>Fair_Runs\<close> (runs of both modes under a scheduler: they end under every fair one), \<open>Clock_Spin\<close> (\<^verbatim>\<open>now_ns\<close>, \<^verbatim>\<open>spin_until\<close>), \<open>Arrival_Schedule\<close>
    (\<^verbatim>\<open>InterArrivalGen\<close> and the schedule), \<open>Index_Factory\<close> (\<^verbatim>\<open>index_factory.hpp\<close>), \<open>Query_Stream\<close> (the keys, \<^verbatim>\<open>ZipfGen\<close>,
    the query stream), \<open>Bench_Report\<close> (repeats, throughput, CSV columns), \<open>Bench_Main\<close> (the set-up of \<^verbatim>\<open>main\<close> with its
    error exits and the repeated runs of both modes), \<open>Text_Output\<close> (the text of numbers, latencies and CSV rows, and
    that it reads back), \<open>Human_Report\<close> (the tables for people, the warnings and the whole output of \<^verbatim>\<open>main\<close>): all
    from \<^verbatim>\<open>bench.cpp\<close>.
  \<^item> This theory: the two modes from the parsed arguments to the report.

  \<^bold>\<open>Threads.\<close> A run is a state with one program counter per thread and a step relation in which any thread
  moves; a theorem about every reachable state holds for every interleaving. The clock is an input of each
  step, so nothing depends on what it shows. An index call has an entry and an exit and takes effect at one
  step in between; that no two conflicting calls overlap on an index without concurrency control is
  \<open>batch_no_conflict\<close> and \<open>poisson_no_conflict\<close>. \<^verbatim>\<open>std::shared_mutex\<close> is its specification. Interleavings
  are sequentially consistent; that the memory orders of the queue's accesses order its plain accesses is shown by
  clocks, the orders of the driver's flag and counters are not modelled. A scheduler gives a thread the processor
  at every tick; a fair one comes back to every thread again and again. That runs end is proved for every fair
  scheduler, with a lock that need not be fair.

  \<^bold>\<open>Results that may be missing.\<close> An operation that may assert, index outside a vector, convert out of range or
  loop returns \<open>None\<close>; a process that exits is \<open>Exit\<close> with its code and one that gets stuck is \<open>Stuck\<close>. Loops
  that may not end are partial functions to \<open>option\<close>, and that they return is proved. The only fuel is that of
  \<open>run_op\<close>, the number of steps of an undisturbed queue call: five are enough, since such a call does not
  retry.

  \<^bold>\<open>Parameters.\<close> The C library's number parsers and mathematical functions, the random engine with its
  distributions, the shuffles, the environment, system calls and the vendored indexes are arguments; what a
  theorem needs of them (a draw is in its range, a shuffle permutes) is among its hypotheses, and a witness
  gives an instance.

  \<^bold>\<open>Text.\<close> Output is a list of lines. A double is printed as the C library prints it: the decimal nearest to the
  exact value, ties to even.

  \<^bold>\<open>Not modelled.\<close> What the vendored indexes do when they are constructed; infinities and not-a-numbers of
  doubles, except where a definition writes them out; the vendored indexes under \<^verbatim>\<open>third_party/\<close>; the experiment
  scripts and plots.
\<close>

section \<open>Whole runs\<close>


definition demo_host :: "(unit, unit) host" where
  "demo_host = \<lparr>h_math = powr_math, h_exp = exp, h_udi = (\<lambda>lo hi g. (lo, g)), h_engine = (\<lambda>s. ()),
     h_shuffle_lines = (\<lambda>sd xs. xs), h_shuffle_slots = (\<lambda>sd xs. xs), h_clib = demo_clib, h_ext = (\<lambda>nm. None)\<rparr>"

definition demo_args :: Args where
  "demo_args = Args_default\<lparr>keys_n := 4, queries := 3, workers := 2\<rparr>"

lemma demo_runnable: "runnable demo_host demo_args search_mix"
  "runnable demo_host (demo_args\<lparr>arrival := Poisson, rate := 1000\<rparr>) search_mix"
  using search_mix_ok(1)
  by (simp_all add: runnable_def demo_host_def demo_args_def Args_default_def builtin_def gen_ok_def use_skew_gen_def
      dist_ok_def udi_ok_def parse_opmix_def search_mix_def params_fit_def)




end
